(* ===== verification/Prelude.thy ===== *)
theory Prelude
  imports Main "HOL-Library.Word"
begin

text \<open>
  Shared vocabulary of the development: the C integer types of \<^verbatim>\<open>kernel/types.h\<close> as machine
  words, byte-addressed memory with little-endian multi-byte access, and the generic lemmas on
  words, lists and memories that the component theories use through the collections below.
\<close>

unbundle bit_operations_syntax

named_theorems mem_simps \<open>reading memory back after a store\<close>
named_theorems run_simps \<open>symbolic execution of kernel operations\<close>
named_theorems wp_intros \<open>weakest preconditions of kernel operations\<close>

subsection \<open>C integer types\<close>

type_synonym uchar = "8 word"
type_synonym ushort = "16 word"
type_synonym uint = "32 word"
type_synonym uint64 = "64 word"
type_synonym addr = "64 word"
type_synonym memory = "addr \<Rightarrow> uchar"

subsection \<open>Little-endian encoding\<close>

primrec to_le :: "nat \<Rightarrow> 'a::len word \<Rightarrow> uchar list" where
  "to_le 0 v = []"
| "to_le (Suc n) v = ucast v # to_le n (drop_bit 8 v)"

primrec of_le :: "uchar list \<Rightarrow> 'a::len word" where
  "of_le [] = 0"
| "of_le (b # bs) = ucast b OR push_bit 8 (of_le bs)"

lemma length_to_le [simp]: "length (to_le n v) = n"
  by (induction n arbitrary: v) auto

lemma to_le_0 [simp]: "to_le n 0 = replicate n 0"
  by (induction n) simp_all

lemma of_le_to_le: "of_le (to_le n v) = take_bit (8 * n) v"
proof (induction n arbitrary: v)
  case 0
  then show ?case by simp
next
  case (Suc n)
  have "ucast (ucast v :: uchar) OR push_bit 8 (take_bit (8 * n) (drop_bit 8 v))
      = take_bit (8 * Suc n) v"
    by (rule bit_eqI) (auto simp: bit_simps)
  then show ?case by (simp add: Suc)
qed

lemma of_le_to_le_16 [simp]: "of_le (to_le 2 (v :: ushort)) = v"
  by (simp add: of_le_to_le take_bit_word_eq_self)

lemma of_le_to_le_32 [simp]: "of_le (to_le 4 (v :: uint)) = v"
  by (simp add: of_le_to_le take_bit_word_eq_self)

lemma of_le_to_le_64 [simp]: "of_le (to_le 8 (v :: uint64)) = v"
  by (simp add: of_le_to_le take_bit_word_eq_self)

lemma unat_bound: "unat (x :: uint64) < 18446744073709551616"
  using unsigned_less [of x] by simp

lemma unat_add_le: "unat (x + y :: uint64) \<le> unat x + unat y"
  by (simp add: unat_word_ariths)

subsection \<open>Memory access\<close>

definition mload :: "memory \<Rightarrow> addr \<Rightarrow> nat \<Rightarrow> uchar list" where
  "mload m a n = map (\<lambda>i. m (a + of_nat i)) [0..<n]"

definition mstore :: "memory \<Rightarrow> addr \<Rightarrow> uchar list \<Rightarrow> memory" where
  "mstore m a bs = (\<lambda>x. if unat (x - a) < length bs then bs ! unat (x - a) else m x)"

definition mfill :: "memory \<Rightarrow> addr \<Rightarrow> uchar \<Rightarrow> nat \<Rightarrow> memory" where
  "mfill m a c n = (\<lambda>x. if unat (x - a) < n then c else m x)"

definition load64 :: "memory \<Rightarrow> addr \<Rightarrow> uint64" where
  "load64 m a = of_le (mload m a 8)"

definition store64 :: "memory \<Rightarrow> addr \<Rightarrow> uint64 \<Rightarrow> memory" where
  "store64 m a v = mstore m a (to_le 8 v)"

lemma length_mload [simp]: "length (mload m a n) = n"
  by (simp add: mload_def)

lemma nth_mload [simp]: "i < n \<Longrightarrow> mload m a n ! i = m (a + of_nat i)"
  by (simp add: mload_def)

lemma mload_0 [simp]: "mload m a 0 = []"
  by (simp add: mload_def)

lemma mload_cong: "(\<And>i. i < n \<Longrightarrow> m (a + of_nat i) = m' (b + of_nat i)) \<Longrightarrow> mload m a n = mload m' b n"
  by (simp add: mload_def)

lemma mload_add: "mload m a (i + j) = mload m a i @ mload m (a + of_nat i) j"
  by (rule nth_equalityI) (auto simp: nth_append ac_simps simp flip: of_nat_add)

lemma unat_offset [simp]: "i < 2 ^ 64 \<Longrightarrow> unat (a + of_nat i - a :: addr) = i"
  by (simp add: unat_of_nat)

lemma offset_eq: "n < 2 ^ 64 \<Longrightarrow> x = (a :: addr) + of_nat n \<longleftrightarrow> unat (x - a) = n"
proof
  assume "n < 2 ^ 64" "unat (x - a) = n"
  then have "x - a = of_nat n" by (metis unat_offset add_diff_cancel_left' word_unat_eq_iff)
  then show "x = a + of_nat n" by (simp add: algebra_simps)
next
  assume "n < 2 ^ 64" "x = a + of_nat n"
  then show "unat (x - a) = n" using unat_offset by blast
qed

lemma mload_Suc: "mload m a (Suc n) = m a # mload m (a + 1) n"
  using mload_add [of m a 1 n] by (simp add: mload_def)

lemma mload_snoc: "mload m a (Suc n) = mload m a n @ [m (a + of_nat n)]"
  by (simp add: mload_def)

lemma mload_upd: "(\<And>i. i < n \<Longrightarrow> b \<noteq> a + of_nat i) \<Longrightarrow> mload (m(b := c)) a n = mload m a n"
  by (rule mload_cong) auto

lemma mstore_Nil [simp]: "mstore m a [] = m"
  by (simp add: mstore_def)

lemma mstore_snoc: "length bs < 2 ^ 64 \<Longrightarrow> mstore m a (bs @ [c]) = mstore (m(a + of_nat (length bs) := c)) a bs"
  using offset_eq [of "length bs" _ a] by (auto simp: mstore_def fun_eq_iff nth_append less_Suc_eq)

lemma mload_mstore [mem_simps]:
  "length bs \<le> 2 ^ 64 \<Longrightarrow> n = length bs \<Longrightarrow> mload (mstore m a bs) a n = bs"
  by (rule nth_equalityI) (simp_all add: mstore_def unat_of_nat)

lemma mload_other:
  assumes "\<And>i. i < n \<Longrightarrow> length bs \<le> unat (b + of_nat i - a)"
  shows "mload (mstore m a bs) b n = mload m b n"
proof (rule mload_cong)
  fix i assume "i < n"
  then have "\<not> unat (b + of_nat i - a) < length bs"
    using assms by (simp add: linorder_not_less)
  then show "mstore m a bs (b + of_nat i) = m (b + of_nat i)"
    by (simp add: mstore_def)
qed

lemma unat_diff_Suc: "x \<noteq> a \<Longrightarrow> unat (x - a :: addr) = Suc (unat (x - (a + 1)))"
proof -
  assume "x \<noteq> a"
  then have ne: "x - a \<noteq> 0" by simp
  have "unat (x - (a + 1)) = unat (x - a - 1)" by (simp add: diff_diff_eq)
  also have "\<dots> = unat (x - a) - 1" using ne by (rule unat_minus_one)
  finally show ?thesis using ne by (simp add: unat_gt_0)
qed

lemma mstore_Cons:
  assumes "length bs < 2 ^ 64"
  shows "mstore m a (c # bs) = mstore (m(a := c)) (a + 1) bs"
proof
  fix x
  show "mstore m a (c # bs) x = mstore (m(a := c)) (a + 1) bs x"
  proof (cases "x = a")
    case True
    have "unat (- 1 :: addr) = 2 ^ 64 - 1" by (simp add: unsigned_minus_1_eq_mask mask_eq_exp_minus_1)
    then show ?thesis using True assms by (simp add: mstore_def)
  next
    case False
    then show ?thesis by (simp add: mstore_def unat_diff_Suc)
  qed
qed

lemma load64_store64 [mem_simps]: "load64 (store64 m a v) a = v"
  by (simp add: load64_def store64_def mload_mstore)

lemma load64_cong: "(\<And>i. i < 8 \<Longrightarrow> m (a + of_nat i) = m' (a + of_nat i)) \<Longrightarrow> load64 m a = load64 m' a"
  unfolding load64_def by (metis mload_cong)

lemma mfill_inside: "unat (x - a) < n \<Longrightarrow> mfill m a c n x = c"
  by (simp add: mfill_def)

lemma mfill_outside: "n \<le> unat (x - a) \<Longrightarrow> mfill m a c n x = m x"
  by (simp add: mfill_def)

subsection \<open>Pages\<close>

text \<open>The number of the 4096-byte page that an address lies in.\<close>

definition pgof :: "addr \<Rightarrow> addr" where
  "pgof x = drop_bit 12 x"

definition aligned :: "addr \<Rightarrow> bool" where
  "aligned p \<longleftrightarrow> take_bit 12 p = 0"

lemma aligned_bit: "aligned p \<longleftrightarrow> (\<forall>n < 12. \<not> bit p n)"
proof
  assume "aligned p"
  then have "\<not> bit (take_bit 12 p) n" for n by (simp add: aligned_def)
  then show "\<forall>n < 12. \<not> bit p n" by (simp add: bit_take_bit_iff)
next
  assume "\<forall>n < 12. \<not> bit p n"
  then show "aligned p"
    unfolding aligned_def by (intro bit_word_eqI) (simp add: bit_take_bit_iff)
qed

lemma take_bit_self_bit: "take_bit k (w :: 'a::len word) = w \<longleftrightarrow> (\<forall>n \<ge> k. \<not> bit w n)"
proof
  assume *: "take_bit k w = w"
  show "\<forall>n \<ge> k. \<not> bit w n"
  proof (intro allI impI)
    fix n assume "k \<le> n"
    then have "\<not> bit (take_bit k w) n" by (simp add: bit_take_bit_iff)
    then show "\<not> bit w n" by (simp add: *)
  qed
next
  assume "\<forall>n \<ge> k. \<not> bit w n"
  then show "take_bit k w = w"
    by (intro bit_word_eqI) (metis bit_take_bit_iff not_less)
qed

lemma pgof_bit: "bit (pgof x) n \<longleftrightarrow> bit x (12 + n)"
  by (simp add: pgof_def bit_drop_bit_eq)

lemma pgof_eqD: "pgof x = pgof y \<Longrightarrow> 12 \<le> n \<Longrightarrow> bit x n = bit y n"
  using pgof_bit [of x "n - 12"] pgof_bit [of y "n - 12"] by simp

lemma pgof_inj: "aligned p \<Longrightarrow> aligned q \<Longrightarrow> pgof p = pgof q \<longleftrightarrow> p = q"
proof (rule iffI)
  assume p: "aligned p" and q: "aligned q" and e: "pgof p = pgof q"
  show "p = q"
  proof (rule bit_word_eqI)
    fix n
    show "bit p n = bit q n"
      using p q pgof_eqD [OF e] by (cases "n < 12") (auto simp: aligned_bit)
  qed
qed simp

lemma small_bit: "unat (x :: addr) < 4096 \<Longrightarrow> 12 \<le> n \<Longrightarrow> \<not> bit x n"
proof -
  assume x: "unat x < 4096" and n: "12 \<le> n"
  have "take_bit 12 x = x"
    using x by (simp add: take_bit_eq_mod word_unat_eq_iff unat_mod)
  then show ?thesis using n by (simp add: take_bit_self_bit)
qed

lemma pgof_offset [simp]:
  assumes "aligned p" "unat x < 4096"
  shows "pgof (p + x) = pgof p"
proof -
  have "p + x = p OR x"
    using assms small_bit [of x] by (intro disjunctive_add_eq_or bit_word_eqI)
      (auto simp: aligned_bit bit_and_iff not_less intro: leI)
  then show ?thesis
    using small_bit [OF assms(2)] by (intro bit_word_eqI) (simp add: pgof_bit bit_or_iff)
qed

lemma page_base: "pgof x = pgof p \<Longrightarrow> aligned p \<Longrightarrow> x = p + take_bit 12 x"
proof -
  assume e: "pgof x = pgof p" and p: "aligned p"
  have "x = p OR take_bit 12 x"
  proof (rule bit_word_eqI)
    fix n
    show "bit x n = bit (p OR take_bit 12 x) n"
      using p pgof_eqD [OF e] by (cases "n < 12") (auto simp: aligned_bit bit_or_iff bit_take_bit_iff)
  qed
  moreover have "p + take_bit 12 x = p OR take_bit 12 x"
    using p by (intro disjunctive_add_eq_or bit_word_eqI)
      (auto simp: aligned_bit bit_and_iff bit_take_bit_iff)
  ultimately show ?thesis by simp
qed

lemma take_bit_12_lt: "unat (take_bit 12 (x :: addr)) < 4096"
  by (simp add: take_bit_eq_mod unat_mod)

lemma in_page: "aligned p \<Longrightarrow> unat (x - p) < 4096 \<longleftrightarrow> pgof x = pgof p"
proof
  assume "aligned p" "unat (x - p) < 4096"
  then show "pgof x = pgof p" using pgof_offset [of p "x - p"] by simp
next
  assume p: "aligned p" and e: "pgof x = pgof p"
  from page_base [OF e p] have "x - p = take_bit 12 x" by (simp add: algebra_simps)
  then show "unat (x - p) < 4096" using take_bit_12_lt by simp
qed

text \<open>A whole page filled or copied: the bytes of that page change, no others do.\<close>

lemma mfill_page: "aligned p \<Longrightarrow> mfill m p c 4096 x = (if pgof x = pgof p then c else m x)"
  by (simp add: mfill_def in_page)

lemma mstore_page_other:
  assumes "aligned p" "pgof x \<noteq> pgof p" "unat off + length bs \<le> 4096"
  shows "mstore m (p + off) bs x = m x"
proof -
  have "\<not> unat (x - (p + off)) < length bs"
  proof
    assume lt: "unat (x - (p + off)) < length bs"
    have "x - p = (x - (p + off)) + off" by simp
    then have "unat (x - p) \<le> unat (x - (p + off)) + unat off"
      by (metis unat_add_le)
    with lt assms(3) have "unat (x - p) < 4096" by linarith
    with assms(1,2) show False by (simp add: in_page)
  qed
  then show ?thesis by (simp add: mstore_def)
qed

lemma mstore_copy_page:
  assumes "aligned p" "aligned q"
  shows "mstore m q (mload m p 4096) x = (if pgof x = pgof q then m (p + take_bit 12 x) else m x)"
proof (cases "pgof x = pgof q")
  case True
  from page_base [OF this assms(2)] have "x - q = take_bit 12 x" by (simp add: algebra_simps)
  then show ?thesis using take_bit_12_lt [of x] True by (simp add: mstore_def)
next
  case False
  then show ?thesis using mstore_page_other [OF assms(2) False, of 0 "mload m p 4096" m] by simp
qed

subsection \<open>The 512 eight-byte slots of a page\<close>

lemma slot_unat:
  assumes "unat i < 512" "k < 8"
  shows "unat (8 * i + of_nat k :: addr) = 8 * unat i + k"
proof -
  have "unat (of_nat k :: addr) = k"
    using assms(2) by (simp add: unat_of_nat)
  then show ?thesis
    using assms by (simp add: unat_word_ariths unat_of_nat)
qed

lemma slot_page [simp]: "aligned p \<Longrightarrow> unat i < 512 \<Longrightarrow> pgof (p + 8 * i) = pgof p"
  using slot_unat [of i 0] by simp

lemma slot_byte_page: "aligned p \<Longrightarrow> unat i < 512 \<Longrightarrow> k < 8 \<Longrightarrow> pgof (p + 8 * i + of_nat k) = pgof p"
  using slot_unat [of i k] pgof_offset [of p "8 * i + of_nat k"] by (simp add: add.assoc)

lemma store64_slot_frame:
  "aligned p \<Longrightarrow> unat i < 512 \<Longrightarrow> pgof x \<noteq> pgof p \<Longrightarrow> store64 m (p + 8 * i) v x = m x"
  unfolding store64_def using slot_unat [of i 0] by (intro mstore_page_other) auto

lemma load64_slot_frame:
  assumes "aligned q" "unat j < 512" "\<And>x. pgof x = pgof q \<Longrightarrow> m' x = m x"
  shows "load64 m' (q + 8 * j) = load64 m (q + 8 * j)"
  using assms by (intro load64_cong) (simp add: slot_byte_page)

lemma load64_store64_page [mem_simps]:
  "aligned p \<Longrightarrow> aligned q \<Longrightarrow> p \<noteq> q \<Longrightarrow> unat i < 512 \<Longrightarrow> unat j < 512 \<Longrightarrow>
    load64 (store64 m (p + 8 * i) v) (q + 8 * j) = load64 m (q + 8 * j)"
  by (intro load64_slot_frame store64_slot_frame) (auto simp: pgof_inj)

lemma load64_store64_slot [mem_simps]:
  assumes "unat i < 512" "unat j < 512" "i \<noteq> j"
  shows "load64 (store64 m (p + 8 * i) v) (p + 8 * j) = load64 m (p + 8 * j)"
proof -
  have "8 \<le> unat (p + 8 * j + of_nat k - (p + 8 * i))" if k: "k < 8" for k
  proof -
    have ne: "unat i \<noteq> unat j" using assms(3) by (simp add: word_unat_eq_iff)
    have e: "p + 8 * j + of_nat k - (p + 8 * i) = (8 * j + of_nat k) - 8 * i" by simp
    have "unat (8 * j + of_nat k - 8 * i) =
      (if 8 * unat i \<le> 8 * unat j + k then 8 * unat j + k - 8 * unat i
       else 8 * unat j + k + 2 ^ 64 - 8 * unat i)"
      using assms slot_unat [of j k] slot_unat [of i 0] k by (simp add: unat_sub_if')
    then show ?thesis unfolding e using ne assms k by (auto split: if_splits)
  qed
  then show ?thesis
    by (simp add: load64_def store64_def mload_other)
qed

lemma load64_mfill0 [mem_simps]:
  assumes "aligned p" "unat j < 512"
  shows "load64 (mfill m p 0 4096) (p + 8 * j) = 0"
proof -
  have "mload (mfill m p 0 4096) (p + 8 * j) 8 = to_le 8 (0 :: uint64)"
    using assms by (intro nth_equalityI) (simp_all add: mfill_page slot_byte_page)
  then show ?thesis unfolding load64_def by (simp only: of_le_to_le_64)
qed

end
