(* ===== verification/Kmonad.thy ===== *)
theory Kmonad
  imports Prelude
begin

text \<open>
  The shape of kernel code in this development.  A kernel function is a state transformer that
  ends in one of three ways: it returns (\<open>Ok\<close>), it calls \<^verbatim>\<open>panic\<close> (\<open>Panic\<close>, with the message;
  \<^verbatim>\<open>panic\<close> in \<^verbatim>\<open>kernel/printf.c\<close> never returns), or it reaches \<^verbatim>\<open>sched\<close> inside \<^verbatim>\<open>sleep\<close>
  (\<open>Sleep\<close>, with the channel and the state in which the process gives up the CPU).  The kernel
  state is a record that every component extends with its own fields; its root holds the set of
  spin locks that the executing CPU holds.
\<close>

subsection \<open>Locks and sleep channels\<close>

text \<open>The sleep locks, spin locks and sleep channels of the kernel, named after the C objects
  whose addresses identify them.\<close>

datatype slk = BufLk nat | InodeLk nat

datatype lock = KmemLock | PagerefLock | PidLock | WaitLock | ProcLock nat | TicksLock
  | BcacheLock | SleepLkLock slk | LogLock | ItableLock | FtableLock | PipeLock addr
  | ConsLock | UartTxLock | VdiskLock

datatype chan = ChanProc nat | ChanTicks | ChanLog | ChanSlk slk | ChanPipeRead addr
  | ChanPipeWrite addr | ChanBuf nat | ChanVdiskFree | ChanConsR | ChanUartR

subsection \<open>Results and sequencing\<close>

datatype ('a, 's) res = Ok 'a 's | Panic string | Sleep chan 's

type_synonym ('s, 'a) km = "'s \<Rightarrow> ('a, 's) res"

definition ret :: "'a \<Rightarrow> ('s, 'a) km" where
  "ret a s = Ok a s"

definition panic :: "string \<Rightarrow> ('s, 'a) km" where
  "panic e s = Panic e"

definition bind :: "('s, 'a) km \<Rightarrow> ('a \<Rightarrow> ('s, 'b) km) \<Rightarrow> ('s, 'b) km" where
  "bind m f s = (case m s of Ok a s' \<Rightarrow> f a s' | Panic e \<Rightarrow> Panic e | Sleep c s' \<Rightarrow> Sleep c s')"

definition thn :: "('s, 'a) km \<Rightarrow> ('s, 'b) km \<Rightarrow> ('s, 'b) km" where
  "thn m k = bind m (\<lambda>_. k)"

definition gets :: "('s \<Rightarrow> 'a) \<Rightarrow> ('s, 'a) km" where
  "gets f s = Ok (f s) s"

definition modify :: "('s \<Rightarrow> 's) \<Rightarrow> ('s, unit) km" where
  "modify f s = Ok () (f s)"

abbreviation skip :: "('s, unit) km" where
  "skip \<equiv> ret ()"

definition panic_if :: "bool \<Rightarrow> string \<Rightarrow> ('s, unit) km" where
  "panic_if b e = (if b then panic e else skip)"

lemma ret_run [run_simps]: "ret a s = Ok a s"
  by (simp add: ret_def)

lemma panic_run [run_simps]: "panic e s = Panic e"
  by (simp add: panic_def)

lemma gets_run [run_simps]: "gets f s = Ok (f s) s"
  by (simp add: gets_def)

lemma modify_run [run_simps]: "modify f s = Ok () (f s)"
  by (simp add: modify_def)

lemma panic_if_run [run_simps]: "panic_if b e s = (if b then Panic e else Ok () s)"
  by (simp add: panic_if_def run_simps)

lemma bind_run [run_simps]:
  "bind m f s = (case m s of Ok a s' \<Rightarrow> f a s' | Panic e \<Rightarrow> Panic e | Sleep c s' \<Rightarrow> Sleep c s')"
  by (simp add: bind_def)

lemma thn_run [run_simps]:
  "thn m k s = (case m s of Ok a s' \<Rightarrow> k s' | Panic e \<Rightarrow> Panic e | Sleep c s' \<Rightarrow> Sleep c s')"
  by (simp add: thn_def bind_def)

lemma bind_assoc: "bind (bind m f) g = bind m (\<lambda>x. bind (f x) g)"
  by (rule ext) (simp add: bind_def split: res.split)

lemma bind_OkE:
  assumes "bind m f s = Ok b t"
  obtains a s' where "m s = Ok a s'" "f a s' = Ok b t"
  using assms by (auto simp: bind_def split: res.splits)

lemma thn_OkE:
  assumes "thn m k s = Ok b t"
  obtains a s' where "m s = Ok a s'" "k s' = Ok b t"
  using assms by (auto simp: thn_run split: res.splits)

subsection \<open>Weakest preconditions\<close>

text \<open>\<open>wp m Q s\<close>: run from \<open>s\<close>, \<open>m\<close> returns (it neither panics nor sleeps) and the result and
  final state satisfy \<open>Q\<close>.\<close>

definition wp :: "('s, 'a) km \<Rightarrow> ('a \<Rightarrow> 's \<Rightarrow> bool) \<Rightarrow> 's \<Rightarrow> bool" where
  "wp m Q s = (case m s of Ok a s' \<Rightarrow> Q a s' | _ \<Rightarrow> False)"

lemma wp_iff: "wp m Q s \<longleftrightarrow> (\<exists>a s'. m s = Ok a s' \<and> Q a s')"
  by (auto simp: wp_def split: res.splits)

lemma wp_Ok: "m s = Ok a t \<Longrightarrow> wp m Q s = Q a t"
  by (simp add: wp_def)

lemma wp_ret [simp]: "wp (ret a) Q s = Q a s"
  by (simp add: wp_def run_simps)

lemma wp_panic [simp]: "\<not> wp (panic e) Q s"
  by (simp add: wp_def run_simps)

lemma wp_gets [simp]: "wp (gets f) Q s = Q (f s) s"
  by (simp add: wp_def run_simps)

lemma wp_modify [simp]: "wp (modify f) Q s = Q () (f s)"
  by (simp add: wp_def run_simps)

lemma wp_panic_if [simp]: "wp (panic_if b e) Q s = (\<not> b \<and> Q () s)"
  by (simp add: wp_def run_simps)

lemma wp_bind [simp]: "wp (bind m f) Q s = wp m (\<lambda>a. wp (f a) Q) s"
  by (simp add: wp_def run_simps split: res.split)

lemma wp_thn [simp]: "wp (thn m k) Q s = wp m (\<lambda>_. wp k Q) s"
  by (simp add: thn_def)

lemma wp_mono: "wp m P s \<Longrightarrow> (\<And>a t. P a t \<Longrightarrow> Q a t) \<Longrightarrow> wp m Q s"
  by (auto simp: wp_iff)

lemma wp_conj: "wp m P s \<Longrightarrow> wp m Q s \<Longrightarrow> wp m (\<lambda>a t. P a t \<and> Q a t) s"
  by (auto simp: wp_iff)

subsection \<open>Spin locks, as one CPU sees them\<close>

text \<open>Sequentially, a CPU that does not hold a spin lock waits until it is free and takes it; a
  CPU that holds it panics.  Theory \<open>Spinlock\<close> models the locks in detail, with the interrupt
  nesting and several CPUs, and shows that this view is the one each CPU has.\<close>

record kbase =
  held :: "lock set"

definition acquire :: "lock \<Rightarrow> ('z kbase_scheme, unit) km" where
  "acquire l = bind (gets held) (\<lambda>h. thn (panic_if (l \<in> h) ''acquire'')
     (modify (\<lambda>s. s\<lparr>held := insert l (held s)\<rparr>)))"

definition release :: "lock \<Rightarrow> ('z kbase_scheme, unit) km" where
  "release l = bind (gets held) (\<lambda>h. thn (panic_if (l \<notin> h) ''release'')
     (modify (\<lambda>s. s\<lparr>held := held s - {l}\<rparr>)))"

lemma acquire_run [run_simps]:
  "acquire l s = (if l \<in> held s then Panic ''acquire'' else Ok () (s\<lparr>held := insert l (held s)\<rparr>))"
  by (simp add: acquire_def run_simps)

lemma release_run [run_simps]:
  "release l s = (if l \<in> held s then Ok () (s\<lparr>held := held s - {l}\<rparr>) else Panic ''release'')"
  by (simp add: release_def run_simps)

lemma wp_acquire [simp]:
  "wp (acquire l) Q s = (l \<notin> held s \<and> Q () (s\<lparr>held := insert l (held s)\<rparr>))"
  by (simp add: wp_def run_simps)

lemma wp_release [simp]:
  "wp (release l) Q s = (l \<in> held s \<and> Q () (s\<lparr>held := held s - {l}\<rparr>))"
  by (simp add: wp_def run_simps)

end
