(* ===== verification/Spinlock.thy ===== *)
theory Spinlock
  imports Kmonad
begin

text \<open>
  \<^verbatim>\<open>kernel/spinlock.c\<close> on several harts.  The state has the words of every lock and the fields of \<^verbatim>\<open>struct cpu\<close> that
  \<open>push_off\<close> and \<open>pop_off\<close> use.  A hart runs \<open>acquire\<close> and \<open>release\<close> in the steps between which another hart can
  act: the steps of all harts interleave in any order.  \<open>mine\<close> is the list of locks a hart has won by its swap and
  not yet given back.
\<close>

subsection \<open>The code\<close>

datatype pc = Idle | AcqSpin lock | AcqGot lock | RelCleared lock | RelPop | Panicked string

record spin =
  locked :: "lock \<Rightarrow> bool"
  lcpu :: "lock \<Rightarrow> nat option"
  noff :: "nat \<Rightarrow> int"
  intena :: "nat \<Rightarrow> bool"
  sie :: "nat \<Rightarrow> bool"
  pc :: "nat \<Rightarrow> pc"
  mine :: "nat \<Rightarrow> lock list"

definition holding :: "nat \<Rightarrow> lock \<Rightarrow> spin \<Rightarrow> bool" where
  "holding h lk s \<longleftrightarrow> locked s lk \<and> lcpu s lk = Some h"

definition push_off :: "nat \<Rightarrow> spin \<Rightarrow> spin" where
  "push_off h s =
     (let old = sie s h; s1 = s\<lparr>sie := (sie s)(h := False)\<rparr>;
          s2 = (if noff s1 h = 0 then s1\<lparr>intena := (intena s1)(h := old)\<rparr> else s1)
      in s2\<lparr>noff := (noff s2)(h := noff s2 h + 1)\<rparr>)"

definition pop_off :: "nat \<Rightarrow> spin \<Rightarrow> string + spin" where
  "pop_off h s =
     (if sie s h then Inl ''pop_off - interruptible''
      else if noff s h < 1 then Inl ''pop_off''
      else let s1 = s\<lparr>noff := (noff s)(h := noff s h - 1)\<rparr>
        in Inr (if noff s1 h = 0 \<and> intena s1 h then s1\<lparr>sie := (sie s1)(h := True)\<rparr> else s1))"

definition goto :: "nat \<Rightarrow> pc \<Rightarrow> spin \<Rightarrow> spin" where
  "goto h l s = s\<lparr>pc := (pc s)(h := l)\<rparr>"

text \<open>\<open>acquire\<close> up to the loop, the swap, and the note of the holder.\<close>

definition acquire_enter :: "nat \<Rightarrow> lock \<Rightarrow> spin \<Rightarrow> spin" where
  "acquire_enter h lk s =
     (let s1 = push_off h s in
      if holding h lk s1 then goto h (Panicked ''acquire'') s1 else goto h (AcqSpin lk) s1)"

definition acquire_swap :: "nat \<Rightarrow> lock \<Rightarrow> spin \<Rightarrow> spin" where
  "acquire_swap h lk s =
     (let old = locked s lk; s1 = s\<lparr>locked := (locked s)(lk := True)\<rparr> in
      if old then s1 else goto h (AcqGot lk) (s1\<lparr>mine := (mine s1)(h := lk # mine s1 h)\<rparr>))"

definition acquire_end :: "nat \<Rightarrow> lock \<Rightarrow> spin \<Rightarrow> spin" where
  "acquire_end h lk s = goto h Idle (s\<lparr>lcpu := (lcpu s)(lk := Some h)\<rparr>)"

text \<open>\<open>release\<close> up to the fence, the atomic store, and \<open>pop_off\<close>.\<close>

definition release_enter :: "nat \<Rightarrow> lock \<Rightarrow> spin \<Rightarrow> spin" where
  "release_enter h lk s =
     (if \<not> holding h lk s then goto h (Panicked ''release'') s
      else goto h (RelCleared lk) (s\<lparr>lcpu := (lcpu s)(lk := None)\<rparr>))"

definition release_store :: "nat \<Rightarrow> lock \<Rightarrow> spin \<Rightarrow> spin" where
  "release_store h lk s = goto h RelPop (s\<lparr>locked := (locked s)(lk := False), mine := (mine s)(h := remove1 lk (mine s h))\<rparr>)"

definition release_pop :: "nat \<Rightarrow> spin \<Rightarrow> spin" where
  "release_pop h s = (case pop_off h s of Inl e \<Rightarrow> goto h (Panicked e) s | Inr s1 \<Rightarrow> goto h Idle s1)"

text \<open>One step of one hart.  With no lock held, code outside the locks may also switch interrupts on or off.\<close>

inductive step :: "spin \<Rightarrow> spin \<Rightarrow> bool" where
  enter: "pc s h = Idle \<Longrightarrow> step s (acquire_enter h lk s)"
| swap: "pc s h = AcqSpin lk \<Longrightarrow> step s (acquire_swap h lk s)"
| got: "pc s h = AcqGot lk \<Longrightarrow> step s (acquire_end h lk s)"
| leave: "pc s h = Idle \<Longrightarrow> step s (release_enter h lk s)"
| store: "pc s h = RelCleared lk \<Longrightarrow> step s (release_store h lk s)"
| pop: "pc s h = RelPop \<Longrightarrow> step s (release_pop h s)"
| intr: "pc s h = Idle \<Longrightarrow> noff s h = 0 \<Longrightarrow> step s (s\<lparr>sie := (sie s)(h := b)\<rparr>)"

definition start :: spin where
  "start = \<lparr>locked = (\<lambda>_. False), lcpu = (\<lambda>_. None), noff = (\<lambda>_. 0), intena = (\<lambda>_. False), sie = (\<lambda>_. False),
     pc = (\<lambda>_. Idle), mine = (\<lambda>_. [])\<rparr>"

inductive reach :: "spin \<Rightarrow> bool" where
  reach_start: "reach start"
| reach_step: "reach s \<Longrightarrow> step s t \<Longrightarrow> reach t"

subsection \<open>The invariant\<close>

definition extra :: "pc \<Rightarrow> int" where
  "extra l = (case l of AcqSpin _ \<Rightarrow> 1 | RelPop \<Rightarrow> 1 | Panicked e \<Rightarrow> (if e = ''acquire'' then 1 else 0) | _ \<Rightarrow> 0)"

text \<open>What a hart knows of itself: the depth of \<open>push_off\<close> is the number of its locks, interrupts are off while it
  is not zero, and no step but a wrong \<open>acquire\<close> or \<open>release\<close> has panicked.\<close>

definition hart_ok :: "int \<Rightarrow> bool \<Rightarrow> pc \<Rightarrow> lock list \<Rightarrow> bool" where
  "hart_ok n i l ms \<longleftrightarrow> distinct ms \<and> n = int (length ms) + extra l \<and> (n > 0 \<longrightarrow> \<not> i) \<and>
     (case l of AcqSpin lk \<Rightarrow> lk \<notin> set ms | AcqGot lk \<Rightarrow> lk \<in> set ms | RelCleared lk \<Rightarrow> lk \<in> set ms
      | Panicked e \<Rightarrow> e \<in> {''acquire'', ''release''} | _ \<Rightarrow> True)"

definition harts_ok :: "spin \<Rightarrow> bool" where
  "harts_ok s \<longleftrightarrow> (\<forall>h. hart_ok (noff s h) (sie s h) (pc s h) (mine s h))"

text \<open>What the words of the locks say: a lock is taken by at most one hart, its word is set exactly when it is
  taken, and its \<open>cpu\<close> field names the hart that has it, except while that hart is about to write it or has just
  cleared it.\<close>

definition locks_ok :: "spin \<Rightarrow> bool" where
  "locks_ok s \<longleftrightarrow>
     (\<forall>h h' lk. lk \<in> set (mine s h) \<longrightarrow> lk \<in> set (mine s h') \<longrightarrow> h = h') \<and>
     (\<forall>lk. locked s lk \<longleftrightarrow> (\<exists>h. lk \<in> set (mine s h))) \<and>
     (\<forall>h lk. lcpu s lk = Some h \<longleftrightarrow> lk \<in> set (mine s h) \<and> pc s h \<noteq> AcqGot lk \<and> pc s h \<noteq> RelCleared lk)"

lemmas spin_simps = push_off_def goto_def Let_def extra_def hart_ok_def

lemma hart_at: "harts_ok s \<Longrightarrow> hart_ok (noff s h) (sie s h) (pc s h) (mine s h)"
  by (simp add: harts_ok_def)

text \<open>A step of a hart leaves the others as they are.\<close>

lemma harts_okI:
  assumes "harts_ok s" "\<And>h'. h' \<noteq> h \<Longrightarrow> noff t h' = noff s h' \<and> sie t h' = sie s h' \<and> pc t h' = pc s h' \<and> mine t h' = mine s h'"
    "hart_ok (noff t h) (sie t h) (pc t h) (mine t h)"
  shows "harts_ok t"
  unfolding harts_ok_def
proof
  fix h'
  show "hart_ok (noff t h') (sie t h') (pc t h') (mine t h')"
    using assms(2) [of h'] assms(3) hart_at [OF assms(1), of h'] by (cases "h' = h") auto
qed

lemma held_mine: "locks_ok s \<Longrightarrow> pc s h = Idle \<Longrightarrow> holding h lk s \<longleftrightarrow> lk \<in> set (mine s h)"
  by (auto simp: locks_ok_def holding_def)

lemma push_off_keeps [simp]:
  "locked (push_off h s) = locked s" "lcpu (push_off h s) = lcpu s" "mine (push_off h s) = mine s" "pc (push_off h s) = pc s"
  "sie (push_off h s) = (sie s)(h := False)" "noff (push_off h s) = (noff s)(h := noff s h + 1)"
  "holding h lk (push_off h s) = holding h lk s"
  by (simp_all add: push_off_def Let_def holding_def)

lemma inv_enter:
  assumes "locks_ok s" "harts_ok s" "pc s h = Idle"
  shows "locks_ok (acquire_enter h lk s) \<and> harts_ok (acquire_enter h lk s)"
proof
  show "locks_ok (acquire_enter h lk s)"
    using assms(1,3) by (auto simp: locks_ok_def acquire_enter_def Let_def goto_def split: if_splits)
  show "harts_ok (acquire_enter h lk s)"
    using hart_at [OF assms(2), of h] assms(3) held_mine [OF assms(1,3), of lk]
    by (intro harts_okI [OF assms(2), of h]) (auto simp: acquire_enter_def Let_def goto_def hart_ok_def extra_def)
qed

lemma inv_swap:
  assumes "locks_ok s" "harts_ok s" "pc s h = AcqSpin lk"
  shows "locks_ok (acquire_swap h lk s) \<and> harts_ok (acquire_swap h lk s)"
proof (cases "locked s lk")
  case True
  then have "(locked s)(lk := True) = locked s" by (simp add: fun_eq_iff)
  then have "acquire_swap h lk s = s" using True by (simp add: acquire_swap_def)
  then show ?thesis using assms by simp
next
  case False
  then have n: "lk \<notin> set (mine s h')" for h' using assms(1) by (auto simp: locks_ok_def)
  have "locks_ok (acquire_swap h lk s)"
    using assms(1,3) False n by (auto simp: locks_ok_def acquire_swap_def Let_def goto_def) metis
  moreover have "harts_ok (acquire_swap h lk s)"
    using hart_at [OF assms(2), of h] assms(3) False
    by (intro harts_okI [OF assms(2), of h]) (auto simp: acquire_swap_def Let_def goto_def hart_ok_def extra_def)
  ultimately show ?thesis ..
qed

lemma inv_got:
  assumes "locks_ok s" "harts_ok s" "pc s h = AcqGot lk"
  shows "locks_ok (acquire_end h lk s) \<and> harts_ok (acquire_end h lk s)"
proof
  have m: "lk \<in> set (mine s h)" using hart_at [OF assms(2), of h] assms(3) by (simp add: hart_ok_def)
  then show "locks_ok (acquire_end h lk s)"
    using assms(1,3) by (auto simp: locks_ok_def acquire_end_def goto_def)
  show "harts_ok (acquire_end h lk s)"
    using hart_at [OF assms(2), of h] assms(3)
    by (intro harts_okI [OF assms(2), of h]) (auto simp: acquire_end_def goto_def hart_ok_def extra_def)
qed

lemma inv_leave:
  assumes "locks_ok s" "harts_ok s" "pc s h = Idle"
  shows "locks_ok (release_enter h lk s) \<and> harts_ok (release_enter h lk s)"
proof
  note hm = held_mine [OF assms(1,3), of lk]
  show "locks_ok (release_enter h lk s)"
    using assms(1,3) hm by (auto simp: locks_ok_def release_enter_def goto_def)
  show "harts_ok (release_enter h lk s)"
    using hart_at [OF assms(2), of h] assms(3) hm
    by (intro harts_okI [OF assms(2), of h]) (auto simp: release_enter_def goto_def hart_ok_def extra_def)
qed

lemma inv_store:
  assumes "locks_ok s" "harts_ok s" "pc s h = RelCleared lk"
  shows "locks_ok (release_store h lk s) \<and> harts_ok (release_store h lk s)"
proof
  have m: "lk \<in> set (mine s h)" and d: "distinct (mine s h)"
    using hart_at [OF assms(2), of h] assms(3) by (auto simp: hart_ok_def)
  then have r: "set (remove1 lk (mine s h)) = set (mine s h) - {lk}" by simp
  have o: "h' = h" if "lk \<in> set (mine s h')" for h' using that m assms(1) by (auto simp: locks_ok_def)
  let ?t = "release_store h lk s"
  have f: "locked ?t = (locked s)(lk := False)" "lcpu ?t = lcpu s" "pc ?t = (pc s)(h := RelPop)"
    "\<And>x. set (mine ?t x) = set (mine s x) - {lk}"
    using r o by (auto simp: release_store_def goto_def)
  have "(\<exists>x. lk' \<in> set (mine ?t x)) \<longleftrightarrow> lk' \<noteq> lk \<and> locked s lk'" for lk'
    unfolding f using assms(1) by (auto simp: locks_ok_def)
  moreover have "lcpu s lk' = Some a \<longleftrightarrow> lk' \<in> set (mine ?t a) \<and> pc ?t a \<noteq> AcqGot lk' \<and> pc ?t a \<noteq> RelCleared lk'" for lk' a
  proof (cases "a = h")
    case True
    then show ?thesis unfolding f using assms(1,3) by (auto simp: locks_ok_def)
  next
    case False
    then have "lk \<notin> set (mine s a)" using o by blast
    then show ?thesis unfolding f using assms(1) False by (auto simp: locks_ok_def)
  qed
  moreover have "x = y" if "lk' \<in> set (mine ?t x)" "lk' \<in> set (mine ?t y)" for x y lk'
    using that assms(1) unfolding f locks_ok_def by blast
  ultimately show "locks_ok ?t" unfolding locks_ok_def f(1,2) by simp
  show "harts_ok (release_store h lk s)"
    using hart_at [OF assms(2), of h] assms(3) m
    by (intro harts_okI [OF assms(2), of h])
      (auto simp: release_store_def goto_def hart_ok_def extra_def length_remove1 distinct_remove1 Suc_leI dest: length_pos_if_in_set)
qed

lemma pop_ok:
  assumes "hart_ok (noff s h) (sie s h) RelPop (mine s h)"
  shows "\<exists>t. pop_off h s = Inr t \<and> locked t = locked s \<and> lcpu t = lcpu s \<and> mine t = mine s \<and> pc t = pc s \<and>
    noff t = (noff s)(h := noff s h - 1) \<and> (\<forall>h'. sie t h' = (if h' = h \<and> noff s h = 1 \<and> intena s h then True else sie s h'))"
  using assms by (auto simp: pop_off_def Let_def hart_ok_def extra_def)

lemma inv_pop:
  assumes "locks_ok s" "harts_ok s" "pc s h = RelPop"
  shows "locks_ok (release_pop h s) \<and> harts_ok (release_pop h s)"
proof
  obtain t where t: "pop_off h s = Inr t" "locked t = locked s" "lcpu t = lcpu s" "mine t = mine s" "pc t = pc s"
      "noff t = (noff s)(h := noff s h - 1)" "\<And>h'. sie t h' = (if h' = h \<and> noff s h = 1 \<and> intena s h then True else sie s h')"
    using pop_ok [of s h] hart_at [OF assms(2), of h] assms(3) by auto
  show "locks_ok (release_pop h s)"
    using assms(1,3) t by (auto simp: locks_ok_def release_pop_def goto_def)
  show "harts_ok (release_pop h s)"
    using hart_at [OF assms(2), of h] assms(3) t
    by (intro harts_okI [OF assms(2), of h]) (auto simp: release_pop_def goto_def hart_ok_def extra_def)
qed

lemma reach_inv: "reach s \<Longrightarrow> locks_ok s \<and> harts_ok s"
proof (induction rule: reach.induct)
  case reach_start
  show ?case by (simp add: start_def locks_ok_def harts_ok_def hart_ok_def extra_def)
next
  case (reach_step s t)
  from reach_step.hyps(2) reach_step.IH show ?case
  proof cases
    case (intr h b)
    have "harts_ok t" using hart_at [of s h] reach_step.IH intr
      by (intro harts_okI [of s h t]) (auto simp: hart_ok_def)
    then show ?thesis using reach_step.IH intr by (simp add: locks_ok_def)
  qed (simp_all add: inv_enter inv_swap inv_got inv_leave inv_store inv_pop)
qed

subsection \<open>Mutual exclusion and the nesting of interrupts\<close>

text \<open>C11: in every interleaving of any number of harts, no two harts hold the same spin lock, a hart that holds one runs
  with interrupts off, and \<open>holding\<close> tells a hart between calls exactly whether it holds the lock.\<close>

theorem spin_exclusion:
  assumes "reach s"
  shows "(lk \<in> set (mine s h) \<and> lk \<in> set (mine s h') \<longrightarrow> h = h') \<and>
    (mine s h \<noteq> [] \<longrightarrow> \<not> sie s h) \<and>
    (pc s h = Idle \<longrightarrow> holding h lk s = (lk \<in> set (mine s h)))"
proof -
  have i: "locks_ok s" "harts_ok s" using reach_inv [OF assms] by auto
  have "mine s h \<noteq> [] \<Longrightarrow> noff s h > 0"
    using hart_at [OF i(2), of h] by (auto simp: hart_ok_def extra_def split: pc.splits)
  then show ?thesis using i(1) hart_at [OF i(2), of h] held_mine [OF i(1)] by (auto simp: locks_ok_def hart_ok_def)
qed

text \<open>C13: the only panics of the lock code are taking a lock the hart holds already and releasing one it does not
  hold: \<open>pop_off\<close> never panics, and its depth is the number of locks held.\<close>

theorem spin_panics:
  assumes "reach s" "pc s h = Idle"
  shows "noff s h = int (length (mine s h)) \<and>
    (pc (acquire_enter h lk s) h = Panicked ''acquire'') = (lk \<in> set (mine s h)) \<and>
    (pc (release_enter h lk s) h = Panicked ''release'') = (lk \<notin> set (mine s h)) \<and>
    pc s h' \<noteq> Panicked ''pop_off'' \<and> pc s h' \<noteq> Panicked ''pop_off - interruptible''"
proof -
  have i: "locks_ok s" "harts_ok s" using reach_inv [OF assms(1)] by auto
  have "pc s h' \<noteq> Panicked ''pop_off''" "pc s h' \<noteq> Panicked ''pop_off - interruptible''"
    using hart_at [OF i(2), of h'] by (auto simp: hart_ok_def)
  moreover have "noff s h = int (length (mine s h))"
    using hart_at [OF i(2), of h] assms(2) by (simp add: hart_ok_def extra_def)
  ultimately show ?thesis using held_mine [OF i(1) assms(2), of lk]
    by (simp add: acquire_enter_def release_enter_def Let_def goto_def)
qed

primrec pops :: "nat \<Rightarrow> nat \<Rightarrow> spin \<Rightarrow> string + spin" where
  "pops 0 h s = Inr s"
| "pops (Suc n) h s = (case pop_off h s of Inl e \<Rightarrow> Inl e | Inr t \<Rightarrow> pops n h t)"

lemma pop_push:
  assumes "noff s h \<ge> 0" "noff s h > 0 \<Longrightarrow> \<not> sie s h"
  shows "pop_off h (push_off h s) = Inr (if noff s h = 0 then s\<lparr>intena := (intena s)(h := sie s h)\<rparr> else s)"
proof -
  have "(sie s)(h := False) = sie s" if "\<not> sie s h" using that by (simp add: fun_eq_iff)
  moreover have "(sie s)(h := True) = sie s" if "sie s h" using that by (simp add: fun_eq_iff)
  ultimately show ?thesis using assms by (auto simp: pop_off_def push_off_def Let_def)
qed

lemma pushes: "noff ((push_off h ^^ n) s) h = noff s h + int n" "0 < n \<Longrightarrow> \<not> sie ((push_off h ^^ n) s) h"
  by (induction n) simp_all

lemma pop_pushes:
  assumes "noff s h = 0" "0 < k"
  shows "pop_off h ((push_off h ^^ Suc k) s) = Inr ((push_off h ^^ k) s)"
proof -
  let ?t = "(push_off h ^^ k) s"
  have "noff ?t h = int k" "\<not> sie ?t h" using pushes [where h = h and n = k and s = s] assms by simp_all
  then show ?thesis using assms(2) pop_push [of ?t h] by simp
qed

lemma pops_pushes:
  assumes "noff s h = 0" "m \<le> n"
  shows "pops m h ((push_off h ^^ Suc n) s) = Inr ((push_off h ^^ (Suc n - m)) s)"
  using assms(2)
proof (induction m arbitrary: n)
  case (Suc m)
  then obtain k where n: "n = Suc k" "m \<le> k" by (cases n) auto
  show ?case using Suc.IH [OF n(2)] pop_pushes [OF assms(1), of n] n by (simp del: funpow.simps)
qed simp

lemma pops_last: "pops (Suc n) h s = (case pops n h s of Inl e \<Rightarrow> Inl e | Inr t \<Rightarrow> pop_off h t)"
proof (induction n arbitrary: s)
  case 0
  show ?case by (cases "pop_off h s") simp_all
next
  case (Suc n)
  show ?case
  proof (cases "pop_off h s")
    case (Inr t)
    then show ?thesis using Suc.IH [of t] by (simp del: pops.simps add: pops.simps(2) [of "Suc n"] pops.simps(2) [of n h s])
  qed simp
qed

text \<open>C35: \<open>push_off\<close> and \<open>pop_off\<close> nest.  For a number of calls that the \<open>int\<close> field \<open>noff\<close> can count, the depth stays in the range of an \<open>int\<close> and interrupts are off
  after every call; each call of \<open>pop_off\<close> takes back the last call of \<open>push_off\<close>, and the last one turns interrupts on again exactly if they were on before.\<close>

theorem push_pop_nest:
  assumes "noff s h = 0" "int (Suc n) < 2 ^ 31"
  shows "(\<forall>m\<le>Suc n. noff ((push_off h ^^ m) s) h = int m \<and> int m < 2 ^ 31 \<and> (0 < m \<longrightarrow> \<not> sie ((push_off h ^^ m) s) h)) \<and>
    (\<forall>m\<le>n. pops m h ((push_off h ^^ Suc n) s) = Inr ((push_off h ^^ (Suc n - m)) s)) \<and>
    pops (Suc n) h ((push_off h ^^ Suc n) s) = Inr (s\<lparr>intena := (intena s)(h := sie s h)\<rparr>)"
proof -
  have "pops n h ((push_off h ^^ Suc n) s) = Inr (push_off h s)" using pops_pushes [OF assms(1), of n n] by simp
  then have "pops (Suc n) h ((push_off h ^^ Suc n) s) = Inr (s\<lparr>intena := (intena s)(h := sie s h)\<rparr>)"
    unfolding pops_last [of n] using pop_push [of s h] assms(1) by simp
  then show ?thesis using pops_pushes [OF assms(1)] pushes [where h = h and s = s] assms by auto
qed

subsection \<open>Examples\<close>

definition x_two :: spin where
  "x_two = acquire_end 0 KmemLock (acquire_swap 0 KmemLock (acquire_enter 0 KmemLock (acquire_swap 1 PidLock (acquire_enter 1 PidLock start))))"

lemma x_two_reach: "reach x_two"
proof -
  let ?a = "acquire_enter 1 PidLock start"
  let ?b = "acquire_swap 1 PidLock ?a"
  let ?c = "acquire_enter 0 KmemLock ?b"
  let ?d = "acquire_swap 0 KmemLock ?c"
  have a: "reach ?a" by (rule reach_step [OF reach_start], rule enter) (simp add: start_def)
  have b: "reach ?b" by (rule reach_step [OF a], rule swap) (simp add: start_def spin_simps acquire_enter_def holding_def)
  have c: "reach ?c" by (rule reach_step [OF b], rule enter)
      (simp add: start_def spin_simps acquire_enter_def acquire_swap_def holding_def)
  have d: "reach ?d" by (rule reach_step [OF c], rule swap)
      (simp add: start_def spin_simps acquire_enter_def acquire_swap_def holding_def)
  show ?thesis unfolding x_two_def by (rule reach_step [OF d], rule got)
      (simp add: start_def spin_simps acquire_enter_def acquire_swap_def holding_def)
qed

lemmas x_two_simps = x_two_def start_def spin_simps acquire_enter_def acquire_swap_def acquire_end_def holding_def

theorem spin_exclusion_witness:
  "reach x_two \<and> mine x_two 0 = [KmemLock] \<and> mine x_two 1 = [PidLock] \<and> \<not> sie x_two 0 \<and> holding 0 KmemLock x_two"
  using spin_exclusion [OF x_two_reach, of KmemLock 0 1] x_two_reach by (simp add: x_two_simps)

theorem spin_panics_witness:
  "reach x_two \<and> pc x_two 0 = Idle \<and> noff x_two 0 = 1 \<and> pc (acquire_enter 0 KmemLock x_two) 0 = Panicked ''acquire'' \<and>
   pc (release_enter 0 PidLock x_two) 0 = Panicked ''release''"
  using spin_panics [OF x_two_reach, of 0 KmemLock 0] spin_panics [OF x_two_reach, of 0 PidLock 0] x_two_reach
  by (simp add: x_two_simps)

theorem push_pop_nest_witness:
  "noff start 0 = 0 \<and> noff ((push_off 0 ^^ 2) start) 0 = 2 \<and> pops 1 0 ((push_off 0 ^^ Suc 1) start) = Inr ((push_off 0 ^^ 1) start) \<and>
   pops (Suc 1) 0 ((push_off 0 ^^ Suc 1) start) = Inr (start\<lparr>intena := (intena start)(0 := sie start 0)\<rparr>)"
proof -
  have s: "noff start 0 = 0" by (simp add: start_def)
  have "int (Suc 1) < 2 ^ 31" by simp
  from push_pop_nest [OF s this] have
    "noff ((push_off 0 ^^ Suc 1) start) 0 = int (Suc 1)" "pops 1 0 ((push_off 0 ^^ Suc 1) start) = Inr ((push_off 0 ^^ (Suc 1 - 1)) start)"
    "pops (Suc 1) 0 ((push_off 0 ^^ Suc 1) start) = Inr (start\<lparr>intena := (intena start)(0 := sie start 0)\<rparr>)" by blast+
  then show ?thesis using s by (simp add: numeral_2_eq_2)
qed

end
