(* ===== verification/Str.thy ===== *)
theory Str
  imports Prelude
begin

text \<open>
  \<^verbatim>\<open>kernel/string.c\<close>: the byte and string routines, as loops over byte-addressed memory, so that
  overlapping arguments behave as in C.  A loop counter is a natural number: the state after
  \<open>n + 1\<close> rounds is the state after \<open>n\<close> rounds and one more store.  The lemmas relate each loop to
  what it means for whole byte sequences; \<open>memmove\<close> in particular is correct for overlapping
  source and destination.
\<close>

subsection \<open>Operations\<close>

primrec memset_loop :: "memory \<Rightarrow> addr \<Rightarrow> uchar \<Rightarrow> nat \<Rightarrow> memory" where
  "memset_loop m dst c 0 = m"
| "memset_loop m dst c (Suc i) = (memset_loop m dst c i)(dst + of_nat i := c)"

definition memset :: "memory \<Rightarrow> addr \<Rightarrow> uint \<Rightarrow> uint \<Rightarrow> memory" where
  "memset m dst c n = memset_loop m dst (ucast c) (unat n)"

fun memcmp_loop :: "memory \<Rightarrow> addr \<Rightarrow> addr \<Rightarrow> nat \<Rightarrow> int" where
  "memcmp_loop m s1 s2 0 = 0"
| "memcmp_loop m s1 s2 (Suc n) =
     (if m s1 \<noteq> m s2 then uint (m s1) - uint (m s2) else memcmp_loop m (s1 + 1) (s2 + 1) n)"

definition memcmp :: "memory \<Rightarrow> addr \<Rightarrow> addr \<Rightarrow> uint \<Rightarrow> int" where
  "memcmp m v1 v2 n = memcmp_loop m v1 v2 (unat n)"

primrec move_down :: "nat \<Rightarrow> memory \<Rightarrow> addr \<Rightarrow> addr \<Rightarrow> memory" where
  "move_down 0 m d s = m"
| "move_down (Suc n) m d s = move_down n (m(d - 1 := m (s - 1))) (d - 1) (s - 1)"

primrec move_up :: "nat \<Rightarrow> memory \<Rightarrow> addr \<Rightarrow> addr \<Rightarrow> memory" where
  "move_up 0 m d s = m"
| "move_up (Suc n) m d s = move_up n (m(d := m s)) (d + 1) (s + 1)"

definition memmove :: "memory \<Rightarrow> addr \<Rightarrow> addr \<Rightarrow> uint \<Rightarrow> memory" where
  "memmove m dst src n =
     (if n = 0 then m
      else if src < dst \<and> src + ucast n > dst
      then move_down (unat n) m (dst + ucast n) (src + ucast n)
      else move_up (unat n) m dst src)"

fun strncmp_loop :: "memory \<Rightarrow> addr \<Rightarrow> addr \<Rightarrow> nat \<Rightarrow> int" where
  "strncmp_loop m p q 0 = 0"
| "strncmp_loop m p q (Suc n) =
     (if m p \<noteq> 0 \<and> m p = m q then strncmp_loop m (p + 1) (q + 1) n else uint (m p) - uint (m q))"

definition strncmp :: "memory \<Rightarrow> addr \<Rightarrow> addr \<Rightarrow> uint \<Rightarrow> int" where
  "strncmp m p q n = strncmp_loop m p q (unat n)"

primrec pad_loop :: "nat \<Rightarrow> memory \<Rightarrow> addr \<Rightarrow> memory" where
  "pad_loop 0 m s = m"
| "pad_loop (Suc n) m s = pad_loop n (m(s := 0)) (s + 1)"

primrec strncpy_loop :: "nat \<Rightarrow> memory \<Rightarrow> addr \<Rightarrow> addr \<Rightarrow> memory" where
  "strncpy_loop 0 m s t = m"
| "strncpy_loop (Suc n) m s t =
     (let m' = m(s := m t)
      in if m t \<noteq> 0 then strncpy_loop n m' (s + 1) (t + 1) else pad_loop n m' (s + 1))"

definition strncpy :: "memory \<Rightarrow> addr \<Rightarrow> addr \<Rightarrow> int \<Rightarrow> memory" where
  "strncpy m s t n = strncpy_loop (nat n) m s t"

fun safestrcpy_loop :: "nat \<Rightarrow> memory \<Rightarrow> addr \<Rightarrow> addr \<Rightarrow> memory" where
  "safestrcpy_loop 0 m s t = m(s := 0)"
| "safestrcpy_loop (Suc n) m s t =
     (let m' = m(s := m t)
      in if m t \<noteq> 0 then safestrcpy_loop n m' (s + 1) (t + 1) else m'(s + 1 := 0))"

definition safestrcpy :: "memory \<Rightarrow> addr \<Rightarrow> addr \<Rightarrow> int \<Rightarrow> memory" where
  "safestrcpy m s t n = (if n \<le> 0 then m else safestrcpy_loop (nat n - 1) m s t)"

partial_function (option) strlen_loop :: "memory \<Rightarrow> addr \<Rightarrow> nat \<Rightarrow> nat option" where
  "strlen_loop m s n = (if m (s + of_nat n) = 0 then Some n else strlen_loop m s (Suc n))"

definition strlen :: "memory \<Rightarrow> addr \<Rightarrow> nat option" where
  "strlen m s = strlen_loop m s 0"

lemma uint_diff_0: "uint a = uint b \<longleftrightarrow> a = b"
  by (metis word_uint_eq_iff)

subsection \<open>Filling and comparing\<close>

lemma memset_loop_eq: "n \<le> 2 ^ 64 \<Longrightarrow> memset_loop m dst c n = mfill m dst c n"
proof (induction n)
  case 0
  then show ?case by (simp add: mfill_def)
next
  case (Suc n)
  then show ?case
    using offset_eq [of n _ dst] by (auto simp: mfill_def fun_eq_iff less_Suc_eq)
qed

lemma memset_eq: "memset m dst c n = mfill m dst (ucast c) (unat n)"
proof -
  have "unat n < 2 ^ 32" using unsigned_less [of n] by simp
  then show ?thesis by (simp add: memset_def memset_loop_eq)
qed

lemma memcmp_loop_0_iff: "memcmp_loop m p q n = 0 \<longleftrightarrow> mload m p n = mload m q n"
  by (induction n arbitrary: p q) (auto simp: mload_Suc word_uint_eq_iff)

subsection \<open>Moving\<close>

lemma move_up_eq:
  assumes "n \<le> 2 ^ 64" "\<And>i j. i < j \<Longrightarrow> j < n \<Longrightarrow> d + of_nat i \<noteq> s + of_nat j"
  shows "move_up n m d s = mstore m d (mload m s n)"
  using assms
proof (induction n arbitrary: m d s)
  case (Suc n)
  have "d + 1 + of_nat i \<noteq> s + 1 + of_nat j" if "i < j" "j < n" for i j
    using Suc.prems(2) [of "Suc i" "Suc j"] that by (simp add: algebra_simps)
  moreover have "d \<noteq> s + 1 + of_nat j" if "j < n" for j
    using Suc.prems(2) [of 0 "Suc j"] that by (simp add: algebra_simps)
  ultimately have "move_up n (m(d := m s)) (d + 1) (s + 1)
      = mstore (m(d := m s)) (d + 1) (mload m (s + 1) n)"
    using Suc.prems(1) by (subst Suc.IH) (auto simp: mload_upd)
  then show ?case
    using Suc.prems(1) by (simp add: mload_Suc mstore_Cons)
qed simp

lemma move_down_eq:
  assumes "n \<le> 2 ^ 64" "\<And>i j. i < j \<Longrightarrow> j < n \<Longrightarrow> d + of_nat j \<noteq> s + of_nat i"
  shows "move_down n m (d + of_nat n) (s + of_nat n) = mstore m d (mload m s n)"
  using assms
proof (induction n arbitrary: m)
  case (Suc n)
  have step: "d + of_nat (Suc n) - 1 = d + of_nat n" "s + of_nat (Suc n) - 1 = s + of_nat n"
    by (simp_all add: algebra_simps)
  have up: "mload (m(d + of_nat n := c)) s n = mload m s n" for c
    using Suc.prems(2) by (intro mload_upd) simp
  have "move_down n (m(d + of_nat n := c)) (d + of_nat n) (s + of_nat n)
      = mstore (m(d + of_nat n := c)) d (mload m s n)" for c
    using Suc.prems by (subst Suc.IH) (auto simp: up)
  then show ?case
    using Suc.prems(1) by (simp only: move_down.simps step mload_snoc) (simp add: mstore_snoc)
qed simp

lemma unat_in_range: "unat a + n \<le> 2 ^ 64 \<Longrightarrow> i < n \<Longrightarrow> unat (a + of_nat i :: addr) = unat a + i"
  by (simp add: unat_word_ariths unat_of_nat)

lemma memmove_eq:
  assumes src: "unat src + unat n < 2 ^ 64" and dst: "unat dst + unat n < 2 ^ 64"
  shows "memmove m dst src n = mstore m dst (mload m src (unat n))"
proof (cases "src < dst \<and> src + ucast n > dst")
  case True
  have n: "ucast n = (of_nat (unat n) :: addr)" by simp
  have "dst + of_nat j \<noteq> src + of_nat i" if "i < j" "j < unat n" for i j
  proof
    assume "dst + of_nat j = src + of_nat i"
    then have "unat dst + j = unat src + i"
      using unat_in_range [of dst "unat n" j] unat_in_range [of src "unat n" i] src dst that by simp
    moreover have "unat src < unat dst" using True by (simp add: word_less_nat_alt)
    ultimately show False using that by simp
  qed
  then have "move_down (unat n) m (dst + ucast n) (src + ucast n) = mstore m dst (mload m src (unat n))"
    using src move_down_eq [of "unat n" dst src m] unfolding n by simp
  moreover have "n \<noteq> 0" using True by auto
  ultimately show ?thesis using True by (simp only: memmove_def if_False if_True conj_absorb)
next
  case False
  have "dst + of_nat i \<noteq> src + of_nat j" if "i < j" "j < unat n" for i j
  proof
    assume "dst + of_nat i = src + of_nat j"
    then have e: "unat dst + i = unat src + j"
      using unat_in_range [of dst "unat n" i] unat_in_range [of src "unat n" j] src dst that by simp
    have "unat (src + ucast n) = unat src + unat n"
      using src using unsigned_less [of n] by (simp add: unat_word_ariths unsigned_ucast_eq take_bit_nat_eq_self)
    then show False using False e that by (auto simp: word_less_nat_alt)
  qed
  then have "move_up (unat n) m dst src = mstore m dst (mload m src (unat n))"
    using src by (intro move_up_eq) auto
  moreover have "memmove m dst src n = (if n = 0 then m else move_up (unat n) m dst src)"
    using False by (simp only: memmove_def if_False)
  ultimately show ?thesis by (cases "n = 0") simp_all
qed

subsection \<open>Strings\<close>

text \<open>\<open>cstr m a cs\<close>: the bytes \<open>cs\<close>, none of them NUL, lie at \<open>a\<close> and a NUL follows them.\<close>

definition cstr :: "memory \<Rightarrow> addr \<Rightarrow> uchar list \<Rightarrow> bool" where
  "cstr m a cs \<longleftrightarrow> mload m a (length cs) = cs \<and> 0 \<notin> set cs \<and> m (a + of_nat (length cs)) = 0"

lemma cstr_Nil [simp]: "cstr m a [] \<longleftrightarrow> m a = 0"
  by (simp add: cstr_def)

lemma cstr_Cons [simp]: "cstr m a (c # cs) \<longleftrightarrow> m a = c \<and> c \<noteq> 0 \<and> cstr m (a + 1) cs"
  by (auto simp: cstr_def mload_Suc algebra_simps)

lemma cstr_nonemptyE:
  assumes "cstr m a cs" "m a \<noteq> 0"
  obtains ds where "cs = m a # ds" "cstr m (a + 1) ds"
  using assms by (cases cs) simp_all

lemma cstr_zero: "cstr m a cs \<Longrightarrow> m a = 0 \<longleftrightarrow> cs = []"
  by (cases cs) simp_all

lemma cstr_hd: "cstr m a cs \<Longrightarrow> cs \<noteq> [] \<Longrightarrow> hd cs = m a"
  by (cases cs) simp_all

lemma cstr_upd: "cstr m a cs \<Longrightarrow> (\<And>j. j \<le> length cs \<Longrightarrow> b \<noteq> a + of_nat j) \<Longrightarrow> cstr (m(b := c)) a cs"
  by (auto simp: cstr_def mload_upd)

lemma strlen_loop_cstr: "cstr m (s + of_nat k) cs \<Longrightarrow> strlen_loop m s k = Some (k + length cs)"
proof (induction cs arbitrary: k)
  case Nil
  then show ?case by (simp add: strlen_loop.simps)
next
  case (Cons c cs)
  then have "cstr m (s + of_nat (Suc k)) cs" by (simp add: algebra_simps)
  from Cons.IH [OF this] Cons.prems show ?case by (simp add: strlen_loop.simps [of m s k])
qed

lemma strlen_cstr: "cstr m s cs \<Longrightarrow> strlen m s = Some (length cs)"
  using strlen_loop_cstr [of m s 0 cs] by (simp add: strlen_def)

lemma strncmp_loop_0_iff:
  "cstr m p ps \<Longrightarrow> cstr m q qs \<Longrightarrow> strncmp_loop m p q n = 0 \<longleftrightarrow> take n ps = take n qs"
proof (induction n arbitrary: p q ps qs)
  case (Suc n)
  show ?case
  proof (cases "m p \<noteq> 0 \<and> m p = m q")
    case True
    then have p: "m p \<noteq> 0" and q: "m q \<noteq> 0" by metis+
    obtain cs where cs: "ps = m p # cs" "cstr m (p + 1) cs"
      using cstr_nonemptyE [OF Suc.prems(1) p] .
    obtain ds where ds: "qs = m q # ds" "cstr m (q + 1) ds"
      using cstr_nonemptyE [OF Suc.prems(2) q] .
    have "strncmp_loop m p q (Suc n) = strncmp_loop m (p + 1) (q + 1) n"
      unfolding strncmp_loop.simps using True by (rule if_P)
    then show ?thesis
      using True Suc.IH [OF cs(2) ds(2)] by (simp only: cs(1) ds(1) take_Suc_Cons list.inject simp_thms)
  next
    case False
    then have l: "strncmp_loop m p q (Suc n) = 0 \<longleftrightarrow> m p = 0 \<and> m q = 0"
      by (auto simp: uint_diff_0)
    have "take (Suc n) ps \<noteq> take (Suc n) qs" if "ps \<noteq> [] \<or> qs \<noteq> []"
    proof
      assume e: "take (Suc n) ps = take (Suc n) qs"
      with that have "ps \<noteq> []" "qs \<noteq> []" "hd ps = hd qs"
        by (cases ps; cases qs; simp)+
      with False Suc.prems show False using cstr_hd cstr_zero by metis
    qed
    then show ?thesis
      using l Suc.prems by (auto simp: cstr_zero)
  qed
qed simp

lemma pad_loop_eq: "n \<le> 2 ^ 64 \<Longrightarrow> pad_loop n m s = mstore m s (replicate n 0)"
  by (induction n arbitrary: m s) (simp_all add: mstore_Cons)

text \<open>\<open>strncpy\<close> writes exactly \<open>n\<close> bytes: the string, cut at \<open>n\<close>, then NULs.\<close>

lemma strncpy_loop_eq:
  assumes "n \<le> 2 ^ 32" "cstr m t cs" "length cs < 2 ^ 32"
    and "\<And>i j. i < j \<Longrightarrow> j \<le> length cs \<Longrightarrow> s + of_nat i \<noteq> t + of_nat j"
  shows "strncpy_loop n m s t = mstore m s (take n (cs @ replicate n 0))"
  using assms
proof (induction n arbitrary: m s t cs)
  case (Suc n)
  show ?case
  proof (cases cs)
    case Nil
    then show ?thesis using Suc.prems(1,2) by (simp add: pad_loop_eq mstore_Cons)
  next
    case (Cons c ds)
    have fresh: "s \<noteq> t + 1 + of_nat j" if "j \<le> length ds" for j
      using Suc.prems(4) [of 0 "Suc j"] that Cons by (simp add: algebra_simps)
    have "cstr (m(s := c)) (t + 1) ds"
      using Suc.prems(2) Cons fresh by (intro cstr_upd) auto
    moreover have "s + 1 + of_nat i \<noteq> t + 1 + of_nat j" if "i < j" "j \<le> length ds" for i j
      using Suc.prems(4) [of "Suc i" "Suc j"] that Cons by (simp add: algebra_simps)
    ultimately have "strncpy_loop n (m(s := c)) (s + 1) (t + 1)
        = mstore (m(s := c)) (s + 1) (take n (ds @ replicate n 0))"
      using Suc.prems Cons by (intro Suc.IH) (auto simp del: fun_upd_apply)
    moreover have "take n (ds @ replicate (Suc n) 0) = take n (ds @ replicate n 0)"
      by (rule nth_equalityI) (auto simp: nth_append simp del: replicate.simps)
    moreover have "length (take n (ds @ replicate n (0 :: uchar))) < 2 ^ 64"
      using Suc.prems(1) by simp
    moreover have "m t = c" "c \<noteq> 0" using Suc.prems(2) Cons by simp_all
    ultimately have "strncpy_loop (Suc n) m s t = mstore m s (c # take n (ds @ replicate (Suc n) 0))"
      by (simp del: fun_upd_apply replicate.simps add: mstore_Cons)
    then show ?thesis by (simp add: Cons)
  qed
qed simp

text \<open>\<open>safestrcpy\<close> never writes past its buffer and always leaves a NUL-terminated string.\<close>

lemma safestrcpy_loop_frame:
  "n < 2 ^ 32 \<Longrightarrow> n < unat (x - s) \<Longrightarrow> safestrcpy_loop n m s t x = m x"
proof (induction n arbitrary: m s t)
  case 0
  then show ?case by auto
next
  case (Suc n)
  have x: "x \<noteq> s" "x \<noteq> s + 1" using Suc.prems by auto
  have "n < unat (x - (s + 1))" using Suc.prems(2) unat_diff_Suc [OF x(1)] by linarith
  then have "safestrcpy_loop n (m(s := m t)) (s + 1) (t + 1) x = (m(s := m t)) x"
    using Suc.prems(1) by (intro Suc.IH) (simp_all del: fun_upd_apply)
  with x show ?case by (simp add: Let_def)
qed

lemma safestrcpy_loop_nul:
  "n < 2 ^ 32 \<Longrightarrow> \<exists>k \<le> n. safestrcpy_loop n m s t (s + of_nat k) = 0"
proof (induction n arbitrary: m s t)
  case 0
  then show ?case by auto
next
  case (Suc n)
  show ?case
  proof (cases "m t = 0")
    case True
    then have "safestrcpy_loop (Suc n) m s t (s + of_nat 1) = 0" by (simp add: Let_def)
    then show ?thesis by (intro exI [of _ 1]) simp
  next
    case False
    from Suc.prems have "n < 2 ^ 32" by simp
    from Suc.IH [OF this, of "m(s := m t)" "s + 1" "t + 1"]
    obtain k where "k \<le> n" "safestrcpy_loop n (m(s := m t)) (s + 1) (t + 1) (s + 1 + of_nat k) = 0"
      by blast
    then show ?thesis using False
      by (intro exI [of _ "Suc k"]) (simp add: Let_def add.assoc)
  qed
qed

end
