(* ===== verification/Riscv.thy ===== *)
theory Riscv
  imports Prelude
begin

text \<open>
  The constants and macros of \<^verbatim>\<open>kernel/riscv.h\<close>, \<^verbatim>\<open>kernel/memlayout.h\<close> and
  \<^verbatim>\<open>kernel/param.h\<close> that the memory system is written in: page sizes and rounding, page-table
  entries with their flag bits (including the copy-on-write bit \<^verbatim>\<open>PTE_C\<close> this kernel adds), the
  three-level index of a virtual address, and the physical and virtual memory layout.  The lemmas
  say how the encodings invert one another.
\<close>

subsection \<open>Pages\<close>

definition PGSIZE :: addr where
  "PGSIZE = 4096"

definition PGROUNDUP :: "uint64 \<Rightarrow> uint64" where
  "PGROUNDUP sz = (sz + PGSIZE - 1) AND NOT (PGSIZE - 1)"

definition PGROUNDDOWN :: "uint64 \<Rightarrow> uint64" where
  "PGROUNDDOWN a = a AND NOT (PGSIZE - 1)"

subsection \<open>Page-table entries\<close>

definition PTE_V :: uint64 where "PTE_V = 0x001"
definition PTE_R :: uint64 where "PTE_R = 0x002"
definition PTE_W :: uint64 where "PTE_W = 0x004"
definition PTE_X :: uint64 where "PTE_X = 0x008"
definition PTE_U :: uint64 where "PTE_U = 0x010"
definition PTE_C :: uint64 where "PTE_C = 0x100"

lemmas pte_bits = PTE_V_def PTE_R_def PTE_W_def PTE_X_def PTE_U_def PTE_C_def

definition PA2PTE :: "addr \<Rightarrow> uint64" where
  "PA2PTE pa = push_bit 10 (drop_bit 12 pa)"

definition PTE2PA :: "uint64 \<Rightarrow> addr" where
  "PTE2PA pte = push_bit 12 (drop_bit 10 pte)"

definition PTE_FLAGS :: "uint64 \<Rightarrow> uint64" where
  "PTE_FLAGS pte = pte AND 0x3FF"

definition PX :: "nat \<Rightarrow> addr \<Rightarrow> uint64" where
  "PX level va = drop_bit (12 + 9 * level) va AND 0x1FF"

definition MAXVA :: addr where
  "MAXVA = push_bit 38 1"

subsection \<open>Memory layout and kernel parameters\<close>

definition KERNBASE :: addr where "KERNBASE = 0x80000000"
definition PHYSTOP :: addr where "PHYSTOP = KERNBASE + 128 * 1024 * 1024"
definition TRAMPOLINE :: addr where "TRAMPOLINE = MAXVA - PGSIZE"
definition TRAPFRAME :: addr where "TRAPFRAME = TRAMPOLINE - PGSIZE"

definition KSTACK :: "nat \<Rightarrow> addr" where
  "KSTACK p = TRAMPOLINE - (of_nat p + 1) * 2 * PGSIZE"

definition NPROC :: nat where "NPROC = 64"
definition NOFILE :: nat where "NOFILE = 16"

definition MAKE_SATP :: "addr \<Rightarrow> uint64" where
  "MAKE_SATP pagetable = push_bit 60 8 OR drop_bit 12 pagetable"

subsection \<open>Rounding\<close>

lemma mask_pg: "(4095 :: 'a::len word) = mask 12"
  by (simp add: mask_eq_exp_minus_1)

lemma mask_flags: "(0x3FF :: uint64) = mask 10"
  by (simp add: mask_eq_exp_minus_1)

lemma mask_px: "(0x1FF :: uint64) = mask 9"
  by (simp add: mask_eq_exp_minus_1)

lemma PGROUNDDOWN_bit: "bit (PGROUNDDOWN a) n \<longleftrightarrow> bit a n \<and> 12 \<le> n"
proof -
  have "PGROUNDDOWN a = a AND NOT (mask 12)"
    by (simp add: PGROUNDDOWN_def PGSIZE_def flip: mask_pg)
  then show ?thesis
    by (auto simp: bit_simps dest: bit_imp_le_length)
qed

lemma PGROUNDDOWN_aligned [simp]: "aligned (PGROUNDDOWN a)"
  by (simp add: aligned_bit PGROUNDDOWN_bit)

lemma PGROUNDDOWN_id: "aligned a \<Longrightarrow> PGROUNDDOWN a = a"
  by (rule bit_word_eqI) (auto simp: PGROUNDDOWN_bit aligned_bit not_less intro: leI)

lemma PGROUNDDOWN_idem [simp]: "PGROUNDDOWN (PGROUNDDOWN a) = PGROUNDDOWN a"
  by (simp add: PGROUNDDOWN_id)

lemma PX_bit: "bit (PX level va) n \<longleftrightarrow> n < 9 \<and> bit va (12 + 9 * level + n)"
  unfolding PX_def mask_px by (auto simp: bit_simps)

lemma PX_PGROUNDDOWN [simp]: "PX level (PGROUNDDOWN va) = PX level va"
  by (rule bit_word_eqI) (simp add: PX_bit PGROUNDDOWN_bit)

lemma PGROUNDDOWN_shift: "PGROUNDDOWN a = push_bit 12 (drop_bit 12 a)"
  by (rule bit_word_eqI) (auto simp: PGROUNDDOWN_bit bit_push_bit_iff bit_drop_bit_eq)

lemma unat_PGROUNDDOWN: "unat (PGROUNDDOWN a) = unat a div 4096 * 4096"
proof -
  have d: "unat (drop_bit 12 a) = unat a div 4096"
    by (simp add: drop_bit_eq_div unat_div)
  have "unat a div 4096 * 4096 < 2 ^ 64"
    using unat_bound [of a] by (simp add: le_less_trans [OF div_times_less_eq_dividend])
  then show ?thesis
    by (simp add: PGROUNDDOWN_shift push_bit_eq_mult unat_word_ariths d mult.commute)
qed

lemma PGROUNDUP_PGROUNDDOWN: "PGROUNDUP sz = PGROUNDDOWN (sz + 4095)"
  by (simp add: PGROUNDUP_def PGROUNDDOWN_def PGSIZE_def add.commute)

lemma PGROUNDUP_aligned [simp]: "aligned (PGROUNDUP sz)"
  by (simp add: PGROUNDUP_PGROUNDDOWN)

lemma unat_PGROUNDUP:
  "unat sz + 4095 < 2 ^ 64 \<Longrightarrow> unat (PGROUNDUP sz) = (unat sz + 4095) div 4096 * 4096"
  by (simp add: PGROUNDUP_PGROUNDDOWN unat_PGROUNDDOWN unat_word_ariths)

lemma aligned_unat: "aligned x \<longleftrightarrow> unat x mod 4096 = 0"
  by (simp add: aligned_def take_bit_eq_mod word_unat_eq_iff unat_mod)

subsection \<open>Page-table entry encoding\<close>

lemma PTE2PA_bit: "bit (PTE2PA pte) n \<longleftrightarrow> n < 64 \<and> 12 \<le> n \<and> bit pte (n - 2)"
  by (auto simp: PTE2PA_def bit_push_bit_iff bit_drop_bit_eq)

lemma PA2PTE_bit: "bit (PA2PTE pa) n \<longleftrightarrow> n < 64 \<and> 10 \<le> n \<and> bit pa (n + 2)"
  by (auto simp: PA2PTE_def bit_push_bit_iff bit_drop_bit_eq)

lemma PTE_FLAGS_bit: "bit (PTE_FLAGS pte) n \<longleftrightarrow> bit pte n \<and> n < 10"
  unfolding PTE_FLAGS_def mask_flags by (auto simp: bit_simps)

lemmas pte_bit_simps = PTE2PA_bit PA2PTE_bit PTE_FLAGS_bit bit_or_iff bit_and_iff

lemma PTE2PA_aligned [simp]: "aligned (PTE2PA pte)"
  by (simp add: aligned_bit PTE2PA_bit)

lemma PTE2PA_PA2PTE:
  assumes "aligned pa" "take_bit 10 fl = fl"
  shows "PTE2PA (PA2PTE pa OR fl) = pa"
proof (rule bit_word_eqI)
  fix n assume n: "n < LENGTH(64)"
  have e: "\<not> n < 12 \<Longrightarrow> Suc (Suc (n - 2)) = n" by linarith
  show "bit (PTE2PA (PA2PTE pa OR fl)) n \<longleftrightarrow> bit pa n"
    using assms n by (cases "n < 12") (auto simp: e pte_bit_simps aligned_bit take_bit_self_bit)
qed

lemma PTE_FLAGS_PA2PTE: "take_bit 10 fl = fl \<Longrightarrow> PTE_FLAGS (PA2PTE pa OR fl) = fl"
  by (rule bit_word_eqI) (auto simp: pte_bit_simps take_bit_self_bit not_less intro: leI)

lemma PTE_FLAGS_le [simp]: "take_bit 10 (PTE_FLAGS pte) = PTE_FLAGS pte"
  by (simp add: take_bit_self_bit PTE_FLAGS_bit)

lemma PTE_FLAGS_0 [simp]: "PTE_FLAGS 0 = 0"
  by (simp add: PTE_FLAGS_def)

subsection \<open>Virtual-address indices\<close>

lemma PX_lt: "unat (PX level va) < 512"
proof -
  have "PX level va \<le> 0x1FF" unfolding PX_def by (rule word_and_le1)
  then have "unat (PX level va) \<le> unat (0x1FF :: uint64)" by (simp only: word_le_nat_alt)
  then show ?thesis by simp
qed

lemma MAXVA_bit: "va < MAXVA \<Longrightarrow> 38 \<le> n \<Longrightarrow> \<not> bit va n"
proof -
  assume va: "va < MAXVA" and n: "38 \<le> n"
  have "unat va < 2 ^ 38" using va by (simp add: MAXVA_def word_less_nat_alt)
  then have "take_bit 38 va = va"
    by (simp add: take_bit_eq_mod word_unat_eq_iff unat_mod)
  then show ?thesis using n by (simp add: take_bit_self_bit)
qed

text \<open>Two page-aligned addresses below \<^const>\<open>MAXVA\<close> with the same three indices are equal.\<close>

lemma PX_inj:
  assumes "aligned a" "aligned b" "a < MAXVA" "b < MAXVA"
    and px: "PX 2 a = PX 2 b" "PX 1 a = PX 1 b" "PX 0 a = PX 0 b"
  shows "a = b"
proof (rule bit_word_eqI)
  fix n assume n: "n < LENGTH(64)"
  have idx: "bit a (12 + 9 * l + k) = bit b (12 + 9 * l + k)"
    if k: "k < 9" and l: "PX l a = PX l b" for l k
  proof -
    have "bit (PX l a) k = bit (PX l b) k" by (simp add: l)
    then show ?thesis using k by (simp add: PX_bit)
  qed
  consider "n < 12" | "12 \<le> n" "n < 21" | "21 \<le> n" "n < 30" | "30 \<le> n" "n < 39" | "39 \<le> n"
    by linarith
  then show "bit a n = bit b n"
  proof cases
    case 1
    then show ?thesis using assms(1,2) by (simp add: aligned_bit)
  next
    case 2
    then show ?thesis using idx [of "n - 12" 0] px by simp
  next
    case 3
    then show ?thesis using idx [of "n - 21" 1] px by simp
  next
    case 4
    then show ?thesis using idx [of "n - 30" 2] px by simp
  next
    case 5
    then show ?thesis using assms(3,4) MAXVA_bit by auto
  qed
qed

end
