(* ===== verification/Pool.thy ===== *)
theory Pool
  imports Kmonad
begin

text \<open>
  The interface of a page allocator with reference counts, as the virtual-memory code uses it.
  A provider has an abstract list of free pages and a number of users for every page; \<open>alloc\<close>
  hands out the first free page with one user, \<open>free\<close> drops one user and makes the page free again
  only for the last one.  What clients rely on is derived here once from these laws.
\<close>

locale page_pool =
  fixes pool :: "'s \<Rightarrow> addr list \<Rightarrow> bool"
    and users :: "'s \<Rightarrow> addr \<Rightarrow> int"
    and ready :: "'s \<Rightarrow> bool"
    and usable :: "'s \<Rightarrow> addr \<Rightarrow> bool"
    and alloc :: "('s, addr) km"
    and free :: "addr \<Rightarrow> ('s, unit) km"
  assumes alloc_empty: "pool s [] \<Longrightarrow> ready s \<Longrightarrow> alloc s = Ok 0 s"
    and alloc_cons: "pool s (x # xs) \<Longrightarrow> ready s \<Longrightarrow>
      \<exists>t. alloc s = Ok x t \<and> pool t xs \<and> ready t \<and> usable t = usable s \<and>
          users t x = 1 \<and> (\<forall>p. usable s p \<longrightarrow> p \<noteq> x \<longrightarrow> users t p = users s p)"
    and free_shared: "pool s xs \<Longrightarrow> ready s \<Longrightarrow> usable s p \<Longrightarrow> 1 < users s p \<Longrightarrow>
      \<exists>t. free p s = Ok () t \<and> pool t xs \<and> ready t \<and> usable t = usable s \<and>
          users t p = users s p - 1 \<and> (\<forall>q. usable s q \<longrightarrow> q \<noteq> p \<longrightarrow> users t q = users s q)"
    and free_last: "pool s xs \<Longrightarrow> ready s \<Longrightarrow> usable s p \<Longrightarrow> p \<notin> set xs \<Longrightarrow> users s p \<le> 1 \<Longrightarrow>
      \<exists>t. free p s = Ok () t \<and> pool t (p # xs) \<and> ready t \<and> usable t = usable s \<and>
          users t = users s"
    and pool_distinct: "pool s xs \<Longrightarrow> distinct xs"
    and pool_usable: "pool s xs \<Longrightarrow> x \<in> set xs \<Longrightarrow> usable s x"
begin

primrec free_n :: "nat \<Rightarrow> addr \<Rightarrow> ('s, unit) km" where
  "free_n 0 p = skip"
| "free_n (Suc k) p = thn (free p) (free_n k p)"

primrec alloc_n :: "nat \<Rightarrow> ('s, addr list) km" where
  "alloc_n 0 = ret []"
| "alloc_n (Suc k) = bind alloc (\<lambda>x. bind (alloc_n k) (\<lambda>ys. ret (x # ys)))"

lemma alloc_n_ok:
  "pool s (xs @ ys) \<Longrightarrow> ready s \<Longrightarrow> k = length xs \<Longrightarrow>
    \<exists>t. alloc_n k s = Ok xs t \<and> pool t ys \<and> ready t \<and> usable t = usable s"
proof (induction xs arbitrary: s k)
  case Nil
  then show ?case by (simp add: run_simps)
next
  case (Cons x xs)
  from Cons.prems have "pool s (x # (xs @ ys))" by simp
  from alloc_cons [OF this Cons.prems(2)] obtain t
    where t: "alloc s = Ok x t" "pool t (xs @ ys)" "ready t" "usable t = usable s" by blast
  from Cons.IH [OF t(2,3), of "length xs"] obtain u
    where "alloc_n (length xs) t = Ok xs u" "pool u ys" "ready u" "usable u = usable t" by auto
  with t Cons.prems(3) show ?case by (simp add: run_simps)
qed

lemma free_then_alloc:
  assumes "pool s xs" "ready s" "usable s p" "p \<notin> set xs" "users s p \<le> 1"
  shows "\<exists>t. thn (free p) alloc s = Ok p t \<and> pool t xs \<and> users t p = 1"
proof -
  from free_last [OF assms] obtain t where t: "free p s = Ok () t" "pool t (p # xs)" "ready t" by blast
  from alloc_cons [OF t(2,3)] obtain u where "alloc t = Ok p u" "pool u xs" "users u p = 1" by blast
  with t show ?thesis by (simp add: run_simps)
qed

text \<open>A page with \<open>k + 1\<close> users goes back to the pool at the \<open>(k + 1)\<close>-st \<open>free\<close> and no earlier.\<close>

lemma free_n_shared:
  "pool s xs \<Longrightarrow> ready s \<Longrightarrow> usable s p \<Longrightarrow> int k < users s p \<Longrightarrow>
    \<exists>t. free_n k p s = Ok () t \<and> pool t xs \<and> ready t \<and> usable t = usable s \<and>
        users t p = users s p - int k"
proof (induction k arbitrary: s)
  case 0
  then show ?case by (simp add: run_simps)
next
  case (Suc k)
  then have "1 < users s p" by simp
  from free_shared [OF Suc.prems(1-3) this] obtain t
    where t: "free p s = Ok () t" "pool t xs" "ready t" "usable t = usable s" "users t p = users s p - 1"
    by blast
  with Suc.prems Suc.IH [of t] show ?case by (auto simp: run_simps)
qed

lemma free_n_add: "free_n (j + k) p s = thn (free_n j p) (free_n k p) s"
  by (induction j arbitrary: s) (simp_all add: run_simps split: res.split)

lemma free_n_last:
  assumes "pool s xs" "ready s" "usable s p" "p \<notin> set xs" "users s p = int (Suc k)"
  shows "\<exists>t. free_n (Suc k) p s = Ok () t \<and> pool t (p # xs) \<and> ready t"
proof -
  from assms(5) have "int k < users s p" by simp
  from free_n_shared [OF assms(1-3) this] obtain t
    where t: "free_n k p s = Ok () t" "pool t xs" "ready t" "usable t = usable s" "users t p = 1"
    using assms(5) by auto
  then have "usable t p" "users t p \<le> 1" using assms(3) by simp_all
  from free_last [OF t(2,3) this(1) assms(4) this(2)] obtain u
    where "free p t = Ok () u" "pool u (p # xs)" "ready u" by blast
  with t free_n_add [of k 1 p s] show ?thesis by (simp add: run_simps)
qed

end

end
