(* ===== verification/Kmem.thy ===== *)
theory Kmem
  imports Str Riscv Pool
begin

text \<open>
  \<^verbatim>\<open>kernel/kalloc.c\<close>: the physical page allocator and the page reference counts that
  copy-on-write needs.  Free pages form a linked list threaded through the pages themselves
  (\<open>struct run\<close>, the next pointer in the first eight bytes); \<open>pageref\<close> counts the users of each
  page.  \<open>kfree\<close> gives a page back only when its caller is the last user.  The invariant
  \<open>free_inv\<close> relates the list in memory to an abstract list of distinct valid pages.
\<close>

subsection \<open>State\<close>

text \<open>\<open>kend\<close> is the linker symbol \<^verbatim>\<open>end\<close>, the first address after the kernel; \<open>pageref\<close> is
  indexed by page number.\<close>

record kmem = kbase +
  mem :: memory
  freelist :: addr
  pageref :: "addr \<Rightarrow> int"
  kend :: addr

definition bad_pa :: "'z kmem_scheme \<Rightarrow> addr \<Rightarrow> bool" where
  "bad_pa s pa \<longleftrightarrow> pa mod PGSIZE \<noteq> 0 \<or> pa < kend s \<or> pa \<ge> PHYSTOP"

definition initlock :: "lock \<Rightarrow> ('z kbase_scheme, unit) km" where
  "initlock l = modify (\<lambda>s. s\<lparr>held := held s - {l}\<rparr>)"

subsection \<open>Reference counts\<close>

definition PG_REFCNT :: "'z kmem_scheme \<Rightarrow> addr \<Rightarrow> int" where
  "PG_REFCNT s pa = pageref s (pa div PGSIZE)"

definition set_refcnt :: "addr \<Rightarrow> int \<Rightarrow> 'z kmem_scheme \<Rightarrow> 'z kmem_scheme" where
  "set_refcnt pa n s = s\<lparr>pageref := (pageref s)(pa div PGSIZE := n)\<rparr>"

definition refcnt_init :: "addr \<Rightarrow> ('z kmem_scheme, unit) km" where
  "refcnt_init pa =
     bind (gets (\<lambda>s. bad_pa s pa)) (\<lambda>bad.
     thn (panic_if bad ''refcnt_init'')
    (thn (acquire PagerefLock)
    (thn (modify (set_refcnt pa 1))
         (release PagerefLock))))"

definition refcnt_inc :: "addr \<Rightarrow> ('z kmem_scheme, unit) km" where
  "refcnt_inc pa =
     bind (gets (\<lambda>s. bad_pa s pa)) (\<lambda>bad.
     thn (panic_if bad ''refcnt_inc'')
    (thn (acquire PagerefLock)
    (thn (modify (\<lambda>s. set_refcnt pa (PG_REFCNT s pa + 1) s))
         (release PagerefLock))))"

definition refcnt_dec :: "addr \<Rightarrow> ('z kmem_scheme, unit) km" where
  "refcnt_dec pa =
     bind (gets (\<lambda>s. bad_pa s pa)) (\<lambda>bad.
     thn (panic_if bad ''refcnt_dec'')
    (thn (acquire PagerefLock)
    (thn (modify (\<lambda>s. set_refcnt pa (PG_REFCNT s pa - 1) s))
         (release PagerefLock))))"

definition get_refcnt :: "addr \<Rightarrow> ('z kmem_scheme, int) km" where
  "get_refcnt pa =
     bind (gets (\<lambda>s. bad_pa s pa)) (\<lambda>bad.
     thn (panic_if bad ''get_refcnt'')
    (thn (acquire PagerefLock)
    (bind (gets (\<lambda>s. PG_REFCNT s pa)) (\<lambda>n.
     thn (release PagerefLock)
         (ret n)))))"

subsection \<open>Allocation\<close>

definition kmemset :: "addr \<Rightarrow> uint \<Rightarrow> uint \<Rightarrow> ('z kmem_scheme, unit) km" where
  "kmemset dst c n = modify (\<lambda>s. s\<lparr>mem := memset (mem s) dst c n\<rparr>)"

definition kfree :: "addr \<Rightarrow> ('z kmem_scheme, unit) km" where
  "kfree pa =
     bind (gets (\<lambda>s. bad_pa s pa)) (\<lambda>bad.
     thn (panic_if bad ''kfree'')
    (bind (get_refcnt pa) (\<lambda>n.
     if n > 1 then refcnt_dec pa
     else
       thn (kmemset pa 1 (ucast PGSIZE))
      (thn (acquire KmemLock)
      (thn (modify (\<lambda>s. s\<lparr>mem := store64 (mem s) pa (freelist s)\<rparr>))
      (thn (modify (\<lambda>s. s\<lparr>freelist := pa\<rparr>))
           (release KmemLock)))))))"

definition kalloc :: "('z kmem_scheme, addr) km" where
  "kalloc =
     thn (acquire KmemLock)
    (bind (gets freelist) (\<lambda>r.
     thn (if r \<noteq> 0
          then thn (modify (\<lambda>s. s\<lparr>freelist := load64 (mem s) r\<rparr>)) (refcnt_init r)
          else skip)
    (thn (release KmemLock)
    (thn (if r \<noteq> 0 then kmemset r 5 (ucast PGSIZE) else skip)
         (ret r)))))"

text \<open>The loop of \<open>freerange\<close> also stops where \<open>p + PGSIZE\<close> would wrap, which C leaves undefined.\<close>

function freerange_loop :: "addr \<Rightarrow> addr \<Rightarrow> ('z kmem_scheme, unit) km" where
  "freerange_loop p pa_end =
     (if p + PGSIZE \<le> pa_end \<and> p < p + PGSIZE
      then thn (kfree p) (freerange_loop (p + PGSIZE) pa_end) else skip)"
  by pat_completeness auto
termination
  by (relation "measure (\<lambda>(p, e). unat e - unat p)") (auto simp: word_less_nat_alt word_le_nat_alt)

declare freerange_loop.simps [simp del]

definition freerange :: "addr \<Rightarrow> addr \<Rightarrow> ('z kmem_scheme, unit) km" where
  "freerange pa_start pa_end = freerange_loop (PGROUNDUP pa_start) pa_end"

definition kinit :: "('z kmem_scheme, unit) km" where
  "kinit =
     thn (initlock KmemLock)
    (thn (initlock PagerefLock)
    (thn (modify (\<lambda>s. s\<lparr>pageref := (\<lambda>_. 0)\<rparr>))
    (bind (gets kend) (\<lambda>e. freerange e PHYSTOP))))"

subsection \<open>Symbolic execution\<close>

definition kunlocked :: "'z kmem_scheme \<Rightarrow> bool" where
  "kunlocked s \<longleftrightarrow> KmemLock \<notin> held s \<and> PagerefLock \<notin> held s"

lemma div_PGSIZE: "pa div PGSIZE = pgof pa"
  by (simp add: PGSIZE_def pgof_def drop_bit_eq_div)

lemma mod_PGSIZE: "pa mod PGSIZE = 0 \<longleftrightarrow> aligned pa"
  by (simp add: PGSIZE_def aligned_def take_bit_eq_mod)

lemma ucast_PGSIZE [simp]: "unat (ucast PGSIZE :: uint) = 4096"
  by (simp add: PGSIZE_def)

lemma PG_REFCNT_pgof: "PG_REFCNT s pa = pageref s (pgof pa)"
  by (simp add: PG_REFCNT_def div_PGSIZE)

lemma set_refcnt_pgof: "set_refcnt pa n s = s\<lparr>pageref := (pageref s)(pgof pa := n)\<rparr>"
  by (simp add: set_refcnt_def div_PGSIZE)

lemma bad_pa_cong [simp]:
  "bad_pa (s\<lparr>held := h\<rparr>) = bad_pa s" "bad_pa (s\<lparr>mem := m\<rparr>) = bad_pa s"
  "bad_pa (s\<lparr>freelist := f\<rparr>) = bad_pa s" "bad_pa (s\<lparr>pageref := r\<rparr>) = bad_pa s"
  by (simp_all add: bad_pa_def fun_eq_iff)

lemma valid_pa_aligned: "\<not> bad_pa s pa \<Longrightarrow> aligned pa"
  by (simp add: bad_pa_def mod_PGSIZE)

lemma refcnt_init_run [run_simps]:
  "\<not> bad_pa s pa \<Longrightarrow> PagerefLock \<notin> held s \<Longrightarrow>
    refcnt_init pa s = Ok () (s\<lparr>pageref := (pageref s)(pgof pa := 1)\<rparr>)"
  by (simp add: refcnt_init_def run_simps set_refcnt_pgof)

lemma refcnt_inc_run [run_simps]:
  "\<not> bad_pa s pa \<Longrightarrow> PagerefLock \<notin> held s \<Longrightarrow>
    refcnt_inc pa s = Ok () (s\<lparr>pageref := (pageref s)(pgof pa := pageref s (pgof pa) + 1)\<rparr>)"
  by (simp add: refcnt_inc_def run_simps set_refcnt_pgof PG_REFCNT_pgof)

lemma refcnt_dec_run [run_simps]:
  "\<not> bad_pa s pa \<Longrightarrow> PagerefLock \<notin> held s \<Longrightarrow>
    refcnt_dec pa s = Ok () (s\<lparr>pageref := (pageref s)(pgof pa := pageref s (pgof pa) - 1)\<rparr>)"
  by (simp add: refcnt_dec_def run_simps set_refcnt_pgof PG_REFCNT_pgof)

lemma get_refcnt_run [run_simps]:
  "\<not> bad_pa s pa \<Longrightarrow> PagerefLock \<notin> held s \<Longrightarrow> get_refcnt pa s = Ok (pageref s (pgof pa)) s"
  by (simp add: get_refcnt_def run_simps PG_REFCNT_pgof)

lemma kmemset_run [run_simps]:
  "kmemset dst c n s = Ok () (s\<lparr>mem := mfill (mem s) dst (ucast c) (unat n)\<rparr>)"
  by (simp add: kmemset_def run_simps memset_eq)

lemma kfree_shared_run:
  "\<not> bad_pa s pa \<Longrightarrow> kunlocked s \<Longrightarrow> 1 < pageref s (pgof pa) \<Longrightarrow>
    kfree pa s = Ok () (s\<lparr>pageref := (pageref s)(pgof pa := pageref s (pgof pa) - 1)\<rparr>)"
  by (simp add: kfree_def run_simps kunlocked_def)

lemma kfree_last_run:
  "\<not> bad_pa s pa \<Longrightarrow> kunlocked s \<Longrightarrow> pageref s (pgof pa) \<le> 1 \<Longrightarrow>
    kfree pa s = Ok () (s\<lparr>mem := store64 (mfill (mem s) pa 1 4096) pa (freelist s), freelist := pa\<rparr>)"
  by (simp add: kfree_def run_simps kunlocked_def)

lemma kalloc_empty_run: "kunlocked s \<Longrightarrow> freelist s = 0 \<Longrightarrow> kalloc s = Ok 0 s"
  by (simp add: kalloc_def run_simps kunlocked_def)

lemma kalloc_run:
  "kunlocked s \<Longrightarrow> freelist s = x \<Longrightarrow> x \<noteq> 0 \<Longrightarrow> \<not> bad_pa s x \<Longrightarrow>
    kalloc s = Ok x (s\<lparr>mem := mfill (mem s) x 5 4096, freelist := load64 (mem s) x,
      pageref := (pageref s)(pgof x := 1)\<rparr>)"
  by (simp add: kalloc_def run_simps kunlocked_def)

subsection \<open>The free list\<close>

fun fl :: "memory \<Rightarrow> addr \<Rightarrow> addr list \<Rightarrow> bool" where
  "fl m p [] \<longleftrightarrow> p = 0"
| "fl m p (x # xs) \<longleftrightarrow> p = x \<and> x \<noteq> 0 \<and> fl m (load64 m x) xs"

definition free_inv :: "'z kmem_scheme \<Rightarrow> addr list \<Rightarrow> bool" where
  "free_inv s xs \<longleftrightarrow> fl (mem s) (freelist s) xs \<and> distinct xs \<and> kend s \<noteq> 0 \<and>
     (\<forall>x \<in> set xs. \<not> bad_pa s x)"

lemma fl_cong: "(\<And>x. x \<in> set xs \<Longrightarrow> load64 m' x = load64 m x) \<Longrightarrow> fl m' p xs = fl m p xs"
  by (induction xs arbitrary: p) auto

lemma load64_page_frame:
  assumes "aligned q" "\<And>x. pgof x = pgof q \<Longrightarrow> m' x = m x"
  shows "load64 m' q = load64 m q"
proof -
  have "load64 m' (q + 8 * 0) = load64 m (q + 8 * 0)"
    using assms by (intro load64_slot_frame) simp_all
  then show ?thesis by simp
qed

lemma store64_page_frame: "aligned p \<Longrightarrow> pgof x \<noteq> pgof p \<Longrightarrow> store64 m p v x = m x"
  using store64_slot_frame [of p 0 x m v] by simp

lemma free_inv_aligned: "free_inv s xs \<Longrightarrow> x \<in> set xs \<Longrightarrow> aligned x"
  by (auto simp: free_inv_def intro: valid_pa_aligned)

lemma valid_pa_nonzero: "kend s \<noteq> 0 \<Longrightarrow> \<not> bad_pa s pa \<Longrightarrow> pa \<noteq> 0"
  by (auto simp: bad_pa_def word_greater_zero_iff [symmetric] not_less)

text \<open>The list only depends on the pages it threads.\<close>

lemma free_inv_frame:
  assumes "free_inv s xs" "freelist t = freelist s" "kend t = kend s"
    and "\<And>x a. x \<in> set xs \<Longrightarrow> pgof a = pgof x \<Longrightarrow> mem t a = mem s a"
  shows "free_inv t xs"
proof -
  have b: "bad_pa t = bad_pa s" using assms(3) by (simp add: bad_pa_def fun_eq_iff)
  have "load64 (mem t) x = load64 (mem s) x" if "x \<in> set xs" for x
    using that assms(4) free_inv_aligned [OF assms(1)] by (intro load64_page_frame) auto
  then have "fl (mem t) (freelist s) xs = fl (mem s) (freelist s) xs" by (rule fl_cong)
  with assms b show ?thesis by (simp add: free_inv_def)
qed

lemma free_inv_held [simp]: "free_inv (s\<lparr>held := h\<rparr>) xs = free_inv s xs"
  by (simp add: free_inv_def)

lemma free_inv_ref [simp]: "free_inv (s\<lparr>pageref := r\<rparr>) xs = free_inv s xs"
  by (simp add: free_inv_def)

lemma free_inv_pop:
  assumes "free_inv s (x # xs)"
  shows "free_inv (s\<lparr>mem := mfill (mem s) x c 4096, freelist := load64 (mem s) x,
           pageref := r\<rparr>) xs"
proof -
  let ?s = "s\<lparr>freelist := load64 (mem s) x\<rparr>"
  have x: "aligned x" "x \<notin> set xs"
    using free_inv_aligned [OF assms] assms by (auto simp: free_inv_def)
  have inv: "free_inv ?s xs" using assms by (auto simp: free_inv_def)
  have fr: "mfill (mem s) x c 4096 a = mem s a" if "y \<in> set xs" "pgof a = pgof y" for y a
  proof -
    have "aligned y" using free_inv_aligned [OF assms] that(1) by simp
    then have "pgof y \<noteq> pgof x" using x that(1) by (auto simp: pgof_inj)
    then show ?thesis using x that(2) by (simp add: mfill_page)
  qed
  show ?thesis
  proof (rule free_inv_frame [OF inv])
    fix y a assume "y \<in> set xs" "pgof a = pgof y"
    from fr [OF this]
    show "mem (s\<lparr>mem := mfill (mem s) x c 4096, freelist := load64 (mem s) x, pageref := r\<rparr>) a
        = mem ?s a" by simp
  qed simp_all
qed

lemma free_inv_push:
  assumes "free_inv s xs" "\<not> bad_pa s pa" "pa \<notin> set xs"
  shows "free_inv (s\<lparr>mem := store64 (mfill (mem s) pa c 4096) pa (freelist s), freelist := pa\<rparr>)
           (pa # xs)"
proof -
  have pa: "aligned pa" using assms(2) by (rule valid_pa_aligned)
  let ?m = "store64 (mfill (mem s) pa c 4096) pa (freelist s)"
  have fr: "?m a = mem s a" if "y \<in> set xs" "pgof a = pgof y" for y a
  proof -
    have "aligned y" using free_inv_aligned [OF assms(1)] that(1) by simp
    then have "pgof y \<noteq> pgof pa" using pa assms(3) that(1) by (auto simp: pgof_inj)
    then show ?thesis
      using that(2) pa by (simp add: mfill_page store64_page_frame)
  qed
  have "free_inv (s\<lparr>mem := ?m\<rparr>) xs"
  proof (rule free_inv_frame [OF assms(1)])
    fix y a assume "y \<in> set xs" "pgof a = pgof y"
    from fr [OF this] show "mem (s\<lparr>mem := ?m\<rparr>) a = mem s a" by simp
  qed simp_all
  then show ?thesis
    using assms valid_pa_nonzero [of s pa] by (auto simp: free_inv_def load64_store64)
qed

lemma kalloc_pop:
  assumes "free_inv s (x # xs)" "kunlocked s"
  shows "kalloc s = Ok x (s\<lparr>mem := mfill (mem s) x 5 4096, freelist := load64 (mem s) x,
           pageref := (pageref s)(pgof x := 1)\<rparr>)"
  using assms by (intro kalloc_run) (auto simp: free_inv_def)

lemma kalloc_nil: "free_inv s [] \<Longrightarrow> kunlocked s \<Longrightarrow> kalloc s = Ok 0 s"
  by (intro kalloc_empty_run) (auto simp: free_inv_def)

subsection \<open>The allocator provides the pool interface\<close>

definition users :: "'z kmem_scheme \<Rightarrow> addr \<Rightarrow> int" where
  "users s p = pageref s (pgof p)"

lemma valid_pgof_inj: "\<not> bad_pa s p \<Longrightarrow> \<not> bad_pa s q \<Longrightarrow> pgof p = pgof q \<longleftrightarrow> p = q"
  by (simp add: pgof_inj valid_pa_aligned)

lemma kunlocked_cong [simp]:
  "kunlocked (s\<lparr>mem := m\<rparr>) = kunlocked s" "kunlocked (s\<lparr>freelist := f\<rparr>) = kunlocked s"
  "kunlocked (s\<lparr>pageref := r\<rparr>) = kunlocked s"
  by (simp_all add: kunlocked_def)

interpretation kp: page_pool free_inv users kunlocked "\<lambda>s p. \<not> bad_pa s p" kalloc kfree
proof (unfold_locales, goal_cases)
  case (1 s)
  then show ?case by (simp add: kalloc_nil)
next
  case (2 s x xs)
  then show ?case
    using kalloc_pop [of s x xs] free_inv_pop [where s = s and x = x and xs = xs and c = 5]
    by (auto simp: users_def free_inv_def valid_pgof_inj)
next
  case (3 s xs p)
  then show ?case
    using kfree_shared_run [of s p] by (auto simp: users_def valid_pgof_inj)
next
  case (4 s xs p)
  then show ?case
    using kfree_last_run [of s p] free_inv_push [where s = s and pa = p and xs = xs and c = 1] by (auto simp: users_def)
next
  case (5 s xs)
  then show ?case by (simp add: free_inv_def)
next
  case (6 s xs x)
  then show ?case by (simp add: free_inv_def)
qed

subsection \<open>Boot\<close>

definition pages :: "addr \<Rightarrow> nat \<Rightarrow> addr list" where
  "pages p k = map (\<lambda>i. p + 4096 * of_nat i) [0..<k]"

lemma pages_Suc: "pages p (Suc k) = p # pages (p + 4096) k"
proof -
  have "[0..<Suc k] = 0 # map Suc [0..<k]" by (simp add: map_Suc_upt upt_conv_Cons del: upt_Suc)
  then show ?thesis by (simp add: pages_def algebra_simps del: upt_Suc)
qed

lemma unat_add_page: "unat p + 4096 < 2 ^ 64 \<Longrightarrow> unat (p + 4096 :: addr) = unat p + 4096"
  by (simp add: unat_word_ariths)

lemma freerange_loop_ok:
  assumes "free_inv s xs" "kunlocked s" "\<And>q. pageref s q \<le> 1" "aligned p" "kend s \<le> p"
    and "unat p + 4096 * k \<le> unat e" "unat e < unat p + 4096 * Suc k" "e \<le> PHYSTOP"
    and "\<And>x. x \<in> set xs \<Longrightarrow> x < p"
  shows "\<exists>t. freerange_loop p e s = Ok () t \<and> free_inv t (rev (pages p k) @ xs) \<and> kunlocked t"
  using assms
proof (induction k arbitrary: p s xs)
  case 0
  have "unat e < 2 ^ 63" using "0.prems"(8) by (simp add: word_le_nat_alt PHYSTOP_def KERNBASE_def)
  then have "unat (p + 4096) = unat p + 4096" using "0.prems"(6) by (intro unat_add_page) simp
  then have "\<not> p + PGSIZE \<le> e" using "0.prems"(7) by (simp add: word_le_nat_alt PGSIZE_def)
  then show ?case using "0.prems" by (simp add: freerange_loop.simps run_simps pages_def)
next
  case (Suc k)
  have e: "unat e < 2 ^ 63" using Suc.prems(8) by (simp add: word_le_nat_alt PHYSTOP_def KERNBASE_def)
  then have p: "unat (p + 4096) = unat p + 4096" using Suc.prems(6) by (intro unat_add_page) simp
  then have guard: "p + PGSIZE \<le> e \<and> p < p + PGSIZE"
    using Suc.prems(6) by (simp add: word_le_nat_alt word_less_nat_alt PGSIZE_def)
  have "p < PHYSTOP" using Suc.prems(6,8) by (simp add: word_le_nat_alt word_less_nat_alt)
  then have ok: "\<not> bad_pa s p" using Suc.prems(4,5) by (simp add: bad_pa_def mod_PGSIZE not_less not_le)
  have "p \<notin> set xs" using Suc.prems(9) by blast
  from free_inv_push [OF Suc.prems(1) ok this] Suc.prems(2,3) ok
  obtain t where t: "kfree p s = Ok () t" "free_inv t (p # xs)" "kunlocked t" "kend t = kend s"
      "pageref t = pageref s"
    by (simp add: kfree_last_run)
  have "p < p + 4096" using p by (simp add: word_less_nat_alt)
  then have lt: "x < p + 4096" if "x \<in> set (p # xs)" for x
    using that Suc.prems(9) [of x] by auto
  have "aligned (p + 4096)" "kend t \<le> p + 4096"
    using Suc.prems(4,5) p \<open>p < p + 4096\<close> by (simp_all add: aligned_unat t(4))
  then have "\<exists>u. freerange_loop (p + 4096) e t = Ok () u \<and>
      free_inv u (rev (pages (p + 4096) k) @ p # xs) \<and> kunlocked u"
    using Suc.prems(3,6,7,8) p lt by (intro Suc.IH t(2,3)) (simp_all add: t(5))
  then show ?case
    using guard t(1) by (subst freerange_loop.simps) (auto simp: run_simps PGSIZE_def pages_Suc)
qed

lemma set_pages:
  assumes "aligned p" "aligned e" "unat p + 4096 * k = unat e"
  shows "set (pages p k) = {x. aligned x \<and> p \<le> x \<and> x < e}"
proof (intro set_eqI iffI)
  fix x assume "x \<in> set (pages p k)"
  then obtain i where i: "i < k" "x = p + 4096 * of_nat i" by (auto simp: pages_def)
  then have "unat x = unat p + 4096 * i"
    using assms(3) unat_bound [of e] by (simp add: unat_word_ariths unat_of_nat)
  with i assms show "x \<in> {x. aligned x \<and> p \<le> x \<and> x < e}"
    by (simp add: aligned_unat word_le_nat_alt word_less_nat_alt)
next
  fix x assume "x \<in> {x. aligned x \<and> p \<le> x \<and> x < e}"
  then have x: "unat x mod 4096 = 0" "unat p \<le> unat x" "unat x < unat e"
    by (simp_all add: aligned_unat word_le_nat_alt word_less_nat_alt)
  define i where "i = (unat x - unat p) div 4096"
  have "unat p mod 4096 = 0" using assms(1) by (simp add: aligned_unat)
  then have "4096 dvd unat x - unat p" using x by (simp add: mod_0_imp_dvd dvd_diff_nat)
  then have e: "unat x = unat p + 4096 * i" using x(2) by (simp add: i_def)
  then have "x = p + 4096 * of_nat i"
    using unat_bound [of x] by (simp add: word_unat_eq_iff unat_word_ariths unat_of_nat)
  moreover have "i < k" using e x(3) assms(3) by simp
  ultimately show "x \<in> set (pages p k)" by (auto simp: pages_def)
qed

lemma PGROUNDUP_le_iff:
  assumes "aligned x" "unat sz + 4095 < 2 ^ 64"
  shows "PGROUNDUP sz \<le> x \<longleftrightarrow> sz \<le> x"
proof -
  have "4096 dvd unat x" using assms(1) by (simp add: aligned_unat mod_0_imp_dvd)
  then obtain j where j: "unat x = j * 4096" by (metis dvd_div_mult_self)
  have "(unat sz + 4095) div 4096 * 4096 \<le> j * 4096 \<longleftrightarrow> (unat sz + 4095) div 4096 < Suc j" by auto
  also have "\<dots> \<longleftrightarrow> unat sz \<le> j * 4096" by (subst div_less_iff_less_mult) auto
  finally have "(unat sz + 4095) div 4096 * 4096 \<le> j * 4096 \<longleftrightarrow> unat sz \<le> j * 4096" .
  then show ?thesis using assms(2) j by (simp add: word_le_nat_alt unat_PGROUNDUP)
qed

text \<open>C27: \<open>kinit\<close> puts every page between the end of the kernel and the top of RAM on the free
  list, each exactly once, and leaves the list well formed.\<close>

theorem kinit_frees_all:
  assumes "kend s \<noteq> 0" "kend s \<le> PHYSTOP" "freelist s = 0"
  shows "\<exists>t xs. kinit s = Ok () t \<and> free_inv t xs \<and> distinct xs \<and> set xs = {pa. \<not> bad_pa s pa}"
proof -
  let ?s = "s\<lparr>held := held s - {KmemLock} - {PagerefLock}, pageref := (\<lambda>_. 0)\<rparr>"
  let ?p = "PGROUNDUP (kend s)"
  have small: "unat (kend s) + 4095 < 2 ^ 64" and stop: "aligned PHYSTOP"
    using assms(2) by (simp_all add: word_le_nat_alt PHYSTOP_def KERNBASE_def aligned_unat)
  then have p: "kend s \<le> ?p" "?p \<le> PHYSTOP"
    using assms(2) PGROUNDUP_le_iff [of ?p "kend s"] PGROUNDUP_le_iff [of PHYSTOP "kend s"] by simp_all
  have "4096 dvd unat PHYSTOP - unat ?p"
    using stop PGROUNDUP_aligned [of "kend s"] by (simp add: aligned_unat mod_0_imp_dvd dvd_diff_nat)
  then obtain k where "unat PHYSTOP - unat ?p = 4096 * k" by (rule dvdE)
  then have k: "unat ?p + 4096 * k = unat PHYSTOP" using p(2) by (simp add: word_le_nat_alt)
  have inv: "free_inv ?s []" "kunlocked ?s"
    using assms by (simp_all add: free_inv_def kunlocked_def)
  have "\<exists>t. freerange_loop ?p PHYSTOP ?s = Ok () t \<and> free_inv t (rev (pages ?p k) @ []) \<and> kunlocked t"
    using p(1) k by (intro freerange_loop_ok inv) simp_all
  then obtain t where t: "freerange_loop ?p PHYSTOP ?s = Ok () t" "free_inv t (rev (pages ?p k))"
    unfolding append_Nil2 by blast
  have "set (pages ?p k) = {x. aligned x \<and> ?p \<le> x \<and> x < PHYSTOP}"
    by (rule set_pages [OF PGROUNDUP_aligned stop k])
  also have "\<dots> = {pa. \<not> bad_pa s pa}"
    using PGROUNDUP_le_iff [OF _ small] by (intro Collect_cong) (metis bad_pa_def mod_PGSIZE not_le)
  finally have "set (pages ?p k) = {pa. \<not> bad_pa s pa}" .
  moreover have "kinit s = Ok () t"
    using t(1) by (simp add: kinit_def initlock_def freerange_def run_simps)
  ultimately show ?thesis using t(2) by (auto simp: free_inv_def)
qed

theorem kinit_frees_all_witness:
  "let s = \<lparr>held = {}, mem = (\<lambda>_. 0), freelist = 0, pageref = (\<lambda>_. 7), kend = 0x80021010\<rparr>
   in kend s \<noteq> 0 \<and> kend s \<le> PHYSTOP \<and> freelist s = 0 \<and>
     (\<exists>t xs. kinit s = Ok () t \<and> free_inv t xs \<and> distinct xs \<and> set xs = {pa. \<not> bad_pa s pa})"
  using kinit_frees_all [of "\<lparr>held = {}, mem = (\<lambda>_. 0), freelist = 0, pageref = (\<lambda>_. 7), kend = 0x80021010\<rparr>"]
  by (simp add: PHYSTOP_def KERNBASE_def)

subsection \<open>Allocation and the last user\<close>

primrec kfree_times :: "nat \<Rightarrow> addr \<Rightarrow> ('z kmem_scheme, unit) km" where
  "kfree_times 0 pa = skip"
| "kfree_times (Suc k) pa = thn (kfree pa) (kfree_times k pa)"

lemma kfree_times_free_n: "kfree_times k pa = kp.free_n k pa"
  by (induction k) simp_all

text \<open>C29: \<open>kalloc\<close> on a well-formed free list returns 0 and changes nothing when the list is empty;
  otherwise it returns the first page of the list, which leaves the list, gets the reference count
  1 and is filled with 5, while every other byte of memory and every other page's count is kept.\<close>

theorem kalloc_spec:
  assumes "free_inv s xs" "kunlocked s"
  shows "case xs of
     [] \<Rightarrow> kalloc s = Ok 0 s
   | x # ys \<Rightarrow> \<exists>t. kalloc s = Ok x t \<and> free_inv t ys \<and> x \<notin> set ys \<and> held t = held s \<and>
       PG_REFCNT t x = 1 \<and> (\<forall>pa. pgof pa \<noteq> pgof x \<longrightarrow> PG_REFCNT t pa = PG_REFCNT s pa) \<and>
       (\<forall>a. mem t a = (if pgof a = pgof x then 5 else mem s a))"
proof (cases xs)
  case Nil
  with assms show ?thesis by (simp add: kalloc_nil)
next
  case (Cons x ys)
  with assms(1) have inv: "free_inv s (x # ys)" by simp
  then have "aligned x" "x \<notin> set ys" using free_inv_aligned [OF inv] by (auto simp: free_inv_def)
  then show ?thesis
    using Cons kalloc_pop [OF inv assms(2)] free_inv_pop [OF inv, where c = 5]
    by (simp add: PG_REFCNT_pgof mfill_page)
qed

theorem kalloc_spec_witness:
  "let s = \<lparr>held = {}, mem = (\<lambda>_. 0), freelist = 0x80100000, pageref = (\<lambda>_. 0), kend = 0x80021010\<rparr>
   in free_inv s [0x80100000] \<and> kunlocked s \<and>
     (\<exists>t. kalloc s = Ok 0x80100000 t \<and> free_inv t [] \<and> PG_REFCNT t 0x80100000 = 1)"
proof -
  let ?s = "\<lparr>held = {}, mem = (\<lambda>_. 0), freelist = 0x80100000, pageref = (\<lambda>_. 0), kend = 0x80021010\<rparr>"
  have "free_inv ?s [0x80100000]" "kunlocked ?s"
    by (simp_all add: free_inv_def kunlocked_def bad_pa_def PHYSTOP_def KERNBASE_def PGSIZE_def
        load64_def mload_def upt_conv_Cons)
  with kalloc_spec [of ?s "[0x80100000]"] show ?thesis by auto
qed

text \<open>C4: a page that \<open>k + 1\<close> users share stays allocated through the first \<open>k\<close> calls of \<open>kfree\<close>
  and is put on the free list by the \<open>(k + 1)\<close>-st: no page in use is ever handed out, and the last
  release does not leak it.\<close>

theorem kfree_last_user:
  assumes "free_inv s xs" "kunlocked s" "\<not> bad_pa s pa" "pa \<notin> set xs" "PG_REFCNT s pa = int (Suc k)"
  shows "(\<exists>t. kfree_times k pa s = Ok () t \<and> free_inv t xs \<and> PG_REFCNT t pa = 1) \<and>
         (\<exists>t. kfree_times (Suc k) pa s = Ok () t \<and> free_inv t (pa # xs))"
proof -
  from assms(5) have u: "users s pa = int (Suc k)" by (simp add: users_def PG_REFCNT_pgof)
  then have "int k < users s pa" by simp
  from kp.free_n_shared [OF assms(1,2) _ this] kp.free_n_last [OF assms(1,2) _ assms(4) u] u assms(3)
  show ?thesis unfolding kfree_times_free_n by (auto simp: users_def PG_REFCNT_pgof simp del: kp.free_n.simps)
qed

theorem kfree_last_user_witness:
  "let s = \<lparr>held = {}, mem = (\<lambda>_. 0), freelist = 0, pageref = (\<lambda>_. 3), kend = 0x80021010\<rparr>
   in free_inv s [] \<and> kunlocked s \<and> \<not> bad_pa s 0x80100000 \<and> PG_REFCNT s 0x80100000 = int (Suc 2) \<and>
     (\<exists>t. kfree_times 2 0x80100000 s = Ok () t \<and> free_inv t []) \<and>
     (\<exists>t. kfree_times 3 0x80100000 s = Ok () t \<and> free_inv t [0x80100000])"
proof -
  let ?s = "\<lparr>held = {}, mem = (\<lambda>_. 0), freelist = 0, pageref = (\<lambda>_. 3), kend = 0x80021010\<rparr>"
  have "free_inv ?s []" "kunlocked ?s" "\<not> bad_pa ?s 0x80100000" "PG_REFCNT ?s 0x80100000 = int (Suc 2)"
    by (simp_all add: free_inv_def kunlocked_def bad_pa_def PHYSTOP_def KERNBASE_def PGSIZE_def PG_REFCNT_def)
  with kfree_last_user [where s = ?s and xs = "[]" and pa = "0x80100000" and k = 2] show ?thesis
    unfolding numeral_3_eq_3 by (auto simp: numeral_2_eq_2 simp del: kfree_times.simps)
qed

end
