(* ===== verification/Vm.thy ===== *)
theory Vm
  imports Kmem
begin

text \<open>
  \<^verbatim>\<open>kernel/vm.c\<close>: three-level Sv39 page tables, kept in byte memory exactly as the hardware reads
  them.  A page table is the address of its root page; an entry is a 64-bit word.  This theory has
  the operations that build, change and free page tables; theory \<open>PageTable\<close> has their invariant
  and theory \<open>Cow\<close> the properties of copy-on-write.

  C's \<open>-1\<close> and \<open>0\<close> results are integers; a null page-table or entry pointer is the address 0.  A loop
  that calls \<open>walk\<close> on an address at or above \<open>MAXVA\<close> stops in its panic; the loops below repeat
  that test so that they are seen to end.
\<close>

subsection \<open>Walking a page table\<close>

definition ld64 :: "addr \<Rightarrow> ('z kmem_scheme, uint64) km" where
  "ld64 p = gets (\<lambda>s. load64 (mem s) p)"

definition st64 :: "addr \<Rightarrow> uint64 \<Rightarrow> ('z kmem_scheme, unit) km" where
  "st64 p v = modify (\<lambda>s. s\<lparr>mem := store64 (mem s) p v\<rparr>)"

primrec walk_loop :: "nat \<Rightarrow> addr \<Rightarrow> addr \<Rightarrow> bool \<Rightarrow> ('z kmem_scheme, addr) km" where
  "walk_loop 0 pagetable va alloc = ret (pagetable + 8 * PX 0 va)"
| "walk_loop (Suc l) pagetable va alloc =
     (let pte = pagetable + 8 * PX (Suc l) va in
      bind (ld64 pte) (\<lambda>e.
      if e AND PTE_V \<noteq> 0 then walk_loop l (PTE2PA e) va alloc
      else if \<not> alloc then ret 0
      else bind kalloc (\<lambda>p.
        if p = 0 then ret 0
        else thn (kmemset p 0 (ucast PGSIZE))
            (thn (st64 pte (PA2PTE p OR PTE_V))
                 (walk_loop l p va alloc)))))"

definition walk :: "addr \<Rightarrow> addr \<Rightarrow> bool \<Rightarrow> ('z kmem_scheme, addr) km" where
  "walk pagetable va alloc =
     thn (panic_if (va \<ge> MAXVA) ''walk'') (walk_loop 2 pagetable va alloc)"

definition walkaddr :: "addr \<Rightarrow> addr \<Rightarrow> ('z kmem_scheme, addr) km" where
  "walkaddr pagetable va =
     (if va \<ge> MAXVA then ret 0
      else bind (walk pagetable va False) (\<lambda>pte.
        if pte = 0 then ret 0
        else bind (ld64 pte) (\<lambda>e.
          if e AND PTE_V = 0 then ret 0
          else if e AND PTE_U = 0 then ret 0
          else ret (PTE2PA e))))"

subsection \<open>Adding and removing mappings\<close>

lemma page_step_less:
  assumes "\<not> MAXVA \<le> a"
  shows "unat MAXVA - unat (a + PGSIZE) < unat MAXVA - unat a"
proof -
  have "unat a < 2 ^ 38" using assms by (simp add: MAXVA_def word_le_nat_alt)
  then show ?thesis by (simp add: MAXVA_def PGSIZE_def unat_word_ariths)
qed

function mappages_loop :: "addr \<Rightarrow> addr \<Rightarrow> addr \<Rightarrow> addr \<Rightarrow> uint64 \<Rightarrow> ('z kmem_scheme, int) km" where
  "mappages_loop pagetable a lst pa perm =
     (if a \<ge> MAXVA then panic ''walk''
      else bind (walk pagetable a True) (\<lambda>pte.
        if pte = 0 then ret (-1)
        else bind (ld64 pte) (\<lambda>e.
          thn (panic_if (e AND PTE_V \<noteq> 0) ''mappages: remap'')
         (thn (st64 pte (PA2PTE pa OR perm OR PTE_V))
              (if a = lst then ret 0
               else mappages_loop pagetable (a + PGSIZE) lst (pa + PGSIZE) perm)))))"
  by pat_completeness auto
termination
  by (relation "measure (\<lambda>(pt, a, lst, pa, perm). unat MAXVA - unat a)") (auto simp: page_step_less)

declare mappages_loop.simps [simp del]

definition mappages :: "addr \<Rightarrow> addr \<Rightarrow> uint64 \<Rightarrow> addr \<Rightarrow> uint64 \<Rightarrow> ('z kmem_scheme, int) km" where
  "mappages pagetable va sz pa perm =
     thn (panic_if (sz = 0) ''mappages: size'')
         (mappages_loop pagetable (PGROUNDDOWN va) (PGROUNDDOWN (va + sz - 1)) pa perm)"

function uvmunmap_loop :: "addr \<Rightarrow> addr \<Rightarrow> addr \<Rightarrow> bool \<Rightarrow> ('z kmem_scheme, unit) km" where
  "uvmunmap_loop pagetable a lst do_free =
     (if \<not> a < lst then skip
      else if a \<ge> MAXVA then panic ''walk''
      else bind (walk pagetable a False) (\<lambda>pte.
        thn (panic_if (pte = 0) ''uvmunmap: walk'')
       (bind (ld64 pte) (\<lambda>e.
        thn (panic_if (e AND PTE_V = 0) ''uvmunmap: not mapped'')
       (thn (panic_if (PTE_FLAGS e = PTE_V) ''uvmunmap: not a leaf'')
       (thn (if do_free then kfree (PTE2PA e) else skip)
       (thn (st64 pte 0)
            (uvmunmap_loop pagetable (a + PGSIZE) lst do_free))))))))"
  by pat_completeness auto
termination
  by (relation "measure (\<lambda>(pt, a, lst, f). unat MAXVA - unat a)") (auto simp: page_step_less)

declare uvmunmap_loop.simps [simp del]

definition uvmunmap :: "addr \<Rightarrow> addr \<Rightarrow> uint64 \<Rightarrow> bool \<Rightarrow> ('z kmem_scheme, unit) km" where
  "uvmunmap pagetable va npages do_free =
     thn (panic_if (va mod PGSIZE \<noteq> 0) ''uvmunmap: not aligned'')
         (uvmunmap_loop pagetable va (va + npages * PGSIZE) do_free)"

subsection \<open>User address spaces\<close>

definition uvmcreate :: "('z kmem_scheme, addr) km" where
  "uvmcreate =
     bind kalloc (\<lambda>pagetable.
     if pagetable = 0 then ret 0
     else thn (kmemset pagetable 0 (ucast PGSIZE)) (ret pagetable))"

definition kmemmove :: "addr \<Rightarrow> addr \<Rightarrow> uint \<Rightarrow> ('z kmem_scheme, unit) km" where
  "kmemmove dst src n = modify (\<lambda>s. s\<lparr>mem := memmove (mem s) dst src n\<rparr>)"

definition uvmfirst :: "addr \<Rightarrow> addr \<Rightarrow> uint \<Rightarrow> ('z kmem_scheme, unit) km" where
  "uvmfirst pagetable src sz =
     thn (panic_if (sz \<ge> ucast PGSIZE) ''uvmfirst: more than a page'')
    (bind kalloc (\<lambda>p.
     thn (kmemset p 0 (ucast PGSIZE))
    (thn (mappages pagetable 0 PGSIZE p (PTE_W OR PTE_R OR PTE_X OR PTE_U))
         (kmemmove p src sz))))"

text \<open>\<open>npages\<close> is an \<^verbatim>\<open>int\<close>: 32 bits, sign-extended when it becomes the \<^verbatim>\<open>uint64\<close> argument.\<close>

definition uvmdealloc :: "addr \<Rightarrow> uint64 \<Rightarrow> uint64 \<Rightarrow> ('z kmem_scheme, uint64) km" where
  "uvmdealloc pagetable oldsz newsz =
     (if newsz \<ge> oldsz then ret oldsz
      else thn (if PGROUNDUP newsz < PGROUNDUP oldsz
                then let npages = ucast ((PGROUNDUP oldsz - PGROUNDUP newsz) div PGSIZE) :: uint
                     in uvmunmap pagetable (PGROUNDUP newsz) (scast npages) True
                else skip)
               (ret newsz))"

text \<open>The loop of \<open>uvmalloc\<close>; \<open>base\<close> is the rounded old size.\<close>

function uvmalloc_loop :: "addr \<Rightarrow> addr \<Rightarrow> uint64 \<Rightarrow> uint64 \<Rightarrow> uint64 \<Rightarrow> ('z kmem_scheme, uint64) km" where
  "uvmalloc_loop pagetable a base newsz xperm =
     (if \<not> a < newsz then ret newsz
      else bind kalloc (\<lambda>p.
        if p = 0 then thn (uvmdealloc pagetable a base) (ret 0)
        else thn (kmemset p 0 (ucast PGSIZE))
            (if a \<ge> MAXVA then panic ''walk''
             else bind (mappages pagetable a PGSIZE p (PTE_R OR PTE_U OR xperm)) (\<lambda>r.
               if r \<noteq> 0 then thn (kfree p) (thn (uvmdealloc pagetable a base) (ret 0))
               else uvmalloc_loop pagetable (a + PGSIZE) base newsz xperm))))"
  by pat_completeness auto
termination
  by (relation "measure (\<lambda>(pt, a, b, n, x). unat MAXVA - unat a)") (auto simp: page_step_less)

declare uvmalloc_loop.simps [simp del]

definition uvmalloc :: "addr \<Rightarrow> uint64 \<Rightarrow> uint64 \<Rightarrow> uint64 \<Rightarrow> ('z kmem_scheme, uint64) km" where
  "uvmalloc pagetable oldsz newsz xperm =
     (if newsz < oldsz then ret oldsz
      else uvmalloc_loop pagetable (PGROUNDUP oldsz) (PGROUNDUP oldsz) newsz xperm)"

text \<open>\<open>freewalk\<close> recurses into the children of a table page.  In C the depth of the recursion is that
  of the tree, at most two below the root; \<open>d\<close> bounds it here.  The loop runs over the slots
  \<open>512 - k, \<dots>, 511\<close>.\<close>

fun freewalk_loop :: "nat \<Rightarrow> nat \<Rightarrow> addr \<Rightarrow> ('z kmem_scheme, unit) km" where
  "freewalk_loop d 0 pagetable = kfree pagetable"
| "freewalk_loop d (Suc k) pagetable =
     (let slot = pagetable + 8 * of_nat (511 - k) in
      bind (ld64 slot) (\<lambda>pte.
      if pte AND PTE_V \<noteq> 0 \<and> pte AND (PTE_R OR PTE_W OR PTE_X) = 0
      then (case d of
          0 \<Rightarrow> panic ''freewalk: depth''
        | Suc d' \<Rightarrow> thn (freewalk_loop d' 512 (PTE2PA pte))
                  (thn (st64 slot 0) (freewalk_loop d k pagetable)))
      else thn (panic_if (pte AND PTE_V \<noteq> 0) ''freewalk: leaf'') (freewalk_loop d k pagetable)))"

definition freewalk :: "addr \<Rightarrow> ('z kmem_scheme, unit) km" where
  "freewalk pagetable = freewalk_loop 2 512 pagetable"

definition uvmfree :: "addr \<Rightarrow> uint64 \<Rightarrow> ('z kmem_scheme, unit) km" where
  "uvmfree pagetable sz =
     thn (if sz > 0 then uvmunmap pagetable 0 (PGROUNDUP sz div PGSIZE) True else skip)
         (freewalk pagetable)"

definition uvmclear :: "addr \<Rightarrow> addr \<Rightarrow> ('z kmem_scheme, unit) km" where
  "uvmclear pagetable va =
     bind (walk pagetable va False) (\<lambda>pte.
     thn (panic_if (pte = 0) ''uvmclear'')
    (bind (ld64 pte) (\<lambda>e. st64 pte (e AND NOT PTE_U))))"

subsection \<open>The kernel's own page table\<close>

text \<open>\<open>etext\<close> and \<open>trampoline\<close> are linker symbols; \<open>satp\<close> is the register of the executing hart.\<close>

record kvm = kmem +
  kernel_pagetable :: addr
  satp :: uint64
  etext :: addr
  trampoline :: addr

definition UART0 :: addr where "UART0 = 0x10000000"
definition VIRTIO0 :: addr where "VIRTIO0 = 0x10001000"
definition PLIC :: addr where "PLIC = 0x0c000000"

definition kvmmap :: "addr \<Rightarrow> addr \<Rightarrow> addr \<Rightarrow> uint64 \<Rightarrow> uint64 \<Rightarrow> ('z kmem_scheme, unit) km" where
  "kvmmap kpgtbl va pa sz perm =
     bind (mappages kpgtbl va sz pa perm) (\<lambda>r. panic_if (r \<noteq> 0) ''kvmmap'')"

primrec proc_mapstacks_loop :: "nat \<Rightarrow> addr \<Rightarrow> ('z kmem_scheme, unit) km" where
  "proc_mapstacks_loop 0 kpgtbl = skip"
| "proc_mapstacks_loop (Suc k) kpgtbl =
     bind kalloc (\<lambda>pa.
     thn (panic_if (pa = 0) ''kalloc'')
    (thn (kvmmap kpgtbl (KSTACK (NPROC - Suc k)) pa PGSIZE (PTE_R OR PTE_W))
         (proc_mapstacks_loop k kpgtbl)))"

definition proc_mapstacks :: "addr \<Rightarrow> ('z kmem_scheme, unit) km" where
  "proc_mapstacks kpgtbl = proc_mapstacks_loop NPROC kpgtbl"

definition kvmmake :: "('z kvm_scheme, addr) km" where
  "kvmmake =
     bind kalloc (\<lambda>kpgtbl.
     thn (kmemset kpgtbl 0 (ucast PGSIZE))
    (thn (kvmmap kpgtbl UART0 UART0 PGSIZE (PTE_R OR PTE_W))
    (thn (kvmmap kpgtbl VIRTIO0 VIRTIO0 PGSIZE (PTE_R OR PTE_W))
    (thn (kvmmap kpgtbl PLIC PLIC 0x400000 (PTE_R OR PTE_W))
    (bind (gets etext) (\<lambda>e.
     thn (kvmmap kpgtbl KERNBASE KERNBASE (e - KERNBASE) (PTE_R OR PTE_X))
    (thn (kvmmap kpgtbl e e (PHYSTOP - e) (PTE_R OR PTE_W))
    (bind (gets trampoline) (\<lambda>tr.
     thn (kvmmap kpgtbl TRAMPOLINE tr PGSIZE (PTE_R OR PTE_X))
    (thn (proc_mapstacks kpgtbl)
         (ret kpgtbl)))))))))))"

definition kvminit :: "('z kvm_scheme, unit) km" where
  "kvminit = bind kvmmake (\<lambda>p. modify (\<lambda>s. s\<lparr>kernel_pagetable := p\<rparr>))"

text \<open>The fences around the register write order it with the page-table stores, which are already in
  order here.\<close>

definition kvminithart :: "('z kvm_scheme, unit) km" where
  "kvminithart = modify (\<lambda>s. s\<lparr>satp := MAKE_SATP (kernel_pagetable s)\<rparr>)"

end
