(* ===== verification/PageTable.thy ===== *)
theory PageTable
  imports Vm
begin

text \<open>
  The invariant of the page tables in memory.  Every physical page has one role: it is free, it is
  the table page at one place of one page table, it holds user memory, or the kernel uses it for
  something else.  \<open>pt_inv\<close> says that the free list, the entries of all table pages and the roles
  agree; in particular no page is at two places of the page tables.  \<open>pte_at\<close> reads the leaf entry
  of a virtual address, which is what page tables mean; the lemmas say what \<open>walk\<close> and a store
  through its result do to it.
\<close>

subsection \<open>Roles of pages\<close>

text \<open>\<open>Node pt is\<close> is the page of the table \<open>pt\<close> that the index path \<open>is\<close> leads to; the path lists the
  last index first, so the root has the path \<open>[]\<close> and the leaf tables have paths of length 2.\<close>

datatype role = Free | Node addr "uint64 list" | User | Kern

type_synonym roles = "addr \<Rightarrow> role"

abbreviation plain :: "role \<Rightarrow> bool" where
  "plain r \<equiv> r = User \<or> r = Kern"

abbreviation leafpath :: "addr \<Rightarrow> uint64 list" where
  "leafpath va \<equiv> [PX 1 va, PX 2 va]"

fun linked :: "memory \<Rightarrow> roles \<Rightarrow> addr \<Rightarrow> addr \<Rightarrow> uint64 list \<Rightarrow> bool" where
  "linked m \<Gamma> q pt [] \<longleftrightarrow> q = pt"
| "linked m \<Gamma> q pt (i # is) \<longleftrightarrow> unat i < 512 \<and>
     (\<exists>p. \<Gamma> p = Node pt is \<and> load64 m (p + 8 * i) = PA2PTE q OR PTE_V)"

definition node_ok :: "'z kmem_scheme \<Rightarrow> roles \<Rightarrow> addr \<Rightarrow> addr \<Rightarrow> uint64 list \<Rightarrow> bool" where
  "node_ok s \<Gamma> q pt is \<longleftrightarrow> \<not> bad_pa s q \<and> pageref s (pgof q) = 1 \<and> length is \<le> 2 \<and>
     linked (mem s) \<Gamma> q pt is \<and>
     (length is < 2 \<longrightarrow> (\<forall>i. unat i < 512 \<longrightarrow> load64 (mem s) (q + 8 * i) AND PTE_V \<noteq> 0 \<longrightarrow>
        \<Gamma> (PTE2PA (load64 (mem s) (q + 8 * i))) = Node pt (i # is) \<and>
        load64 (mem s) (q + 8 * i) AND (PTE_R OR PTE_W OR PTE_X) = 0))"

definition pt_inv :: "'z kmem_scheme \<Rightarrow> roles \<Rightarrow> addr list \<Rightarrow> bool" where
  "pt_inv s \<Gamma> xs \<longleftrightarrow> free_inv s xs \<and> kunlocked s \<and> (\<forall>q. \<Gamma> q = Free \<longleftrightarrow> q \<in> set xs) \<and>
     (\<forall>q pt is. \<Gamma> q = Node pt is \<longrightarrow> node_ok s \<Gamma> q pt is)"

text \<open>The leaf entry for a virtual address; 0, an invalid entry, where the table has no leaf page.\<close>

primrec pte_lv :: "nat \<Rightarrow> memory \<Rightarrow> addr \<Rightarrow> addr \<Rightarrow> uint64" where
  "pte_lv 0 m q va = load64 m (q + 8 * PX 0 va)"
| "pte_lv (Suc l) m q va =
     (let e = load64 m (q + 8 * PX (Suc l) va)
      in if e AND PTE_V \<noteq> 0 then pte_lv l m (PTE2PA e) va else 0)"

definition pte_at :: "memory \<Rightarrow> addr \<Rightarrow> addr \<Rightarrow> uint64" where
  "pte_at m pt va = pte_lv 2 m pt va"

subsection \<open>Reading the invariant\<close>

lemma pt_invD:
  assumes "pt_inv s \<Gamma> xs"
  shows "free_inv s xs" "kunlocked s" "\<Gamma> q = Free \<longleftrightarrow> q \<in> set xs"
    and "\<Gamma> q = Node pt is \<Longrightarrow> node_ok s \<Gamma> q pt is"
  using assms by (auto simp: pt_inv_def)

lemma nodeD:
  assumes "pt_inv s \<Gamma> xs" "\<Gamma> q = Node pt is"
  shows "\<not> bad_pa s q" "aligned q" "pageref s (pgof q) = 1" "length is \<le> 2"
    "linked (mem s) \<Gamma> q pt is"
  using pt_invD(4) [OF assms] by (auto simp: node_ok_def intro: valid_pa_aligned)

lemma node_entry:
  assumes "pt_inv s \<Gamma> xs" "\<Gamma> q = Node pt is" "length is < 2" "unat i < 512"
    and "load64 (mem s) (q + 8 * i) AND PTE_V \<noteq> 0"
  shows "\<Gamma> (PTE2PA (load64 (mem s) (q + 8 * i))) = Node pt (i # is)"
    and "load64 (mem s) (q + 8 * i) AND (PTE_R OR PTE_W OR PTE_X) = 0"
  using pt_invD(4) [OF assms(1,2)] assms(3-5) by (auto simp: node_ok_def)

lemma free_roleD:
  assumes "pt_inv s \<Gamma> xs" "\<Gamma> q = Free"
  shows "\<not> bad_pa s q" "aligned q"
  using assms by (auto simp: pt_inv_def free_inv_def intro: valid_pa_aligned)

lemma V_flag [simp]: "take_bit 10 PTE_V = PTE_V"
  by (simp add: PTE_V_def take_bit_eq_mod)

lemma PTE2PA_V [simp]: "aligned q \<Longrightarrow> PTE2PA (PA2PTE q OR PTE_V) = q"
  by (simp add: PTE2PA_PA2PTE)

lemma and_V_or [simp]: "(x OR PTE_V) AND PTE_V \<noteq> 0"
proof
  assume "(x OR PTE_V) AND PTE_V = 0"
  then have "\<not> bit ((x OR PTE_V) AND PTE_V) 0" by simp
  then show False by (simp add: PTE_V_def bit_simps)
qed

lemma PA2PTE_flags: "take_bit 10 k = k \<Longrightarrow> (PA2PTE x OR f) AND k = f AND k"
  by (rule bit_word_eqI) (auto simp: pte_bit_simps take_bit_self_bit not_le)

lemma V_nonzero [simp]: "PTE_V \<noteq> 0"
  by (simp add: PTE_V_def)

text \<open>There is at most one page at each place of a page table.\<close>

lemma node_unique:
  assumes inv: "pt_inv s \<Gamma> xs"
  shows "\<Gamma> q = Node pt is \<Longrightarrow> \<Gamma> r = Node pt is \<Longrightarrow> q = r"
proof (induction "is" arbitrary: q r)
  case Nil
  then show ?case using nodeD(5) [OF inv Nil(1)] nodeD(5) [OF inv Nil(2)] by simp
next
  case (Cons i "is")
  from nodeD(5) [OF inv Cons.prems(1)] obtain p
    where p: "\<Gamma> p = Node pt is" "load64 (mem s) (p + 8 * i) = PA2PTE q OR PTE_V" by auto
  from nodeD(5) [OF inv Cons.prems(2)] obtain p'
    where p': "\<Gamma> p' = Node pt is" "load64 (mem s) (p' + 8 * i) = PA2PTE r OR PTE_V" by auto
  have "p = p'" using p(1) p'(1) by (rule Cons.IH)
  then have "PA2PTE q OR PTE_V = PA2PTE r OR PTE_V" using p(2) p'(2) by simp
  moreover have "aligned q" "aligned r" using nodeD(2) [OF inv] Cons.prems by blast+
  ultimately show "q = r" by (metis PTE2PA_V)
qed

lemma pte_at_unfold:
  "pte_at m pt va = (let e2 = load64 m (pt + 8 * PX 2 va); e1 = load64 m (PTE2PA e2 + 8 * PX 1 va)
     in if e2 AND PTE_V = 0 \<or> e1 AND PTE_V = 0 then 0 else load64 m (PTE2PA e1 + 8 * PX 0 va))"
  by (simp add: pte_at_def numeral_2_eq_2 Let_def)

lemma pte_at_reach:
  assumes inv: "pt_inv s \<Gamma> xs" and r: "\<Gamma> r = Node pt (leafpath va)"
  shows "pte_at (mem s) pt va = load64 (mem s) (r + 8 * PX 0 va)"
proof -
  from nodeD(5) [OF inv r] obtain p
    where p: "\<Gamma> p = Node pt [PX 2 va]" "load64 (mem s) (p + 8 * PX 1 va) = PA2PTE r OR PTE_V" by auto
  from nodeD(5) [OF inv p(1)] obtain q
    where q: "\<Gamma> q = Node pt []" "load64 (mem s) (q + 8 * PX 2 va) = PA2PTE p OR PTE_V" by auto
  have "q = pt" using nodeD(5) [OF inv q(1)] by simp
  with p q nodeD(2) [OF inv r] nodeD(2) [OF inv p(1)]
  show ?thesis by (simp add: pte_at_unfold)
qed

lemma pte_at_none:
  assumes inv: "pt_inv s \<Gamma> xs" and pt: "\<Gamma> pt = Node pt []" and no: "\<And>r. \<Gamma> r \<noteq> Node pt (leafpath va)"
  shows "pte_at (mem s) pt va = 0"
proof (rule ccontr)
  let ?e = "load64 (mem s) (pt + 8 * PX 2 va)"
  let ?f = "load64 (mem s) (PTE2PA ?e + 8 * PX 1 va)"
  assume "pte_at (mem s) pt va \<noteq> 0"
  then have v: "?e AND PTE_V \<noteq> 0" "?f AND PTE_V \<noteq> 0"
    by (auto simp: pte_at_unfold Let_def split: if_splits)
  have "\<Gamma> (PTE2PA ?e) = Node pt [PX 2 va]"
    using node_entry(1) [OF inv pt _ PX_lt v(1)] by simp
  from node_entry(1) [OF inv this _ PX_lt v(2)] no show False by simp
qed

subsection \<open>Frames\<close>

lemma pgof_base [simp]: "pgof (PGROUNDDOWN a) = pgof a"
  by (rule bit_word_eqI) (simp add: pgof_bit PGROUNDDOWN_bit)

lemma base_eq: "aligned q \<Longrightarrow> PGROUNDDOWN a = q \<longleftrightarrow> pgof a = pgof q"
  using pgof_inj [of "PGROUNDDOWN a" q] by auto

text \<open>An invariant that holds of a state holds of every state that agrees on the free and the table
  pages.\<close>

lemma load64_role:
  assumes "aligned q" "unat i < 512" "\<not> plain (\<Gamma> q)"
    and "\<And>a. \<not> plain (\<Gamma> (PGROUNDDOWN a)) \<Longrightarrow> m' a = m a"
  shows "load64 m' (q + 8 * i) = load64 m (q + 8 * i)"
proof (rule load64_slot_frame [OF assms(1,2)])
  fix x assume "pgof x = pgof q"
  then have "PGROUNDDOWN x = q" using assms(1) by (simp add: base_eq)
  then show "m' x = m x" using assms(3) by (intro assms(4)) simp
qed

lemma linked_cong:
  assumes "\<And>p i pt is. \<Gamma> p = Node pt is \<Longrightarrow> unat i < 512 \<Longrightarrow> load64 m' (p + 8 * i) = load64 m (p + 8 * i)"
  shows "linked m' \<Gamma> q pt is = linked m \<Gamma> q pt is"
  by (cases "is") (auto simp: assms)

lemma pt_inv_frame:
  assumes inv: "pt_inv s \<Gamma> xs" and same: "freelist t = freelist s" "kend t = kend s" "held t = held s"
    and ref: "\<And>q pt is. \<Gamma> q = Node pt is \<Longrightarrow> pageref t (pgof q) = pageref s (pgof q)"
    and m: "\<And>a. \<not> plain (\<Gamma> (PGROUNDDOWN a)) \<Longrightarrow> mem t a = mem s a"
  shows "pt_inv t \<Gamma> xs"
proof -
  have ld: "load64 (mem t) (q + 8 * i) = load64 (mem s) (q + 8 * i)"
    if "\<Gamma> q = Node pt is" "unat i < 512" for q i pt "is"
    using that nodeD(2) [OF inv that(1)] m by (intro load64_role [where \<Gamma> = \<Gamma>]) auto
  have bad: "bad_pa t = bad_pa s" using same by (simp add: bad_pa_def fun_eq_iff)
  have "free_inv t xs"
  proof (rule free_inv_frame [OF pt_invD(1) [OF inv] same(1,2)])
    fix x a assume x: "x \<in> set xs" "pgof a = pgof x"
    then have "\<Gamma> x = Free" "aligned x" using pt_invD(3) [OF inv] free_roleD(2) [OF inv] by auto
    then show "mem t a = mem s a" using m [of a] x(2) base_eq [of x a] by auto
  qed
  moreover have "kunlocked t" using pt_invD(2) [OF inv] same(3) by (simp add: kunlocked_def)
  moreover have "node_ok t \<Gamma> q pt is" if q: "\<Gamma> q = Node pt is" for q pt "is"
  proof -
    have "linked (mem t) \<Gamma> q pt is = linked (mem s) \<Gamma> q pt is" by (rule linked_cong) (rule ld)
    then show ?thesis using pt_invD(4) [OF inv q] ref [OF q] by (simp add: node_ok_def bad ld [OF q])
  qed
  ultimately show ?thesis using pt_invD(3) [OF inv] by (simp add: pt_inv_def)
qed

lemma linked_role:
  assumes "linked m \<Gamma> q pt is" "\<And>p pt is. \<Gamma> p = Node pt is \<Longrightarrow> \<Delta> p = Node pt is"
  shows "linked m \<Delta> q pt is"
  using assms by (cases "is") auto

lemma pt_inv_role:
  assumes inv: "pt_inv s \<Gamma> xs" and "\<And>p. plain (\<Gamma> p) \<Longrightarrow> plain (\<Delta> p)" "\<And>p. \<not> plain (\<Gamma> p) \<Longrightarrow> \<Delta> p = \<Gamma> p"
  shows "pt_inv s \<Delta> xs"
proof -
  have free: "\<Delta> p = Free \<longleftrightarrow> \<Gamma> p = Free" and node: "\<Delta> p = Node pt is \<longleftrightarrow> \<Gamma> p = Node pt is" for p pt "is"
    using assms(2,3) [of p] by (cases "\<Gamma> p"; auto)+
  have "node_ok s \<Delta> q pt is" if "\<Gamma> q = Node pt is" for q pt "is"
    using pt_invD(4) [OF inv that] linked_role [of "mem s" \<Gamma> q pt "is" \<Delta>] node
    by (auto simp: node_ok_def)
  then show ?thesis using inv by (simp add: pt_inv_def free node)
qed

lemma load64_node:
  assumes inv: "pt_inv s \<Gamma> xs" and p: "\<Gamma> p = Node pt is" and i: "unat i < 512"
    and m: "\<And>a pt is. \<Gamma> (PGROUNDDOWN a) = Node pt is \<Longrightarrow> m' a = mem s a"
  shows "load64 m' (p + 8 * i) = load64 (mem s) (p + 8 * i)"
proof (rule load64_slot_frame [OF nodeD(2) [OF inv p] i])
  fix x assume "pgof x = pgof p"
  then have "PGROUNDDOWN x = p" using nodeD(2) [OF inv p] by (simp add: base_eq)
  then show "m' x = mem s x" using p by (intro m) simp
qed

lemma pte_at_frame:
  assumes inv: "pt_inv s \<Gamma> xs" and inv': "pt_inv t \<Delta> ys" and pt: "\<Gamma> pt = Node pt []"
    and \<Delta>: "\<And>q is. \<Delta> q = Node pt is \<longleftrightarrow> \<Gamma> q = Node pt is"
    and m: "\<And>a pt is. \<Gamma> (PGROUNDDOWN a) = Node pt is \<Longrightarrow> mem t a = mem s a"
  shows "pte_at (mem t) pt va = pte_at (mem s) pt va"
proof (cases "\<exists>r. \<Gamma> r = Node pt (leafpath va)")
  case True
  then obtain r where r: "\<Gamma> r = Node pt (leafpath va)" by blast
  have "load64 (mem t) (r + 8 * PX 0 va) = load64 (mem s) (r + 8 * PX 0 va)"
    by (rule load64_node [OF inv r PX_lt m])
  then show ?thesis using pte_at_reach [OF inv r] pte_at_reach [OF inv', of r] r \<Delta> by simp
next
  case False
  then show ?thesis using pte_at_none [OF inv pt] pte_at_none [OF inv', of pt] pt \<Delta> by simp
qed

subsection \<open>Stores into table pages\<close>

text \<open>Operations on page tables and pages change the memory, the free list and the reference counts
  and nothing else of the kernel state.\<close>

definition vm_upd :: "'z kmem_scheme \<Rightarrow> 'z kmem_scheme \<Rightarrow> bool" where
  "vm_upd s t \<longleftrightarrow> t = s\<lparr>mem := mem t, freelist := freelist t, pageref := pageref t\<rparr>"

lemma vm_updI [intro]:
  "vm_upd s s" "vm_upd s (s\<lparr>mem := m\<rparr>)" "vm_upd s (s\<lparr>pageref := r\<rparr>)"
  "vm_upd s (s\<lparr>mem := m, freelist := f\<rparr>)" "vm_upd s (s\<lparr>mem := m, freelist := f, pageref := r\<rparr>)"
  by (simp_all add: vm_upd_def)

lemma vm_upd_trans:
  assumes "vm_upd s t" "vm_upd t u"
  shows "vm_upd s u"
proof -
  have "u = t\<lparr>mem := mem u, freelist := freelist u, pageref := pageref u\<rparr>"
    using assms(2) by (simp add: vm_upd_def)
  also have "\<dots> = s\<lparr>mem := mem u, freelist := freelist u, pageref := pageref u\<rparr>"
    by (subst assms(1) [unfolded vm_upd_def]) simp
  finally show ?thesis by (simp add: vm_upd_def)
qed

lemma vm_updD:
  assumes "vm_upd s t"
  shows "held t = held s" "kend t = kend s" "bad_pa t = bad_pa s" "kunlocked t = kunlocked s"
proof -
  obtain m f r where t: "t = s\<lparr>mem := m, freelist := f, pageref := r\<rparr>"
    using assms unfolding vm_upd_def by blast
  show "held t = held s" "kend t = kend s" "bad_pa t = bad_pa s" "kunlocked t = kunlocked s"
    by (simp_all add: t)
qed

lemma store_node_load:
  assumes inv: "pt_inv s \<Gamma> xs" and "\<Gamma> r = Node pt is" "\<Gamma> q = Node pt' is'" "unat i < 512" "unat j < 512"
  shows "load64 (store64 (mem s) (r + 8 * i) v) (q + 8 * j) =
         (if q = r \<and> j = i then v else load64 (mem s) (q + 8 * j))"
  using assms nodeD(2) [OF inv assms(2)] nodeD(2) [OF inv assms(3)]
  by (cases "q = r") (auto simp: mem_simps)

lemma store_node_free:
  assumes inv: "pt_inv s \<Gamma> xs" and r: "\<Gamma> r = Node pt is" "unat i < 512"
  shows "free_inv (s\<lparr>mem := store64 (mem s) (r + 8 * i) v\<rparr>) xs"
proof (rule free_inv_frame [OF pt_invD(1) [OF inv]])
  fix x a assume x: "x \<in> set xs" "pgof a = pgof x"
  then have "\<Gamma> x = Free" "aligned x" using pt_invD(3) [OF inv] free_roleD(2) [OF inv] by auto
  moreover have "aligned r" by (rule nodeD(2) [OF inv r(1)])
  ultimately have "pgof a \<noteq> pgof r" using r(1) x(2) pgof_inj [of x r] by auto
  from store64_slot_frame [OF \<open>aligned r\<close> r(2) this]
  show "mem (s\<lparr>mem := store64 (mem s) (r + 8 * i) v\<rparr>) a = mem s a" by simp
qed simp_all

lemma leaf_store_inv:
  assumes inv: "pt_inv s \<Gamma> xs" and r: "\<Gamma> r = Node pt is" "length is = 2" "unat i < 512"
  shows "pt_inv (s\<lparr>mem := store64 (mem s) (r + 8 * i) v\<rparr>) \<Gamma> xs"
proof -
  let ?m = "store64 (mem s) (r + 8 * i) v"
  have ld: "load64 ?m (q + 8 * j) = load64 (mem s) (q + 8 * j)"
    if "\<Gamma> q = Node pt' is'" "length is' < 2" "unat j < 512" for q pt' is' j
    using store_node_load [OF inv r(1) that(1) r(3) that(3)] r(1,2) that(1,2) by auto
  have "node_ok (s\<lparr>mem := ?m\<rparr>) \<Gamma> q pt' is'" if q: "\<Gamma> q = Node pt' is'" for q pt' is'
  proof -
    have "linked ?m \<Gamma> q pt' is' = linked (mem s) \<Gamma> q pt' is'"
      using nodeD(4) [OF inv q] ld by (cases is') auto
    then show ?thesis using pt_invD(4) [OF inv q] ld [OF q] by (simp add: node_ok_def)
  qed
  then show ?thesis
    using inv store_node_free [OF inv r(1,3), of v] by (simp add: pt_inv_def)
qed

lemma base_le: "PGROUNDDOWN v \<le> v"
  unfolding PGROUNDDOWN_def by (rule word_and_le2)

lemma base_lt_MAXVA: "v < MAXVA \<Longrightarrow> PGROUNDDOWN v < MAXVA"
  by (rule order_le_less_trans [OF base_le])

lemma PX_base_inj:
  assumes "va < MAXVA" "vb < MAXVA" "PX 0 va = PX 0 vb" "PX 1 va = PX 1 vb" "PX 2 va = PX 2 vb"
  shows "PGROUNDDOWN va = PGROUNDDOWN vb"
proof -
  have "PGROUNDDOWN va < MAXVA" "PGROUNDDOWN vb < MAXVA"
    using assms(1,2) by (simp_all add: base_lt_MAXVA)
  then show ?thesis using assms(3-5) by (rule_tac PX_inj) simp_all
qed

lemma PX_base_cong: "PGROUNDDOWN va = PGROUNDDOWN vb \<Longrightarrow> PX l va = PX l vb"
  by (metis PX_PGROUNDDOWN)

lemma pte_at_base: "PGROUNDDOWN va = PGROUNDDOWN vb \<Longrightarrow> pte_at m pt va = pte_at m pt vb"
  by (simp add: pte_at_unfold PX_base_cong [of va vb] Let_def)

text \<open>A store into the leaf slot of \<open>va\<close> changes the meaning of the page tables for the page of \<open>va\<close>
  in that table and nowhere else.\<close>

lemma leaf_store_pte:
  assumes inv: "pt_inv s \<Gamma> xs" and r: "\<Gamma> r = Node pt (leafpath va)"
    and pt': "\<Gamma> pt' = Node pt' []" and va: "va < MAXVA" "vb < MAXVA"
  shows "pte_at (store64 (mem s) (r + 8 * PX 0 va) v) pt' vb =
    (if pt' = pt \<and> PGROUNDDOWN vb = PGROUNDDOWN va then v else pte_at (mem s) pt' vb)"
proof -
  let ?t = "s\<lparr>mem := store64 (mem s) (r + 8 * PX 0 va) v\<rparr>"
  have inv': "pt_inv ?t \<Gamma> xs" using r by (intro leaf_store_inv [OF inv r]) (simp_all add: PX_lt)
  show ?thesis
  proof (cases "\<exists>q. \<Gamma> q = Node pt' (leafpath vb)")
    case True
    then obtain q where q: "\<Gamma> q = Node pt' (leafpath vb)" by blast
    have "q = r \<and> PX 0 vb = PX 0 va \<longleftrightarrow> pt' = pt \<and> PGROUNDDOWN vb = PGROUNDDOWN va"
    proof
      assume "q = r \<and> PX 0 vb = PX 0 va"
      with q r have "pt' = pt" "PX 0 vb = PX 0 va" "PX 1 vb = PX 1 va" "PX 2 vb = PX 2 va" by simp_all
      then show "pt' = pt \<and> PGROUNDDOWN vb = PGROUNDDOWN va" by (intro conjI PX_base_inj [OF va(2,1)])
    next
      assume e: "pt' = pt \<and> PGROUNDDOWN vb = PGROUNDDOWN va"
      then have px: "PX l vb = PX l va" for l by (intro PX_base_cong) (rule conjunct2)
      with e q have "\<Gamma> q = Node pt (leafpath va)" by simp
      then have "q = r" by (rule node_unique [OF inv _ r])
      then show "q = r \<and> PX 0 vb = PX 0 va" using px by blast
    qed
    then show ?thesis
      using pte_at_reach [OF inv' q] pte_at_reach [OF inv q] store_node_load [where i = "PX 0 va" and j = "PX 0 vb" and v = v, OF inv r q PX_lt PX_lt]
      by simp
  next
    case False
    then have "\<not> (pt' = pt \<and> PGROUNDDOWN vb = PGROUNDDOWN va)" using r PX_base_cong [of vb va] by auto
    then show ?thesis using False pte_at_none [OF inv pt', of vb] pte_at_none [OF inv' pt', of vb] by auto
  qed
qed

subsection \<open>Allocating and freeing pages\<close>

text \<open>A state change that moves page \<open>x\<close> between the free list and the kernel keeps every node.\<close>

lemma node_ok_frame:
  assumes inv: "pt_inv s \<Gamma> xs" and q: "\<Gamma> q = Node pt is" and kend: "kend t = kend s"
    and \<Gamma>: "\<And>p pt is. \<Gamma> p = Node pt is \<Longrightarrow> \<Delta> p = Node pt is"
    and ref: "pageref t (pgof q) = pageref s (pgof q)"
    and m: "\<And>a pt is. \<Gamma> (PGROUNDDOWN a) = Node pt is \<Longrightarrow> mem t a = mem s a"
  shows "node_ok t \<Delta> q pt is"
proof -
  have ld: "load64 (mem t) (p + 8 * i) = load64 (mem s) (p + 8 * i)"
    if p: "\<Gamma> p = Node pt is" and i: "unat i < 512" for p i pt "is"
    by (rule load64_node [OF inv p i m])
  have "linked (mem t) \<Gamma> q pt is = linked (mem s) \<Gamma> q pt is" by (rule linked_cong) (rule ld)
  moreover have "linked (mem t) \<Gamma> q pt is \<Longrightarrow> linked (mem t) \<Delta> q pt is"
    using linked_role [of "mem t" \<Gamma> q pt "is" \<Delta>] \<Gamma> by blast
  moreover have "bad_pa t = bad_pa s" using kend by (simp add: bad_pa_def fun_eq_iff)
  ultimately show ?thesis
    using pt_invD(4) [OF inv q] ref by (simp add: node_ok_def ld [OF q] \<Gamma>)
qed

lemma kalloc_inv:
  assumes inv: "pt_inv s \<Gamma> (x # xs)"
  shows "\<exists>t. kalloc s = Ok x t \<and> pt_inv t (\<Gamma>(x := Kern)) xs \<and> vm_upd s t \<and> \<not> bad_pa s x \<and>
     pageref t = (pageref s)(pgof x := 1) \<and> (\<forall>a. PGROUNDDOWN a \<noteq> x \<longrightarrow> mem t a = mem s a)"
proof -
  let ?t = "s\<lparr>mem := mfill (mem s) x 5 4096, freelist := load64 (mem s) x,
    pageref := (pageref s)(pgof x := 1)\<rparr>"
  have x: "\<Gamma> x = Free" "aligned x" "\<not> bad_pa s x" "x \<notin> set xs"
    using pt_invD(1,3) [OF inv] free_roleD [OF inv, of x] by (auto simp: free_inv_def)
  have m: "mem ?t a = mem s a" if "PGROUNDDOWN a \<noteq> x" for a
    using that x(2) by (simp add: mfill_page base_eq)
  have "node_ok ?t (\<Gamma>(x := Kern)) q pt is" if q: "\<Gamma> q = Node pt is" for q pt "is"
  proof (rule node_ok_frame [OF inv q])
    show "pageref ?t (pgof q) = pageref s (pgof q)"
      using x q nodeD(2) [OF inv q] pgof_inj [of q x] by auto
    show "mem ?t a = mem s a" if "\<Gamma> (PGROUNDDOWN a) = Node pt is" for a pt "is"
      using that x(1) by (intro m) auto
  qed (use x(1) in auto)
  then have "pt_inv ?t (\<Gamma>(x := Kern)) xs"
    using inv free_inv_pop [OF pt_invD(1) [OF inv], where c = 5] x(4) by (auto simp: pt_inv_def)
  with kalloc_pop [OF pt_invD(1,2) [OF inv]] m x(3) show ?thesis by (auto intro!: vm_updI)
qed

lemma kalloc_inv_nil: "pt_inv s \<Gamma> [] \<Longrightarrow> kalloc s = Ok 0 s"
  by (intro kalloc_nil pt_invD)

lemma kfree_shared_inv:
  assumes inv: "pt_inv s \<Gamma> xs" and q: "plain (\<Gamma> q)" "\<not> bad_pa s q" "1 < pageref s (pgof q)"
  shows "\<exists>t. kfree q s = Ok () t \<and> pt_inv t \<Gamma> xs \<and> vm_upd s t \<and> mem t = mem s \<and>
     pageref t = (pageref s)(pgof q := pageref s (pgof q) - 1)"
proof -
  let ?t = "s\<lparr>pageref := (pageref s)(pgof q := pageref s (pgof q) - 1)\<rparr>"
  have "pageref ?t (pgof p) = pageref s (pgof p)" if p: "\<Gamma> p = Node pt is" for p pt "is"
    using p q nodeD(2) [OF inv p] valid_pa_aligned [of s q] pgof_inj [of p q] by auto
  then have "pt_inv ?t \<Gamma> xs" by (intro pt_inv_frame [OF inv]) simp_all
  with kfree_shared_run [OF q(2) pt_invD(2) [OF inv] q(3)] show ?thesis by (auto intro!: vm_updI)
qed

lemma kfree_last_inv:
  assumes inv: "pt_inv s \<Gamma> xs" and q: "plain (\<Gamma> q)" "\<not> bad_pa s q" "pageref s (pgof q) \<le> 1"
  shows "\<exists>t. kfree q s = Ok () t \<and> pt_inv t (\<Gamma>(q := Free)) (q # xs) \<and> vm_upd s t \<and>
     pageref t = pageref s \<and> (\<forall>a. PGROUNDDOWN a \<noteq> q \<longrightarrow> mem t a = mem s a)"
proof -
  let ?t = "s\<lparr>mem := store64 (mfill (mem s) q 1 4096) q (freelist s), freelist := q\<rparr>"
  have al: "aligned q" using q(2) by (rule valid_pa_aligned)
  have new: "q \<notin> set xs" using pt_invD(3) [OF inv, of q] q(1) by auto
  have m: "mem ?t a = mem s a" if "PGROUNDDOWN a \<noteq> q" for a
    using that al by (simp add: mfill_page base_eq store64_page_frame)
  have "node_ok ?t (\<Gamma>(q := Free)) p pt is" if p: "\<Gamma> p = Node pt is" for p pt "is"
  proof (rule node_ok_frame [OF inv p])
    show "mem ?t a = mem s a" if "\<Gamma> (PGROUNDDOWN a) = Node pt is" for a pt "is"
      using that q(1) by (intro m) auto
  qed (use q(1) in auto)
  then have "pt_inv ?t (\<Gamma>(q := Free)) (q # xs)"
    using inv free_inv_push [OF pt_invD(1) [OF inv] q(2) new, where c = 1] by (auto simp: pt_inv_def)
  with kfree_last_run [OF q(2) pt_invD(2) [OF inv] q(3)] m show ?thesis by (auto intro!: vm_updI)
qed

subsection \<open>Walking\<close>

lemma load64_zero_page:
  assumes "aligned x" "unat j < 512" "\<And>a. PGROUNDDOWN a = x \<Longrightarrow> m a = 0"
  shows "load64 m (x + 8 * j) = 0"
proof -
  have "load64 m (x + 8 * j) = load64 (mfill m x 0 4096) (x + 8 * j)"
    using assms by (intro load64_slot_frame) (simp_all add: mfill_page base_eq)
  then show ?thesis using assms by (simp add: mem_simps)
qed

text \<open>Hanging a zeroed page into an unused slot of a table page.\<close>

lemma link_inv:
  assumes inv: "pt_inv s \<Gamma> xs" and x: "\<Gamma> x = Kern" "\<not> bad_pa s x" "pageref s (pgof x) = 1"
    and zero: "\<And>a. PGROUNDDOWN a = x \<Longrightarrow> mem s a = 0"
    and q: "\<Gamma> q = Node pt is" "length is < 2" "unat i < 512" "load64 (mem s) (q + 8 * i) AND PTE_V = 0"
  shows "pt_inv (s\<lparr>mem := store64 (mem s) (q + 8 * i) (PA2PTE x OR PTE_V)\<rparr>) (\<Gamma>(x := Node pt (i # is))) xs"
    (is "pt_inv ?t ?\<Delta> xs")
proof -
  have al: "aligned x" "aligned q" "x \<noteq> q"
    using x q(1) nodeD(2) [OF inv q(1)] valid_pa_aligned [of s x] by auto
  have ld: "load64 (mem ?t) (r + 8 * j) =
      (if r = q \<and> j = i then PA2PTE x OR PTE_V else load64 (mem s) (r + 8 * j))"
    if "\<Gamma> r = Node pt' is'" "unat j < 512" for r j pt' is'
    using store_node_load [OF inv q(1) that(1) q(3) that(2)] by simp
  have ldx: "load64 (mem ?t) (x + 8 * j) = 0" if "unat j < 512" for j
  proof -
    have "load64 (mem ?t) (x + 8 * j) = load64 (mem s) (x + 8 * j)"
      using al that q(3) by (simp add: mem_simps)
    then show ?thesis using load64_zero_page [OF al(1) that zero] by simp
  qed
  have "node_ok ?t ?\<Delta> x pt (i # is)"
    using x q al ld [OF q(1,3)] ldx by (auto simp: node_ok_def intro!: exI [of _ q])
  moreover have "node_ok ?t ?\<Delta> r pt' is'" if r: "\<Gamma> r = Node pt' is'" for r pt' is'
  proof -
    have "r \<noteq> x" using r x(1) by auto
    have "linked (mem ?t) ?\<Delta> r pt' is'"
    proof (cases is')
      case Nil
      then show ?thesis using nodeD(5) [OF inv r] by simp
    next
      case (Cons j js)
      with nodeD(5) [OF inv r] obtain p where p: "\<Gamma> p = Node pt' js" "unat j < 512"
        "load64 (mem s) (p + 8 * j) = PA2PTE r OR PTE_V" by auto
      then have "\<not> (p = q \<and> j = i)" using q(4) by auto
      then show ?thesis using p ld [OF p(1,2)] x(1) Cons by (auto intro!: exI [of _ p])
    qed
    moreover have "?\<Delta> (PTE2PA (load64 (mem ?t) (r + 8 * j))) = Node pt' (j # is') \<and>
        load64 (mem ?t) (r + 8 * j) AND (PTE_R OR PTE_W OR PTE_X) = 0"
      if "length is' < 2" "unat j < 512" "load64 (mem ?t) (r + 8 * j) AND PTE_V \<noteq> 0" for j
    proof (cases "r = q \<and> j = i")
      case True
      have "(PA2PTE x OR PTE_V) AND (PTE_R OR PTE_W OR PTE_X) = 0"
        by (subst PA2PTE_flags) (simp_all add: pte_bits take_bit_eq_mod)
      then show ?thesis using True ld [OF r that(2)] r q(1) al by simp
    next
      case False
      then have "load64 (mem ?t) (r + 8 * j) = load64 (mem s) (r + 8 * j)"
        using ld [OF r that(2)] by auto
      then show ?thesis using node_entry [OF inv r that(1,2)] that(3) x(1) by auto
    qed
    ultimately show ?thesis using nodeD [OF inv r] by (simp add: node_ok_def)
  qed
  ultimately show ?thesis
    using inv x(1) store_node_free [OF inv q(1,3)] pt_invD(3) [OF inv, of x] by (auto simp: pt_inv_def)
qed

text \<open>Hanging in a page does not change what the page tables mean.\<close>

lemma link_pte:
  assumes inv: "pt_inv s \<Gamma> xs" and x: "\<Gamma> x = Kern" "\<not> bad_pa s x" "pageref s (pgof x) = 1"
    and zero: "\<And>a. PGROUNDDOWN a = x \<Longrightarrow> mem s a = 0"
    and q: "\<Gamma> q = Node pt is" "length is < 2" "unat i < 512" "load64 (mem s) (q + 8 * i) AND PTE_V = 0"
    and pt': "\<Gamma> pt' = Node pt' []"
  shows "pte_at (store64 (mem s) (q + 8 * i) (PA2PTE x OR PTE_V)) pt' va = pte_at (mem s) pt' va"
proof -
  let ?t = "s\<lparr>mem := store64 (mem s) (q + 8 * i) (PA2PTE x OR PTE_V)\<rparr>"
  let ?\<Delta> = "\<Gamma>(x := Node pt (i # is))"
  have inv': "pt_inv ?t ?\<Delta> xs" by (rule link_inv [OF inv x zero q])
  have pt'': "?\<Delta> pt' = Node pt' []" using pt' x(1) by auto
  have al: "aligned x" "aligned q" "x \<noteq> q"
    using x q(1) nodeD(2) [OF inv q(1)] valid_pa_aligned [of s x] by auto
  consider (old) r where "\<Gamma> r = Node pt' (leafpath va)" | (new) "?\<Delta> x = Node pt' (leafpath va)" "\<And>r. \<Gamma> r \<noteq> Node pt' (leafpath va)"
    | (none) "\<And>r. ?\<Delta> r \<noteq> Node pt' (leafpath va)" by (metis fun_upd_apply)
  then show ?thesis
  proof cases
    case (old r)
    then have "?\<Delta> r = Node pt' (leafpath va)" using x(1) by auto
    moreover have "r \<noteq> q" using old q(1,2) by auto
    then have "load64 (mem ?t) (r + 8 * PX 0 va) = load64 (mem s) (r + 8 * PX 0 va)"
      using store_node_load [OF inv q(1) old q(3) PX_lt] by simp
    ultimately show ?thesis using pte_at_reach [OF inv old] pte_at_reach [OF inv'] by simp
  next
    case new
    have "load64 (mem ?t) (x + 8 * PX 0 va) = load64 (mem s) (x + 8 * PX 0 va)"
      using al q(3) PX_lt by (simp add: mem_simps)
    also have "\<dots> = 0" by (rule load64_zero_page [OF al(1) PX_lt zero])
    finally show ?thesis using pte_at_none [OF inv pt'] new pte_at_reach [OF inv' new(1)] by simp
  next
    case none
    then have "\<Gamma> r \<noteq> Node pt' (leafpath va)" for r using x(1) by (metis fun_upd_other role.distinct(9))
    then show ?thesis using pte_at_none [OF inv pt'] pte_at_none [OF inv' pt'' none] by simp
  qed
qed

text \<open>What an operation that only adds table pages does: it takes pages from the free list, keeps all
  other roles, the contents of all user and kernel pages, and the meaning of all page tables.\<close>

definition grown :: "'z kmem_scheme \<Rightarrow> roles \<Rightarrow> addr list \<Rightarrow> 'z kmem_scheme \<Rightarrow> roles \<Rightarrow> addr list \<Rightarrow> bool" where
  "grown s \<Gamma> xs t \<Delta> ys \<longleftrightarrow> pt_inv t \<Delta> ys \<and> vm_upd s t \<and> (\<exists>zs. xs = zs @ ys) \<and>
     (\<forall>q. \<Gamma> q \<noteq> Free \<longrightarrow> \<Delta> q = \<Gamma> q) \<and> (\<forall>q. plain (\<Delta> q) \<longrightarrow> \<Gamma> q = \<Delta> q) \<and>
     (\<forall>a. plain (\<Gamma> (PGROUNDDOWN a)) \<longrightarrow> mem t a = mem s a) \<and>
     (\<forall>q. aligned q \<longrightarrow> \<Gamma> q \<noteq> Free \<longrightarrow> pageref t (pgof q) = pageref s (pgof q)) \<and>
     (\<forall>pt va. \<Gamma> pt = Node pt [] \<longrightarrow> pte_at (mem t) pt va = pte_at (mem s) pt va)"

lemma grown_refl: "pt_inv s \<Gamma> xs \<Longrightarrow> grown s \<Gamma> xs s \<Gamma> xs"
  by (auto simp: grown_def)

lemma grownD:
  assumes "grown s \<Gamma> xs t \<Delta> ys"
  shows "pt_inv t \<Delta> ys" "vm_upd s t" "\<exists>zs. xs = zs @ ys" "\<Gamma> q \<noteq> Free \<Longrightarrow> \<Delta> q = \<Gamma> q"
    and "plain (\<Delta> q) \<Longrightarrow> \<Gamma> q = \<Delta> q" "plain (\<Gamma> (PGROUNDDOWN a)) \<Longrightarrow> mem t a = mem s a"
    and "aligned q \<Longrightarrow> \<Gamma> q \<noteq> Free \<Longrightarrow> pageref t (pgof q) = pageref s (pgof q)"
    and "\<Gamma> pt = Node pt [] \<Longrightarrow> pte_at (mem t) pt va = pte_at (mem s) pt va"
  using assms unfolding grown_def by blast+

lemma grown_trans:
  assumes st: "grown s \<Gamma> xs t \<Delta> ys" and tu: "grown t \<Delta> ys u \<Theta> zs"
  shows "grown s \<Gamma> xs u \<Theta> zs"
  unfolding grown_def
proof (intro conjI allI impI)
  show "pt_inv u \<Theta> zs" by (rule grownD(1) [OF tu])
  show "vm_upd s u" by (rule vm_upd_trans [OF grownD(2) [OF st] grownD(2) [OF tu]])
  show "\<exists>ws. xs = ws @ zs" using grownD(3) [OF st] grownD(3) [OF tu] by auto
next
  fix q assume "\<Gamma> q \<noteq> Free"
  with grownD(4) [OF st this] show "\<Theta> q = \<Gamma> q" using grownD(4) [OF tu, of q] by simp
next
  fix q assume q: "plain (\<Theta> q)"
  with grownD(5) [OF tu q] show "\<Gamma> q = \<Theta> q" using grownD(5) [OF st, of q] by simp
next
  fix a assume a: "plain (\<Gamma> (PGROUNDDOWN a))"
  then have "plain (\<Delta> (PGROUNDDOWN a))" using grownD(4) [OF st, of "PGROUNDDOWN a"] by auto
  then show "mem u a = mem s a" using grownD(6) [OF st a] grownD(6) [OF tu] by metis
next
  fix q assume q: "aligned q" "\<Gamma> q \<noteq> Free"
  then have "\<Delta> q \<noteq> Free" using grownD(4) [OF st q(2)] by simp
  then show "pageref u (pgof q) = pageref s (pgof q)"
    using grownD(7) [OF st q] grownD(7) [OF tu q(1)] by metis
next
  fix pt va assume pt: "\<Gamma> pt = Node pt []"
  then have "\<Delta> pt = Node pt []" using grownD(4) [OF st, of pt] by simp
  then show "pte_at (mem u) pt va = pte_at (mem s) pt va"
    using grownD(8) [OF st pt] grownD(8) [OF tu] by metis
qed

lemma walk_run: "va < MAXVA \<Longrightarrow> walk pt va alloc s = walk_loop 2 pt va alloc s"
  by (simp add: walk_def run_simps flip: not_le)

lemma ld64_run [run_simps]: "ld64 p s = Ok (load64 (mem s) p) s"
  by (simp add: ld64_def run_simps)

lemma st64_run [run_simps]: "st64 p v s = Ok () (s\<lparr>mem := store64 (mem s) p v\<rparr>)"
  by (simp add: st64_def run_simps)

lemma slot_nonzero:
  assumes inv: "pt_inv s \<Gamma> xs" and r: "\<Gamma> r = Node pt is" and i: "unat i < 512"
  shows "r + 8 * i \<noteq> 0"
proof
  assume "r + 8 * i = 0"
  then have "pgof r = pgof 0" using slot_page [OF nodeD(2) [OF inv r] i] by simp
  then have "r = 0" using pgof_inj [of r 0] nodeD(2) [OF inv r] by (simp add: aligned_def)
  then show False
    using valid_pa_nonzero [of s r] nodeD(1) [OF inv r] pt_invD(1) [OF inv] by (simp add: free_inv_def)
qed

lemma grow_step:
  assumes inv: "pt_inv s \<Gamma> (x # xs)"
    and q: "\<Gamma> q = Node pt is" "length is < 2" "unat i < 512" "load64 (mem s) (q + 8 * i) AND PTE_V = 0"
  shows "\<exists>t u. kalloc s = Ok x t \<and> x \<noteq> 0 \<and>
     u = t\<lparr>mem := store64 (mfill (mem t) x 0 4096) (q + 8 * i) (PA2PTE x OR PTE_V)\<rparr> \<and>
     grown s \<Gamma> (x # xs) u (\<Gamma>(x := Node pt (i # is))) xs"
proof -
  from kalloc_inv [OF inv] obtain t where t: "kalloc s = Ok x t" "pt_inv t (\<Gamma>(x := Kern)) xs" "vm_upd s t"
      "\<not> bad_pa s x" "pageref t = (pageref s)(pgof x := 1)" "\<And>a. PGROUNDDOWN a \<noteq> x \<Longrightarrow> mem t a = mem s a"
    by blast
  have x: "\<Gamma> x = Free" "aligned x" "x \<noteq> q" using pt_invD(3) [OF inv, of x] free_roleD [OF inv, of x] q(1) by auto
  let ?\<Gamma> = "\<Gamma>(x := Kern)" and ?\<Delta> = "\<Gamma>(x := Node pt (i # is))"
  let ?v = "t\<lparr>mem := mfill (mem t) x 0 4096\<rparr>"
  let ?u = "?v\<lparr>mem := store64 (mem ?v) (q + 8 * i) (PA2PTE x OR PTE_V)\<rparr>"
  have mv: "mem ?v a = (if PGROUNDDOWN a = x then 0 else mem s a)" for a
    using x(2) t(6) by (simp add: mfill_page base_eq)
  have v: "pt_inv ?v ?\<Gamma> xs"
    using x(2) by (intro pt_inv_frame [OF t(2)]) (auto simp: mfill_page base_eq)
  have q': "?\<Gamma> q = Node pt is" using q(1) x(1) by auto
  have ld: "load64 (mem ?v) (q + 8 * i) = load64 (mem s) (q + 8 * i)"
  proof (rule load64_slot_frame [OF nodeD(2) [OF inv q(1)] q(3)])
    fix a assume "pgof a = pgof q"
    then have "PGROUNDDOWN a \<noteq> x" using nodeD(2) [OF inv q(1)] x(2,3) base_eq [of q a] by auto
    then show "mem ?v a = mem s a" using mv by presburger
  qed
  have xv: "?\<Gamma> x = Kern" "\<not> bad_pa ?v x" "pageref ?v (pgof x) = 1"
    using t(4,5) vm_updD(3) [OF t(3)] by simp_all
  have zero: "mem ?v a = 0" if "PGROUNDDOWN a = x" for a using mv that by presburger
  have slot: "load64 (mem ?v) (q + 8 * i) AND PTE_V = 0" using q(4) ld by presburger
  note link = v xv zero q' q(2,3) slot
  have A: "pt_inv ?u ?\<Delta> xs" using link_inv [OF link] unfolding fun_upd_upd .
  have "vm_upd t ?v" "vm_upd ?v ?u" by (rule vm_updI(2))+
  from vm_upd_trans [OF vm_upd_trans [OF t(3) this(1)] this(2)] have B: "vm_upd s ?u" .
  have C: "mem ?u a = mem s a" if "plain (\<Gamma> (PGROUNDDOWN a))" for a
  proof -
    have ne: "PGROUNDDOWN a \<noteq> q" "PGROUNDDOWN a \<noteq> x" using that q(1) x(1) by (metis role.distinct)+
    then have "pgof a \<noteq> pgof q" using base_eq [OF nodeD(2) [OF inv q(1)]] by blast
    from store64_slot_frame [OF nodeD(2) [OF inv q(1)] q(3) this] have "mem ?u a = mem ?v a" by simp
    then show ?thesis using mv [of a] ne(2) by presburger
  qed
  have D: "pageref ?u (pgof p) = pageref s (pgof p)" if "aligned p" "\<Gamma> p \<noteq> Free" for p
  proof -
    have "pgof p \<noteq> pgof x" using that x(1,2) pgof_inj [of p x] by blast
    then show ?thesis by (simp add: t(5))
  qed
  have E: "pte_at (mem ?u) pt' va = pte_at (mem s) pt' va" if pt': "\<Gamma> pt' = Node pt' []" for pt' va
  proof -
    have pt'': "?\<Gamma> pt' = Node pt' []" using pt' x(1) by auto
    have "pte_at (mem ?u) pt' va = pte_at (mem ?v) pt' va" using link_pte [OF link pt''] by simp
    also have "\<dots> = pte_at (mem s) pt' va"
      using mv x(1) by (intro pte_at_frame [OF inv v pt']) (auto simp del: kmem.simps)
    finally show ?thesis .
  qed
  have "grown s \<Gamma> (x # xs) ?u ?\<Delta> xs"
    unfolding grown_def
  proof (intro conjI)
    show "\<forall>a. plain (\<Gamma> (PGROUNDDOWN a)) \<longrightarrow> mem ?u a = mem s a" using C by blast
    show "\<forall>p. aligned p \<longrightarrow> \<Gamma> p \<noteq> Free \<longrightarrow> pageref ?u (pgof p) = pageref s (pgof p)" using D by blast
    show "\<forall>pt va. \<Gamma> pt = Node pt [] \<longrightarrow> pte_at (mem ?u) pt va = pte_at (mem s) pt va" using E by blast
  qed (use A B x(1) in auto)
  then show ?thesis
    using t(1) valid_pa_nonzero [OF _ t(4)] pt_invD(1) [OF inv] by (auto simp: free_inv_def)
qed

definition vpath :: "nat \<Rightarrow> addr \<Rightarrow> uint64 list" where
  "vpath l va = (if l = 0 then leafpath va else if l = 1 then [PX 2 va] else [])"

lemma vpath_step: "l < 2 \<Longrightarrow> PX (Suc l) va # vpath (Suc l) va = vpath l va"
  by (cases "l = 0") (auto simp: vpath_def numeral_2_eq_2 less_Suc_eq)

lemma vpath_length: "0 < l \<Longrightarrow> length (vpath l va) < 2"
  by (simp add: vpath_def)

lemma walk_loop_alloc:
  assumes "l \<le> 2" "pt_inv s \<Gamma> xs" "\<Gamma> q = Node pt (vpath l va)"
  shows "\<exists>a t \<Delta> ys. walk_loop l q va True s = Ok a t \<and> grown s \<Gamma> xs t \<Delta> ys \<and>
     (a = 0 \<and> ys = [] \<or> (\<exists>r. \<Delta> r = Node pt (leafpath va) \<and> a = r + 8 * PX 0 va))"
  using assms
proof (induction l arbitrary: q s \<Gamma> xs)
  case 0
  then show ?case using grown_refl [OF "0.prems"(2)] by (fastforce simp: run_simps vpath_def)
next
  case (Suc l)
  let ?e = "load64 (mem s) (q + 8 * PX (Suc l) va)"
  have l: "l < 2" "l \<le> 2" using Suc.prems(1) by simp_all
  note len = vpath_length [of "Suc l" va, simplified]
  show ?case
  proof (cases "?e AND PTE_V = 0")
    case False
    have "\<Gamma> (PTE2PA ?e) = Node pt (vpath l va)"
      using node_entry(1) [OF Suc.prems(2,3) len PX_lt False] vpath_step [OF l(1)] by simp
    from Suc.IH [OF l(2) Suc.prems(2) this] False show ?thesis by (simp add: Let_def run_simps)
  next
    case True
    show ?thesis
    proof (cases xs)
      case Nil
      then have "kalloc s = Ok 0 s" using Suc.prems(2) kalloc_inv_nil by blast
      then show ?thesis
        using True Nil grown_refl [OF Suc.prems(2)] by (auto simp: Let_def run_simps)
    next
      case (Cons x ys)
      from grow_step [OF Suc.prems(2) [unfolded Cons] Suc.prems(3) len PX_lt True] vpath_step [OF l(1)]
      obtain t u where t: "kalloc s = Ok x t" "x \<noteq> 0"
        "u = t\<lparr>mem := store64 (mfill (mem t) x 0 4096) (q + 8 * PX (Suc l) va) (PA2PTE x OR PTE_V)\<rparr>"
        "grown s \<Gamma> xs u (\<Gamma>(x := Node pt (vpath l va))) ys" unfolding Cons by auto
      from Suc.IH [OF l(2) grownD(1) [OF t(4)] fun_upd_same] obtain a v \<Delta> zs
        where "walk_loop l x va True u = Ok a v" "grown u (\<Gamma>(x := Node pt (vpath l va))) ys v \<Delta> zs"
          "a = 0 \<and> zs = [] \<or> (\<exists>r. \<Delta> r = Node pt (leafpath va) \<and> a = r + 8 * PX 0 va)" by blast
      moreover have "walk_loop (Suc l) q va True s = walk_loop l x va True u"
        using True t(1,2,3) by (simp add: Let_def run_simps)
      ultimately show ?thesis using grown_trans [OF t(4)] by metis
    qed
  qed
qed

lemma walk_alloc:
  assumes "pt_inv s \<Gamma> xs" "\<Gamma> pt = Node pt []" "va < MAXVA"
  obtains (full) t \<Delta> where "walk pt va True s = Ok 0 t" "grown s \<Gamma> xs t \<Delta> []"
    | (slot) t \<Delta> ys r where "walk pt va True s = Ok (r + 8 * PX 0 va) t" "grown s \<Gamma> xs t \<Delta> ys"
        "\<Delta> r = Node pt (leafpath va)" "r + 8 * PX 0 va \<noteq> 0"
proof -
  have "\<Gamma> pt = Node pt (vpath 2 va)" using assms(2) by (simp add: vpath_def)
  from walk_loop_alloc [OF order_refl assms(1) this] obtain a t \<Delta> ys
    where w: "walk_loop 2 pt va True s = Ok a t" "grown s \<Gamma> xs t \<Delta> ys"
      "a = 0 \<and> ys = [] \<or> (\<exists>r. \<Delta> r = Node pt (leafpath va) \<and> a = r + 8 * PX 0 va)" by blast
  from w(3) show ?thesis
  proof
    assume "a = 0 \<and> ys = []"
    then show ?thesis using full w(1,2) walk_run [OF assms(3)] by metis
  next
    assume "\<exists>r. \<Delta> r = Node pt (leafpath va) \<and> a = r + 8 * PX 0 va"
    then obtain r where r: "\<Delta> r = Node pt (leafpath va)" "a = r + 8 * PX 0 va" by blast
    have "a \<noteq> 0" unfolding r(2) by (rule slot_nonzero [OF grownD(1) [OF w(2)] r(1) PX_lt])
    then show ?thesis using slot w(1,2) walk_run [OF assms(3)] r by metis
  qed
qed

lemma walk_noalloc:
  assumes inv: "pt_inv s \<Gamma> xs" and pt: "\<Gamma> pt = Node pt []" and va: "va < MAXVA"
  obtains (none) "walk pt va False s = Ok 0 s" "pte_at (mem s) pt va = 0" "\<And>r. \<Gamma> r \<noteq> Node pt (leafpath va)"
    | (slot) r where "walk pt va False s = Ok (r + 8 * PX 0 va) s" "\<Gamma> r = Node pt (leafpath va)"
        "r + 8 * PX 0 va \<noteq> 0" "load64 (mem s) (r + 8 * PX 0 va) = pte_at (mem s) pt va"
proof (cases "\<exists>r. \<Gamma> r = Node pt (leafpath va)")
  case True
  then obtain r where r: "\<Gamma> r = Node pt (leafpath va)" by blast
  from nodeD(5) [OF inv r] obtain p
    where p: "\<Gamma> p = Node pt [PX 2 va]" "load64 (mem s) (p + 8 * PX 1 va) = PA2PTE r OR PTE_V" by auto
  from nodeD(5) [OF inv p(1)] obtain q
    where q: "\<Gamma> q = Node pt []" "load64 (mem s) (q + 8 * PX 2 va) = PA2PTE p OR PTE_V" by auto
  have "q = pt" using nodeD(5) [OF inv q(1)] by simp
  then have "walk pt va False s = Ok (r + 8 * PX 0 va) s"
    using p q nodeD(2) [OF inv r] nodeD(2) [OF inv p(1)]
    by (simp add: walk_run [OF va] numeral_2_eq_2 Let_def run_simps)
  then show ?thesis using slot r slot_nonzero [OF inv r PX_lt] pte_at_reach [OF inv r] by metis
next
  case False
  let ?e = "load64 (mem s) (pt + 8 * PX 2 va)"
  let ?f = "load64 (mem s) (PTE2PA ?e + 8 * PX 1 va)"
  have "?f AND PTE_V = 0" if v: "?e AND PTE_V \<noteq> 0"
  proof (rule ccontr)
    assume f: "?f AND PTE_V \<noteq> 0"
    have "\<Gamma> (PTE2PA ?e) = Node pt [PX 2 va]"
      using node_entry(1) [OF inv pt _ PX_lt v] by simp
    from node_entry(1) [OF inv this _ PX_lt f] False show False by simp
  qed
  then have "walk pt va False s = Ok 0 s"
    by (simp add: walk_run [OF va] numeral_2_eq_2 Let_def run_simps)
  then show ?thesis using none False pte_at_none [OF inv pt] by blast
qed

end
