(* ===== verification/Cow.thy ===== *)
theory Cow
  imports PageTable
begin

text \<open>
  Copy-on-write: the second half of \<^verbatim>\<open>kernel/vm.c\<close>.  \<open>uvmcopy\<close> makes a child share its parent's
  pages read-only, \<open>cowalloc\<close> gives a process its own writable copy when it writes, and \<open>copyout\<close>,
  \<open>copyin\<close> and \<open>copyinstr\<close> move data between the kernel and user memory.  The invariant \<open>vm_inv\<close>
  says that the reference count of a user page is the number of page-table entries that map it and
  that a page mapped writable is mapped exactly once.
\<close>

subsection \<open>Operations\<close>

definition cowalloc :: "addr \<Rightarrow> addr \<Rightarrow> ('z kmem_scheme, int) km" where
  "cowalloc pagetable va =
     (if va \<ge> MAXVA then ret (-1)
      else bind (walk pagetable va False) (\<lambda>pte.
        if pte = 0 then ret (-1)
        else bind (ld64 pte) (\<lambda>e.
          if e AND PTE_V = 0 \<or> e AND PTE_U = 0 then ret (-1)
          else let flags = PTE_FLAGS e; pa = PTE2PA e; va_rounded = PGROUNDDOWN va in
            if e AND PTE_C = 0 \<and> e AND PTE_W = 0 then ret (-1)
            else if e AND PTE_W \<noteq> 0 \<or> e AND PTE_C = 0 then ret 0
            else bind (get_refcnt pa) (\<lambda>n.
              if n > 1 then
                bind kalloc (\<lambda>new_pa.
                thn (panic_if (new_pa = 0) ''cowalloc: kalloc'')
               (thn (kmemmove new_pa pa (ucast PGSIZE))
               (thn (uvmunmap pagetable va_rounded 1 True)
               (bind (mappages pagetable va_rounded PGSIZE new_pa ((flags AND NOT PTE_C) OR PTE_W)) (\<lambda>r.
                if r \<noteq> 0 then thn (kfree new_pa) (ret (-1)) else ret 0)))))
              else bind (get_refcnt pa) (\<lambda>n'.
                if n' = 1 then
                  bind (ld64 pte) (\<lambda>e1.
                  thn (st64 pte (e1 OR PTE_W))
                 (bind (ld64 pte) (\<lambda>e2.
                  thn (st64 pte (e2 AND NOT PTE_C)) (ret 0))))
                else ret (-1))))))"

function uvmcopy_loop :: "addr \<Rightarrow> addr \<Rightarrow> uint64 \<Rightarrow> uint64 \<Rightarrow> ('z kmem_scheme, int) km" where
  "uvmcopy_loop old new sz i =
     (if \<not> i < sz then ret 0
      else if i \<ge> MAXVA then panic ''walk''
      else bind (walk old i False) (\<lambda>pte.
        thn (panic_if (pte = 0) ''uvmcopy: pte should exist'')
       (bind (ld64 pte) (\<lambda>e.
        thn (panic_if (e AND PTE_V = 0) ''uvmcopy: page not present'')
       (thn (panic_if (PTE2PA e = 0) ''uvmcopy: address should exist'')
       (thn (if e AND PTE_W \<noteq> 0
             then thn (st64 pte (e OR PTE_C)) (bind (ld64 pte) (\<lambda>e1. st64 pte (e1 AND NOT PTE_W)))
             else skip)
       (bind (ld64 pte) (\<lambda>e2.
        bind (mappages new i PGSIZE (PTE2PA e) (PTE_FLAGS e2)) (\<lambda>r.
        if r \<noteq> 0 then thn (uvmunmap new 0 (i div PGSIZE) True) (ret (-1))
        else thn (refcnt_inc (PTE2PA e)) (uvmcopy_loop old new sz (i + PGSIZE))))))))))) "
  by pat_completeness auto
termination
  by (relation "measure (\<lambda>(old, new, sz, i). unat MAXVA - unat i)") (auto simp: page_step_less)

declare uvmcopy_loop.simps [simp del]

definition uvmcopy :: "addr \<Rightarrow> addr \<Rightarrow> uint64 \<Rightarrow> ('z kmem_scheme, int) km" where
  "uvmcopy old new sz = uvmcopy_loop old new sz 0"

lemma chunk_pos: "0 < PGSIZE - (a - PGROUNDDOWN a)"
proof -
  have "unat (a - PGROUNDDOWN a) < 4096" by (simp add: in_page)
  then show ?thesis by (simp add: PGSIZE_def word_less_nat_alt unat_sub_if')
qed

lemma chunk_less:
  assumes "0 < len" "n = (if len < k then len else k)" "0 < k"
  shows "unat (len - n :: uint64) < unat len"
  using assms by (auto simp: word_less_nat_alt unat_sub_if' split: if_splits)

lemma word_pos_unat: "0 < len \<Longrightarrow> 0 < unat (len :: uint64)"
  by (simp add: word_less_nat_alt)

function copyout :: "addr \<Rightarrow> addr \<Rightarrow> addr \<Rightarrow> uint64 \<Rightarrow> ('z kmem_scheme, int) km" where
  "copyout pagetable dstva src len =
     (if \<not> len > 0 then ret 0
      else let va0 = PGROUNDDOWN dstva in
        bind (cowalloc pagetable va0) (\<lambda>r.
        if r < 0 then ret (-1)
        else bind (walkaddr pagetable va0) (\<lambda>pa0.
          if pa0 = 0 then ret (-1)
          else let k = PGSIZE - (dstva - va0); n = if len < k then len else k in
            thn (kmemmove (pa0 + (dstva - va0)) src (ucast n))
                (copyout pagetable (va0 + PGSIZE) (src + n) (len - n)))))"
  by pat_completeness auto
termination
  by (relation "measure (\<lambda>(pt, d, s, len). unat len)") (auto intro!: chunk_less simp: chunk_pos word_pos_unat)

declare copyout.simps [simp del]

function copyin :: "addr \<Rightarrow> addr \<Rightarrow> addr \<Rightarrow> uint64 \<Rightarrow> ('z kmem_scheme, int) km" where
  "copyin pagetable dst srcva len =
     (if \<not> len > 0 then ret 0
      else let va0 = PGROUNDDOWN srcva in
        bind (walkaddr pagetable va0) (\<lambda>pa0.
        if pa0 = 0 then ret (-1)
        else let k = PGSIZE - (srcva - va0); n = if len < k then len else k in
          thn (kmemmove dst (pa0 + (srcva - va0)) (ucast n))
              (copyin pagetable (dst + n) (va0 + PGSIZE) (len - n))))"
  by pat_completeness auto
termination
  by (relation "measure (\<lambda>(pt, d, s, len). unat len)") (auto intro!: chunk_less simp: chunk_pos word_pos_unat)

declare copyin.simps [simp del]

text \<open>The inner loop of \<open>copyinstr\<close> copies at most \<open>n\<close> bytes and reports whether it met a NUL.\<close>

primrec copyinstr_page :: "nat \<Rightarrow> addr \<Rightarrow> addr \<Rightarrow> ('z kmem_scheme, bool) km" where
  "copyinstr_page 0 dst p = ret False"
| "copyinstr_page (Suc n) dst p =
     bind (gets (\<lambda>s. mem s p)) (\<lambda>c.
     thn (modify (\<lambda>s. s\<lparr>mem := (mem s)(dst := c)\<rparr>))
         (if c = 0 then ret True else copyinstr_page n (dst + 1) (p + 1)))"

function copyinstr :: "addr \<Rightarrow> addr \<Rightarrow> addr \<Rightarrow> uint64 \<Rightarrow> ('z kmem_scheme, int) km" where
  "copyinstr pagetable dst srcva mx =
     (if \<not> mx > 0 then ret (-1)
      else let va0 = PGROUNDDOWN srcva in
        bind (walkaddr pagetable va0) (\<lambda>pa0.
        if pa0 = 0 then ret (-1)
        else let k = PGSIZE - (srcva - va0); n = if mx < k then mx else k in
          bind (copyinstr_page (unat n) dst (pa0 + (srcva - va0))) (\<lambda>got_null.
          if got_null then ret 0
          else copyinstr pagetable (dst + n) (va0 + PGSIZE) (mx - n))))"
  by pat_completeness auto
termination
  by (relation "measure (\<lambda>(pt, d, s, m). unat m)") (auto intro!: chunk_less simp: chunk_pos word_pos_unat)

declare copyinstr.simps [simp del]

subsection \<open>Which entries map a page\<close>

abbreviation pV :: "uint64 \<Rightarrow> bool" where "pV e \<equiv> e AND PTE_V \<noteq> 0"
abbreviation pU :: "uint64 \<Rightarrow> bool" where "pU e \<equiv> e AND PTE_U \<noteq> 0"
abbreviation pW :: "uint64 \<Rightarrow> bool" where "pW e \<equiv> e AND PTE_W \<noteq> 0"
abbreviation pC :: "uint64 \<Rightarrow> bool" where "pC e \<equiv> e AND PTE_C \<noteq> 0"

text \<open>What a set of page tables means: the leaf entry of each page of each address space.\<close>

type_synonym pmap = "addr \<Rightarrow> addr \<Rightarrow> uint64"

abbreviation upage :: "addr \<Rightarrow> bool" where "upage va \<equiv> aligned va \<and> va < MAXVA"

definition sites :: "pmap \<Rightarrow> addr set \<Rightarrow> addr \<Rightarrow> (addr \<times> addr) set" where
  "sites P pts q = {(pt, va). pt \<in> pts \<and> upage va \<and> pV (P pt va) \<and> PTE2PA (P pt va) = q}"

definition refs :: "pmap \<Rightarrow> addr set \<Rightarrow> addr \<Rightarrow> nat" where
  "refs P pts q = card (sites P pts q)"

definition upd :: "pmap \<Rightarrow> addr \<Rightarrow> addr \<Rightarrow> uint64 \<Rightarrow> pmap" where
  "upd P pt va v = (\<lambda>pt' vb. if pt' = pt \<and> vb = va then v else P pt' vb)"

lemma upd_simps [simp]:
  "upd P pt va v pt va = v" "pt' \<noteq> pt \<Longrightarrow> upd P pt va v pt' vb = P pt' vb"
  "vb \<noteq> va \<Longrightarrow> upd P pt va v pt' vb = P pt' vb"
  by (simp_all add: upd_def)

lemma finite_sites: "finite pts \<Longrightarrow> finite (sites P pts q)"
  by (rule finite_subset [of _ "pts \<times> UNIV"]) (auto simp: sites_def)

lemma sites_cong:
  "(\<And>pt va. pt \<in> pts \<Longrightarrow> upage va \<Longrightarrow> P pt va = Q pt va) \<Longrightarrow> sites P pts q = sites Q pts q"
  by (auto simp: sites_def)

lemma refs_cong:
  "(\<And>pt va. pt \<in> pts \<Longrightarrow> upage va \<Longrightarrow> P pt va = Q pt va) \<Longrightarrow> refs P pts q = refs Q pts q"
  unfolding refs_def using sites_cong [of pts P Q q] by simp

lemma sites_upd:
  assumes "pt \<in> pts" "upage va"
  shows "sites (upd P pt va v) pts q =
    (sites P pts q - {(pt, va)}) \<union> (if pV v \<and> PTE2PA v = q then {(pt, va)} else {})"
  using assms by (auto simp: sites_def upd_def split: if_splits)

lemma refs_unmap:
  assumes "finite pts" "pt \<in> pts" "upage va" "\<not> pV v" "pV (P pt va)"
  shows "refs (upd P pt va v) pts q = refs P pts q - (if PTE2PA (P pt va) = q then 1 else 0)"
proof -
  have "sites (upd P pt va v) pts q = sites P pts q - {(pt, va)}"
    using assms by (simp add: sites_upd)
  moreover have "(pt, va) \<in> sites P pts q \<longleftrightarrow> PTE2PA (P pt va) = q"
    using assms by (simp add: sites_def)
  ultimately show ?thesis using finite_sites [OF assms(1)] by (simp add: refs_def)
qed

lemma refs_map:
  assumes "finite pts" "pt \<in> pts" "upage va" "pV v" "\<not> pV (P pt va)"
  shows "refs (upd P pt va v) pts q = refs P pts q + (if PTE2PA v = q then 1 else 0)"
proof -
  have "(pt, va) \<notin> sites P pts q" using assms by (simp add: sites_def)
  then show ?thesis using assms finite_sites [OF assms(1)] by (simp add: refs_def sites_upd)
qed

lemma refs_flags:
  assumes "finite pts" "pt \<in> pts" "upage va" "pV v" "pV (P pt va)" "PTE2PA v = PTE2PA (P pt va)"
  shows "refs (upd P pt va v) pts q = refs P pts q"
proof -
  have "sites (upd P pt va v) pts q = sites P pts q"
    using assms by (subst sites_upd) (auto simp: sites_def)
  then show ?thesis by (simp add: refs_def)
qed

lemma refs_1D:
  assumes "finite pts" "refs P pts q = 1" "pt \<in> pts" "upage va" "pV (P pt va)" "PTE2PA (P pt va) = q"
    and "pt' \<in> pts" "upage vb" "pV (P pt' vb)" "PTE2PA (P pt' vb) = q"
  shows "pt' = pt" "vb = va"
proof -
  have "(pt, va) \<in> sites P pts q" "(pt', vb) \<in> sites P pts q" using assms by (auto simp: sites_def)
  then show "pt' = pt" "vb = va"
    using assms(2) by (auto simp: refs_def card_1_singleton_iff)
qed

lemma refs_pos:
  assumes "finite pts" "pt \<in> pts" "upage va" "pV (P pt va)"
  shows "0 < refs P pts (PTE2PA (P pt va))"
  using assms finite_sites [OF assms(1), of P "PTE2PA (P pt va)"]
  by (auto simp: refs_def card_gt_0_iff sites_def)

subsection \<open>The sharing invariant\<close>

text \<open>Every valid entry of a user page table maps a user page, which it may map writable only if no
  other entry maps that page, or a kernel page (the trampoline or the trap frame) that user code
  cannot reach.  The reference count of a user page is the number of entries that map it.\<close>

definition share_ok :: "roles \<Rightarrow> (addr \<Rightarrow> int) \<Rightarrow> pmap \<Rightarrow> addr set \<Rightarrow> bool" where
  "share_ok \<Gamma> ref P pts \<longleftrightarrow> finite pts \<and>
     (\<forall>pt \<in> pts. \<forall>va. upage va \<longrightarrow> pV (P pt va) \<longrightarrow>
        \<Gamma> (PTE2PA (P pt va)) = User \<and> (pW (P pt va) \<longrightarrow> refs P pts (PTE2PA (P pt va)) = 1) \<or>
        \<Gamma> (PTE2PA (P pt va)) = Kern \<and> \<not> pU (P pt va)) \<and>
     (\<forall>q. \<Gamma> q = User \<longrightarrow> 0 < refs P pts q \<and> ref q = int (refs P pts q))"

lemma share_okD:
  assumes "share_ok \<Gamma> ref P pts"
  shows "finite pts"
    and "pt \<in> pts \<Longrightarrow> upage va \<Longrightarrow> pV (P pt va) \<Longrightarrow>
      \<Gamma> (PTE2PA (P pt va)) = User \<and> (pW (P pt va) \<longrightarrow> refs P pts (PTE2PA (P pt va)) = 1) \<or>
      \<Gamma> (PTE2PA (P pt va)) = Kern \<and> \<not> pU (P pt va)"
    and "\<Gamma> q = User \<Longrightarrow> 0 < refs P pts q" "\<Gamma> q = User \<Longrightarrow> ref q = int (refs P pts q)"
  using assms by (auto simp: share_ok_def)

lemma share_cong:
  assumes "share_ok \<Gamma> ref P pts" "\<And>pt va. pt \<in> pts \<Longrightarrow> upage va \<Longrightarrow> Q pt va = P pt va"
    and "\<And>q. \<Gamma> q = User \<Longrightarrow> \<Delta> q = User" "\<And>q. \<Gamma> q = Kern \<Longrightarrow> \<Delta> q = Kern"
    and "\<And>q. \<Delta> q = User \<Longrightarrow> \<Gamma> q = User" "\<And>q. \<Gamma> q = User \<Longrightarrow> ref' q = ref q"
  shows "share_ok \<Delta> ref' Q pts"
proof -
  have r: "refs Q pts q = refs P pts q" for q by (rule refs_cong) (rule assms(2))
  show ?thesis
    unfolding share_ok_def
  proof (intro conjI ballI allI impI)
    fix pt va assume a: "pt \<in> pts" "upage va" "pV (Q pt va)"
    then have e: "Q pt va = P pt va" using assms(2) by blast
    then show "\<Delta> (PTE2PA (Q pt va)) = User \<and> (pW (Q pt va) \<longrightarrow> refs Q pts (PTE2PA (Q pt va)) = 1) \<or>
        \<Delta> (PTE2PA (Q pt va)) = Kern \<and> \<not> pU (Q pt va)"
      using share_okD(2) [OF assms(1) a(1,2)] a(3) assms(3,4) unfolding e r by blast
  qed (use share_okD [OF assms(1)] assms(5,6) r in \<open>auto\<close>)
qed

abbreviation leaf_ok :: "roles \<Rightarrow> pmap \<Rightarrow> addr set \<Rightarrow> uint64 \<Rightarrow> bool" where
  "leaf_ok \<Gamma> P pts e \<equiv> \<Gamma> (PTE2PA e) = User \<and> (pW e \<longrightarrow> refs P pts (PTE2PA e) = 1) \<or>
     \<Gamma> (PTE2PA e) = Kern \<and> \<not> pU e"

lemma share_okI:
  assumes "finite pts" "\<And>pt va. pt \<in> pts \<Longrightarrow> upage va \<Longrightarrow> pV (P pt va) \<Longrightarrow> leaf_ok \<Gamma> P pts (P pt va)"
    and "\<And>q. \<Gamma> q = User \<Longrightarrow> 0 < refs P pts q \<and> ref q = int (refs P pts q)"
  shows "share_ok \<Gamma> ref P pts"
  using assms unfolding share_ok_def by blast

lemma share_map_new:
  assumes sh: "share_ok \<Gamma> ref P pts" and pt: "pt \<in> pts" "upage va" "\<not> pV (P pt va)" and v: "pV v" "PTE2PA v = q"
    and new: "\<And>pt va. pt \<in> pts \<Longrightarrow> upage va \<Longrightarrow> pV (P pt va) \<Longrightarrow> PTE2PA (P pt va) \<noteq> q"
  shows "share_ok (\<Gamma>(q := User)) (ref(q := 1)) (upd P pt va v) pts"
proof -
  note fin = share_okD(1) [OF sh]
  have "sites P pts q = {}" using new by (auto simp: sites_def)
  then have 0: "refs P pts q = 0" by (simp add: refs_def)
  have r: "refs (upd P pt va v) pts p = refs P pts p + (if q = p then 1 else 0)" for p
    using refs_map [where P = P, OF fin pt(1,2) v(1) pt(3)] v(2) by simp
  show ?thesis
  proof (rule share_okI [OF fin])
    fix pt' vb assume a: "pt' \<in> pts" "upage vb" "pV (upd P pt va v pt' vb)"
    show "leaf_ok (\<Gamma>(q := User)) (upd P pt va v) pts (upd P pt va v pt' vb)"
    proof (cases "pt' = pt \<and> vb = va")
      case True
      then show ?thesis using r [of q] 0 v by simp
    next
      case False
      then have e: "upd P pt va v pt' vb = P pt' vb" by (auto simp: upd_def)
      then have "PTE2PA (P pt' vb) \<noteq> q" using new [OF a(1,2)] a(3) by simp
      then show ?thesis using share_okD(2) [OF sh a(1,2)] a(3) r unfolding e by simp
    qed
  next
    fix p assume "(\<Gamma>(q := User)) p = User"
    then show "0 < refs (upd P pt va v) pts p \<and> (ref(q := 1)) p = int (refs (upd P pt va v) pts p)"
      using r [of p] 0 share_okD(3,4) [OF sh, of p] by (cases "p = q") auto
  qed
qed

lemma share_map_shared:
  assumes sh: "share_ok \<Gamma> ref P pts" and pt: "pt \<in> pts" "upage va" "\<not> pV (P pt va)"
    and v: "pV v" "PTE2PA v = q" "\<not> pW v" "\<Gamma> q = User"
    and ro: "\<And>pt va. pt \<in> pts \<Longrightarrow> upage va \<Longrightarrow> pV (P pt va) \<Longrightarrow> PTE2PA (P pt va) = q \<Longrightarrow> \<not> pW (P pt va)"
  shows "share_ok \<Gamma> (ref(q := ref q + 1)) (upd P pt va v) pts"
proof -
  note fin = share_okD(1) [OF sh]
  have r: "refs (upd P pt va v) pts p = refs P pts p + (if q = p then 1 else 0)" for p
    using refs_map [where P = P, OF fin pt(1,2) v(1) pt(3)] v(2) by simp
  show ?thesis
  proof (rule share_okI [OF fin])
    fix pt' vb assume a: "pt' \<in> pts" "upage vb" "pV (upd P pt va v pt' vb)"
    show "leaf_ok \<Gamma> (upd P pt va v) pts (upd P pt va v pt' vb)"
    proof (cases "pt' = pt \<and> vb = va")
      case True
      then show ?thesis using v by simp
    next
      case False
      then have e: "upd P pt va v pt' vb = P pt' vb" by (auto simp: upd_def)
      then have "PTE2PA (P pt' vb) = q \<Longrightarrow> \<not> pW (P pt' vb)" using ro [OF a(1,2)] a(3) by simp
      then show ?thesis using share_okD(2) [OF sh a(1,2)] a(3) r unfolding e by auto
    qed
  next
    fix p assume "\<Gamma> p = User"
    then show "0 < refs (upd P pt va v) pts p \<and> (ref(q := ref q + 1)) p = int (refs (upd P pt va v) pts p)"
      using r [of p] share_okD(3,4) [OF sh, of p] by auto
  qed
qed

lemma share_unmap:
  assumes sh: "share_ok \<Gamma> ref P pts" and pt: "pt \<in> pts" "upage va" "pV (P pt va)" and v: "\<not> pV v"
    and q: "PTE2PA (P pt va) = q" "\<Gamma> q = User"
    and ref: "ref q > 1 \<Longrightarrow> \<Delta> = \<Gamma> \<and> ref' = ref(q := ref q - 1)" "ref q \<le> 1 \<Longrightarrow> \<Delta> = \<Gamma>(q := Free) \<and> ref' = ref"
  shows "share_ok \<Delta> ref' (upd P pt va v) pts"
proof -
  note fin = share_okD(1) [OF sh]
  note rq = share_okD(3,4) [OF sh q(2)]
  have r: "refs (upd P pt va v) pts p = refs P pts p - (if q = p then 1 else 0)" for p
    using refs_unmap [where P = P, OF fin pt(1,2) v pt(3)] q(1) by simp
  have left: "pt' \<noteq> pt \<or> vb \<noteq> va" if "pt' \<in> pts" "upage vb" "pV (upd P pt va v pt' vb)" for pt' vb
    using that v by (auto simp: upd_def)
  show ?thesis
  proof (cases "ref q > 1")
    case True
    show ?thesis unfolding ref(1) [OF True, THEN conjunct1] ref(1) [OF True, THEN conjunct2]
    proof (rule share_okI [OF fin])
      fix pt' vb assume a: "pt' \<in> pts" "upage vb" "pV (upd P pt va v pt' vb)"
      with left have e: "upd P pt va v pt' vb = P pt' vb" by (auto simp: upd_def)
      show "leaf_ok \<Gamma> (upd P pt va v) pts (upd P pt va v pt' vb)"
        using share_okD(2) [OF sh a(1,2)] a(3) r rq(2) True unfolding e by auto
    next
      fix p assume "\<Gamma> p = User"
      then show "0 < refs (upd P pt va v) pts p \<and> (ref(q := ref q - 1)) p = int (refs (upd P pt va v) pts p)"
        using r [of p] rq True share_okD(3,4) [OF sh, of p] by auto
    qed
  next
    case False
    then have 1: "refs P pts q = 1" "ref q \<le> 1" using rq by simp_all
    show ?thesis unfolding ref(2) [OF 1(2), THEN conjunct1] ref(2) [OF 1(2), THEN conjunct2]
    proof (rule share_okI [OF fin])
      fix pt' vb assume a: "pt' \<in> pts" "upage vb" "pV (upd P pt va v pt' vb)"
      with left have e: "upd P pt va v pt' vb = P pt' vb" by (auto simp: upd_def)
      have "PTE2PA (P pt' vb) \<noteq> q"
        using refs_1D [where P = P, OF fin 1(1) pt q(1) a(1,2)] a(3) left [OF a] unfolding e by blast
      then show "leaf_ok (\<Gamma>(q := Free)) (upd P pt va v) pts (upd P pt va v pt' vb)"
        using share_okD(2) [OF sh a(1,2)] a(3) r unfolding e by auto
    next
      fix p assume "(\<Gamma>(q := Free)) p = User"
      then show "0 < refs (upd P pt va v) pts p \<and> ref p = int (refs (upd P pt va v) pts p)"
        using r [of p] share_okD(3,4) [OF sh, of p] by (cases "p = q") auto
    qed
  qed
qed

lemma share_flags:
  assumes sh: "share_ok \<Gamma> ref P pts" and pt: "pt \<in> pts" "upage va" "pV (P pt va)"
    and v: "pV v" "PTE2PA v = PTE2PA (P pt va)" "leaf_ok \<Gamma> P pts v"
  shows "share_ok \<Gamma> ref (upd P pt va v) pts"
proof -
  note fin = share_okD(1) [OF sh]
  have r: "refs (upd P pt va v) pts p = refs P pts p" for p
    by (rule refs_flags [where P = P, OF fin pt(1,2) v(1) pt(3) v(2)])
  show ?thesis
  proof (rule share_okI [OF fin])
    fix pt' vb assume a: "pt' \<in> pts" "upage vb" "pV (upd P pt va v pt' vb)"
    then show "leaf_ok \<Gamma> (upd P pt va v) pts (upd P pt va v pt' vb)"
      using share_okD(2) [OF sh a(1,2)] v(3) unfolding r by (auto simp: upd_def split: if_splits)
  qed (use share_okD(3,4) [OF sh] r in auto)
qed

subsection \<open>Single-page steps\<close>

abbreviation pR :: "uint64 \<Rightarrow> bool" where "pR e \<equiv> e AND PTE_R \<noteq> 0"

definition vm_inv :: "'z kmem_scheme \<Rightarrow> roles \<Rightarrow> addr list \<Rightarrow> addr set \<Rightarrow> bool" where
  "vm_inv s \<Gamma> xs pts \<longleftrightarrow> pt_inv s \<Gamma> xs \<and> (\<forall>pt \<in> pts. \<Gamma> pt = Node pt []) \<and>
     (\<forall>q. \<Gamma> q = User \<longrightarrow> \<not> bad_pa s q) \<and>
     (\<forall>pt \<in> pts. \<forall>va. upage va \<longrightarrow> pV (pte_at (mem s) pt va) \<longrightarrow> pR (pte_at (mem s) pt va)) \<and>
     share_ok \<Gamma> (\<lambda>q. pageref s (pgof q)) (pte_at (mem s)) pts"

lemma vm_invD:
  assumes "vm_inv s \<Gamma> xs pts"
  shows "pt_inv s \<Gamma> xs" "pt \<in> pts \<Longrightarrow> \<Gamma> pt = Node pt []" "\<Gamma> q = User \<Longrightarrow> \<not> bad_pa s q"
    and "pt \<in> pts \<Longrightarrow> upage va \<Longrightarrow> pV (pte_at (mem s) pt va) \<Longrightarrow> pR (pte_at (mem s) pt va)"
    and "share_ok \<Gamma> (\<lambda>q. pageref s (pgof q)) (pte_at (mem s)) pts"
  using assms unfolding vm_inv_def by blast+

lemma upage_last: "upage va \<Longrightarrow> PGROUNDDOWN (va + PGSIZE - 1) = va"
proof -
  assume va: "upage va"
  have "va + PGSIZE - 1 = va + 4095" by (simp add: PGSIZE_def)
  moreover have "pgof (va + 4095) = pgof va" by (rule pgof_offset) (use va in simp_all)
  ultimately show ?thesis using va by (simp only: base_eq)
qed

lemma upage_not_ge: "upage va \<Longrightarrow> \<not> MAXVA \<le> va"
  by (simp add: not_le)

lemma upage_next: "upage va \<Longrightarrow> va < va + PGSIZE"
  by (simp add: MAXVA_def PGSIZE_def word_less_nat_alt unat_word_ariths)

lemma mappages_one_run:
  assumes "upage va"
  shows "mappages pt va PGSIZE pa perm s = (case walk pt va True s of
      Ok pte t \<Rightarrow> if pte = 0 then Ok (-1) t
        else if pV (load64 (mem t) pte) then Panic ''mappages: remap''
        else Ok 0 (t\<lparr>mem := store64 (mem t) pte (PA2PTE pa OR perm OR PTE_V)\<rparr>)
    | Panic e \<Rightarrow> Panic e | Sleep c t \<Rightarrow> Sleep c t)"
proof -
  have "PGSIZE \<noteq> 0" by (simp add: PGSIZE_def)
  then show ?thesis
    using upage_not_ge [OF assms] assms
    by (simp add: mappages_def mappages_loop.simps upage_last [OF assms] PGROUNDDOWN_id run_simps
        split: res.split)
qed

lemma walk_present:
  assumes inv: "pt_inv s \<Gamma> xs" and r: "\<Gamma> r = Node pt (leafpath va)" and va: "va < MAXVA"
  shows "walk pt va alloc s = Ok (r + 8 * PX 0 va) s"
proof -
  from nodeD(5) [OF inv r] obtain p
    where p: "\<Gamma> p = Node pt [PX 2 va]" "load64 (mem s) (p + 8 * PX 1 va) = PA2PTE r OR PTE_V" by auto
  from nodeD(5) [OF inv p(1)] obtain q
    where q: "\<Gamma> q = Node pt []" "load64 (mem s) (q + 8 * PX 2 va) = PA2PTE p OR PTE_V" by auto
  have "q = pt" using nodeD(5) [OF inv q(1)] by simp
  then show ?thesis
    using p q nodeD(2) [OF inv r] nodeD(2) [OF inv p(1)]
    by (simp add: walk_run [OF va] numeral_2_eq_2 Let_def run_simps)
qed

lemma leaf_node:
  assumes inv: "pt_inv s \<Gamma> xs" and pt: "\<Gamma> pt = Node pt []" and v: "pte_at (mem s) pt va \<noteq> 0"
  obtains r where "\<Gamma> r = Node pt (leafpath va)" "load64 (mem s) (r + 8 * PX 0 va) = pte_at (mem s) pt va"
  using pte_at_none [OF inv pt, of va] v pte_at_reach [OF inv] by metis

text \<open>A change of one leaf entry, after adding the table pages that lead to it.\<close>

definition ptchg :: "'z kmem_scheme \<Rightarrow> roles \<Rightarrow> addr list \<Rightarrow> 'z kmem_scheme \<Rightarrow> roles \<Rightarrow> addr list \<Rightarrow>
    addr \<Rightarrow> addr \<Rightarrow> uint64 \<Rightarrow> bool" where
  "ptchg s \<Gamma> xs u \<Delta> ys pt va v \<longleftrightarrow> (\<exists>t r. grown s \<Gamma> xs t \<Delta> ys \<and> \<Delta> r = Node pt (leafpath va) \<and>
     u = t\<lparr>mem := store64 (mem t) (r + 8 * PX 0 va) v\<rparr>)"

lemma ptchgD:
  assumes "ptchg s \<Gamma> xs u \<Delta> ys pt va v" and va: "upage va"
  shows "pt_inv u \<Delta> ys" "vm_upd s u" "\<exists>zs. xs = zs @ ys" "\<Gamma> q \<noteq> Free \<Longrightarrow> \<Delta> q = \<Gamma> q"
    and "plain (\<Delta> q) \<Longrightarrow> \<Gamma> q = \<Delta> q" "plain (\<Gamma> (PGROUNDDOWN a)) \<Longrightarrow> mem u a = mem s a"
    and "aligned q \<Longrightarrow> \<Gamma> q \<noteq> Free \<Longrightarrow> pageref u (pgof q) = pageref s (pgof q)"
    and "\<Gamma> pt' = Node pt' [] \<Longrightarrow> upage vb \<Longrightarrow> pte_at (mem u) pt' vb = upd (pte_at (mem s)) pt va v pt' vb"
proof -
  from assms(1) obtain t r where g: "grown s \<Gamma> xs t \<Delta> ys" and r: "\<Delta> r = Node pt (leafpath va)"
    and u: "u = t\<lparr>mem := store64 (mem t) (r + 8 * PX 0 va) v\<rparr>" unfolding ptchg_def by blast
  note inv = grownD(1) [OF g]
  show "pt_inv u \<Delta> ys" unfolding u by (rule leaf_store_inv [OF inv r]) (simp_all add: PX_lt)
  have "vm_upd t u" unfolding u by (rule vm_updI(2))
  then show "vm_upd s u" by (rule vm_upd_trans [OF grownD(2) [OF g]])
  show "\<exists>zs. xs = zs @ ys" by (rule grownD(3) [OF g])
  show "\<Gamma> q \<noteq> Free \<Longrightarrow> \<Delta> q = \<Gamma> q" by (rule grownD(4) [OF g])
  show "plain (\<Delta> q) \<Longrightarrow> \<Gamma> q = \<Delta> q" by (rule grownD(5) [OF g])
  show "aligned q \<Longrightarrow> \<Gamma> q \<noteq> Free \<Longrightarrow> pageref u (pgof q) = pageref s (pgof q)"
    unfolding u using grownD(7) [OF g] by simp
  show "mem u a = mem s a" if a: "plain (\<Gamma> (PGROUNDDOWN a))"
  proof -
    have "\<Delta> (PGROUNDDOWN a) = \<Gamma> (PGROUNDDOWN a)" using a by (intro grownD(4) [OF g]) auto
    then have "PGROUNDDOWN a \<noteq> r" using a r by (metis role.distinct)
    then have "pgof a \<noteq> pgof r" using base_eq [OF nodeD(2) [OF inv r]] by blast
    from store64_slot_frame [OF nodeD(2) [OF inv r] PX_lt this] grownD(6) [OF g a]
    show ?thesis unfolding u by simp
  qed
  show "pte_at (mem u) pt' vb = upd (pte_at (mem s)) pt va v pt' vb"
    if pt': "\<Gamma> pt' = Node pt' []" and vb: "upage vb"
  proof -
    have "\<Delta> pt' = Node pt' []" using grownD(4) [OF g, of pt'] pt' by simp
    from leaf_store_pte [OF inv r this, of vb v] va vb grownD(8) [OF g pt', of vb]
    show ?thesis unfolding u upd_def by (simp add: PGROUNDDOWN_id)
  qed
qed

lemma ptchg_here:
  "pt_inv s \<Gamma> xs \<Longrightarrow> \<Gamma> r = Node pt (leafpath va) \<Longrightarrow>
    ptchg s \<Gamma> xs (s\<lparr>mem := store64 (mem s) (r + 8 * PX 0 va) v\<rparr>) \<Gamma> xs pt va v"
  unfolding ptchg_def using grown_refl by blast

lemma mappages_one:
  assumes inv: "pt_inv s \<Gamma> xs" and pt: "\<Gamma> pt = Node pt []" and va: "upage va"
    and free: "\<not> pV (pte_at (mem s) pt va)"
  obtains (full) t \<Delta> where "mappages pt va PGSIZE pa perm s = Ok (-1) t" "grown s \<Gamma> xs t \<Delta> []"
    | (ok) t \<Delta> ys where "mappages pt va PGSIZE pa perm s = Ok 0 t"
        "ptchg s \<Gamma> xs t \<Delta> ys pt va (PA2PTE pa OR perm OR PTE_V)"
proof -
  from va have "va < MAXVA" by simp
  from inv pt this show thesis
  proof (cases rule: walk_alloc)
    case (full t \<Delta>)
    have "mappages pt va PGSIZE pa perm s = Ok (-1) t" by (simp add: mappages_one_run [OF va] full(1))
    then show ?thesis using that(1) full(2) by blast
  next
    case (slot t \<Delta> ys r)
    have "load64 (mem t) (r + 8 * PX 0 va) = pte_at (mem s) pt va"
      using pte_at_reach [OF grownD(1) [OF slot(2)] slot(3)] grownD(8) [OF slot(2) pt] by simp
    then have "mappages pt va PGSIZE pa perm s =
        Ok 0 (t\<lparr>mem := store64 (mem t) (r + 8 * PX 0 va) (PA2PTE pa OR perm OR PTE_V)\<rparr>)"
      using mappages_one_run [OF va, of pt pa perm s] slot(1,4) free by simp
    then show ?thesis using that(2) slot(2,3) unfolding ptchg_def by blast
  qed
qed

text \<open>What user code reads at a virtual address; \<open>None\<close> where it cannot read.\<close>

definition uview :: "'z kmem_scheme \<Rightarrow> addr \<Rightarrow> addr \<Rightarrow> uchar option" where
  "uview s pt va =
     (let e = pte_at (mem s) pt va
      in if va < MAXVA \<and> pV e \<and> pU e then Some (mem s (PTE2PA e + take_bit 12 va)) else None)"

lemma in_target: "PGROUNDDOWN (PTE2PA e + take_bit 12 va) = PTE2PA e"
  using pgof_offset [OF PTE2PA_aligned take_bit_12_lt] by (simp add: base_eq)

lemma upage_base: "va < MAXVA \<Longrightarrow> upage (PGROUNDDOWN va)"
  by (simp add: base_lt_MAXVA)

lemma pte_at_page: "pte_at m pt (PGROUNDDOWN va) = pte_at m pt va"
  by (rule pte_at_base) simp

text \<open>An entry and its page that a step keeps are seen the same before and after.\<close>

lemma uview_cong:
  assumes "pt \<in> pts" "vm_inv t \<Delta> ys pts"
    and "va < MAXVA \<Longrightarrow> pte_at (mem t) pt (PGROUNDDOWN va) = pte_at (mem s) pt (PGROUNDDOWN va)"
    and "\<And>a. \<Delta> (PGROUNDDOWN a) = User \<Longrightarrow> pV (pte_at (mem s) pt (PGROUNDDOWN va)) \<Longrightarrow> va < MAXVA \<Longrightarrow>
      PGROUNDDOWN a = PTE2PA (pte_at (mem s) pt (PGROUNDDOWN va)) \<Longrightarrow> mem t a = mem s a"
  shows "uview t pt va = uview s pt va"
proof (cases "va < MAXVA \<and> pV (pte_at (mem t) pt va) \<and> pU (pte_at (mem t) pt va)")
  case True
  have "\<Delta> (PTE2PA (pte_at (mem t) pt va)) = User"
    using share_okD(2) [OF vm_invD(5) [OF assms(2)] assms(1) upage_base [of va]] True
    by (auto simp: pte_at_page)
  then have "mem t (PTE2PA (pte_at (mem t) pt va) + take_bit 12 va) =
      mem s (PTE2PA (pte_at (mem t) pt va) + take_bit 12 va)"
    using True assms(3) by (intro assms(4)) (simp_all add: in_target pte_at_page)
  then show ?thesis using True assms(3) by (simp add: uview_def Let_def pte_at_page)
next
  case False
  then show ?thesis using assms(3) by (auto simp: uview_def Let_def pte_at_page)
qed

lemma uvmunmap_one_run:
  assumes "upage va"
  shows "uvmunmap pt va 1 True s = (case walk pt va False s of
      Ok pte t \<Rightarrow> if pte = 0 then Panic ''uvmunmap: walk''
        else let e = load64 (mem t) pte in
          if \<not> pV e then Panic ''uvmunmap: not mapped''
          else if PTE_FLAGS e = PTE_V then Panic ''uvmunmap: not a leaf''
          else (case kfree (PTE2PA e) t of
              Ok _ t' \<Rightarrow> Ok () (t'\<lparr>mem := store64 (mem t') pte 0\<rparr>)
            | Panic e \<Rightarrow> Panic e | Sleep c t \<Rightarrow> Sleep c t)
    | Panic e \<Rightarrow> Panic e | Sleep c t \<Rightarrow> Sleep c t)"
proof -
  have al: "va mod PGSIZE = 0" using assms by (simp add: mod_PGSIZE)
  have stop: "uvmunmap_loop pt (va + PGSIZE) (va + PGSIZE) True u = Ok () u" for u
    by (simp add: uvmunmap_loop.simps run_simps)
  show ?thesis
    using upage_not_ge [OF assms] upage_next [OF assms] al
    by (simp add: uvmunmap_def uvmunmap_loop.simps [of pt va] run_simps stop Let_def split: res.split)
qed

lemma bit_flag: "(e :: uint64) AND PTE_R = 0 \<longleftrightarrow> \<not> bit e 1" "e AND PTE_V = 0 \<longleftrightarrow> \<not> bit e 0"
  "e AND PTE_W = 0 \<longleftrightarrow> \<not> bit e 2" "e AND PTE_U = 0 \<longleftrightarrow> \<not> bit e 4" "e AND PTE_C = 0 \<longleftrightarrow> \<not> bit e 8"
proof -
  have e: "e AND push_bit k 1 = 0 \<longleftrightarrow> \<not> bit e k" if "k < 64" for k
  proof
    assume "e AND push_bit k 1 = 0"
    then have "\<not> bit (e AND push_bit k 1) k" by simp
    then show "\<not> bit e k" using that by (simp add: bit_simps)
  next
    assume "\<not> bit e k"
    then show "e AND push_bit k 1 = 0" by (intro bit_word_eqI) (auto simp: bit_simps bit_1_iff)
  qed
  show "e AND PTE_R = 0 \<longleftrightarrow> \<not> bit e 1" "e AND PTE_V = 0 \<longleftrightarrow> \<not> bit e 0"
    "e AND PTE_W = 0 \<longleftrightarrow> \<not> bit e 2" "e AND PTE_U = 0 \<longleftrightarrow> \<not> bit e 4" "e AND PTE_C = 0 \<longleftrightarrow> \<not> bit e 8"
    using e [of 1] e [of 0] e [of 2] e [of 4] e [of 8] by (simp_all add: pte_bits)
qed

lemma not_V_flags: "pR e \<Longrightarrow> PTE_FLAGS e \<noteq> PTE_V"
proof
  assume "pR e" "PTE_FLAGS e = PTE_V"
  then have "bit e 1" "\<not> bit (PTE_FLAGS e) 1" by (simp_all add: bit_flag) (simp add: PTE_V_def)
  then show False by (simp add: PTE_FLAGS_bit)
qed

subsection \<open>Removing a user page\<close>

lemma kfree_role:
  assumes inv: "vm_inv s \<Gamma> xs pts" and q: "\<Gamma> q = User"
  obtains t \<Delta> ys where "kfree q s = Ok () t" "pt_inv t \<Delta> ys" "vm_upd s t"
    "\<And>a. PGROUNDDOWN a \<noteq> q \<Longrightarrow> mem t a = mem s a" "\<And>a. \<Delta> (PGROUNDDOWN a) = User \<Longrightarrow> mem t a = mem s a"
    "pageref s (pgof q) > 1 \<Longrightarrow> \<Delta> = \<Gamma> \<and> ys = xs \<and> pageref t = (pageref s)(pgof q := pageref s (pgof q) - 1)"
    "pageref s (pgof q) \<le> 1 \<Longrightarrow> \<Delta> = \<Gamma>(q := Free) \<and> ys = q # xs \<and> pageref t = pageref s"
proof (cases "pageref s (pgof q) > 1")
  case True
  from kfree_shared_inv [OF vm_invD(1) [OF inv] _ vm_invD(3) [OF inv q] True] q obtain t
    where t: "kfree q s = Ok () t" "pt_inv t \<Gamma> xs" "vm_upd s t" "mem t = mem s"
      "pageref t = (pageref s)(pgof q := pageref s (pgof q) - 1)" by blast
  show ?thesis by (rule that [OF t(1-3)]) (use t True in auto)
next
  case False
  then have le: "pageref s (pgof q) \<le> 1" by simp
  from kfree_last_inv [OF vm_invD(1) [OF inv] _ vm_invD(3) [OF inv q] le] q obtain t
    where t: "kfree q s = Ok () t" "pt_inv t (\<Gamma>(q := Free)) (q # xs)" "vm_upd s t" "pageref t = pageref s"
      "\<And>a. PGROUNDDOWN a \<noteq> q \<Longrightarrow> mem t a = mem s a" by blast
  show ?thesis
  proof (rule that [OF t(1-3)])
    fix a assume "(\<Gamma>(q := Free)) (PGROUNDDOWN a) = User"
    then have "PGROUNDDOWN a \<noteq> q" by auto
    then show "mem t a = mem s a" by (rule t(5))
  qed (use t False in auto)
qed

text \<open>The state after removing the mapping of one user page: the page is free if nobody else maps it.\<close>

lemma unmap_one:
  assumes inv: "vm_inv s \<Gamma> xs pts" and pt: "pt \<in> pts" "upage va" "pV (pte_at (mem s) pt va)"
    and q: "PTE2PA (pte_at (mem s) pt va) = q" "\<Gamma> q = User"
  obtains t \<Delta> ys where "uvmunmap pt va 1 True s = Ok () t" "vm_inv t \<Delta> ys pts" "vm_upd s t"
    "\<And>pt' vb. pt' \<in> pts \<Longrightarrow> upage vb \<Longrightarrow> pte_at (mem t) pt' vb = upd (pte_at (mem s)) pt va 0 pt' vb"
    "\<And>a. plain (\<Delta> (PGROUNDDOWN a)) \<Longrightarrow> mem t a = mem s a"
    "pageref s (pgof q) > 1 \<Longrightarrow> \<Delta> = \<Gamma> \<and> ys = xs" "pageref s (pgof q) \<le> 1 \<Longrightarrow> \<Delta> = \<Gamma>(q := Free) \<and> ys = q # xs"
    "\<And>p. p \<noteq> pgof q \<Longrightarrow> pageref t p = pageref s p"
proof -
  note pinv = vm_invD(1) [OF inv] and root = vm_invD(2) [OF inv]
  let ?e = "pte_at (mem s) pt va"
  have "?e \<noteq> 0" using pt(3) by auto
  from leaf_node [OF pinv root [OF pt(1)] this] obtain r
    where r: "\<Gamma> r = Node pt (leafpath va)" "load64 (mem s) (r + 8 * PX 0 va) = ?e" .
  have va: "va < MAXVA" using pt(2) by simp
  obtain t \<Delta> ys where t: "kfree q s = Ok () t" "pt_inv t \<Delta> ys" "vm_upd s t"
    "\<And>a. PGROUNDDOWN a \<noteq> q \<Longrightarrow> mem t a = mem s a" "\<And>a. \<Delta> (PGROUNDDOWN a) = User \<Longrightarrow> mem t a = mem s a"
    "pageref s (pgof q) > 1 \<Longrightarrow> \<Delta> = \<Gamma> \<and> ys = xs \<and> pageref t = (pageref s)(pgof q := pageref s (pgof q) - 1)"
    "pageref s (pgof q) \<le> 1 \<Longrightarrow> \<Delta> = \<Gamma>(q := Free) \<and> ys = q # xs \<and> pageref t = pageref s"
    by (rule kfree_role [OF inv q(2)]) (rule that)
  have \<Delta>: "\<Delta> = \<Gamma> \<or> \<Delta> = \<Gamma>(q := Free)" using t(6,7) by (meson not_less)
  then have node: "\<Delta> p = Node pt' is \<longleftrightarrow> \<Gamma> p = Node pt' is" for p pt' "is" using q(2) by (auto split: if_splits)
  let ?u = "t\<lparr>mem := store64 (mem t) (r + 8 * PX 0 va) 0\<rparr>"
  have ch: "ptchg t \<Delta> ys ?u \<Delta> ys pt va 0" using ptchg_here [OF t(2)] r(1) node by blast
  have run: "uvmunmap pt va 1 True s = Ok () ?u"
    using walk_present [OF pinv r(1) va] slot_nonzero [OF pinv r(1) PX_lt] r(2) pt q(1) t(1)
      not_V_flags [OF vm_invD(4) [OF inv pt]]
    by (simp add: uvmunmap_one_run Let_def)
  have pte_t: "pte_at (mem t) pt' vb = pte_at (mem s) pt' vb" if "pt' \<in> pts" for pt' vb
  proof (rule pte_at_frame [OF pinv t(2) root [OF that] node])
    fix a pt' "is" assume "\<Gamma> (PGROUNDDOWN a) = Node pt' is"
    then show "mem t a = mem s a" using q(2) by (intro t(4)) auto
  qed
  have pte_u: "pte_at (mem ?u) pt' vb = upd (pte_at (mem s)) pt va 0 pt' vb" if "pt' \<in> pts" "upage vb" for pt' vb
    using ptchgD(8) [OF ch pt(2), of pt' vb] that root node pte_t by (simp add: upd_def)
  have m: "mem ?u a = mem s a" if "plain (\<Delta> (PGROUNDDOWN a))" for a
  proof -
    have "mem ?u a = mem t a" by (rule ptchgD(6) [OF ch pt(2) that])
    also have "\<dots> = mem s a"
    proof (cases "PGROUNDDOWN a = q")
      case True
      then have "\<Delta> (PGROUNDDOWN a) = User" using \<Delta> that q(2) by auto
      then show ?thesis by (rule t(5))
    qed (rule t(4))
    finally show ?thesis .
  qed
  let ?ref = "\<lambda>p. pageref s (pgof p)"
  let ?ref' = "if ?ref q > 1 then ?ref(q := ?ref q - 1) else ?ref"
  have "share_ok \<Delta> ?ref' (upd (pte_at (mem s)) pt va 0) pts"
    by (rule share_unmap [OF vm_invD(5) [OF inv] pt _ q]) (use t(6,7) in auto)
  then have "share_ok \<Delta> (\<lambda>p. pageref ?u (pgof p)) (pte_at (mem ?u)) pts"
  proof (rule share_cong)
    fix p assume "\<Delta> p = User"
    then have "\<Gamma> p = User" using \<Delta> by (auto split: if_splits)
    then have "aligned p" "aligned q" using vm_invD(3) [OF inv] q(2) valid_pa_aligned by blast+
    then show "pageref ?u (pgof p) = ?ref' p" using t(6,7) by (auto simp: pgof_inj)
  qed (use pte_u in auto)
  moreover have "\<not> bad_pa ?u p" if "\<Delta> p = User" for p
  proof -
    have "\<Gamma> p = User" using \<Delta> that by (auto split: if_splits)
    then show ?thesis using vm_invD(3) [OF inv] vm_updD(3) [OF t(3)] by simp
  qed
  moreover have "pR (pte_at (mem ?u) pt' vb)" if "pt' \<in> pts" "upage vb" "pV (pte_at (mem ?u) pt' vb)" for pt' vb
    using that pte_u [OF that(1,2)] vm_invD(4) [OF inv that(1,2)] by (auto simp: upd_def split: if_splits)
  ultimately have "vm_inv ?u \<Delta> ys pts"
    unfolding vm_inv_def using ptchgD(1) [OF ch pt(2)] root node by blast
  moreover have "vm_upd s ?u" by (rule vm_upd_trans [OF t(3) ptchgD(2) [OF ch pt(2)]])
  moreover have "pageref ?u p = pageref s p" if "p \<noteq> pgof q" for p
    using that t(6,7) by (cases "pageref s (pgof q) > 1") auto
  ultimately show ?thesis using that [OF run] pte_u m t(6,7) by blast
qed

subsection \<open>Adding a user page\<close>

definition unmapped :: "'z kmem_scheme \<Rightarrow> addr set \<Rightarrow> addr \<Rightarrow> bool" where
  "unmapped s pts q \<longleftrightarrow> (\<forall>pt \<in> pts. \<forall>va. upage va \<longrightarrow> pV (pte_at (mem s) pt va) \<longrightarrow> PTE2PA (pte_at (mem s) pt va) \<noteq> q)"

lemma leaf_value:
  assumes "aligned q" "take_bit 10 perm = perm"
  shows "PTE2PA (PA2PTE q OR perm OR PTE_V) = q" "pV (PA2PTE q OR perm OR PTE_V)"
    "PTE_FLAGS (PA2PTE q OR perm OR PTE_V) = perm OR PTE_V"
    "take_bit 10 k = k \<Longrightarrow> (PA2PTE q OR perm OR PTE_V) AND k = (perm OR PTE_V) AND k"
proof -
  have p: "take_bit 10 (perm OR PTE_V) = perm OR PTE_V" using assms(2) by simp
  show "PTE2PA (PA2PTE q OR perm OR PTE_V) = q"
    using PTE2PA_PA2PTE [OF assms(1) p] by (simp add: or.assoc)
  show "PTE_FLAGS (PA2PTE q OR perm OR PTE_V) = perm OR PTE_V"
    using PTE_FLAGS_PA2PTE [OF p] by (simp add: or.assoc)
  show "pV (PA2PTE q OR perm OR PTE_V)" by (simp add: bit_flag bit_or_iff) (simp add: PTE_V_def)
  show "take_bit 10 k = k \<Longrightarrow> (PA2PTE q OR perm OR PTE_V) AND k = (perm OR PTE_V) AND k"
    using PA2PTE_flags [of k q "perm OR PTE_V"] by (simp add: or.assoc)
qed

lemma map_new_inv:
  assumes inv: "vm_inv s \<Gamma> xs pts" and pt: "pt \<in> pts" "upage va" "\<not> pV (pte_at (mem s) pt va)"
    and q: "\<Gamma> q = Kern" "\<not> bad_pa s q" "pageref s (pgof q) = 1" "unmapped s pts q"
    and v: "pV v" "pR v" "PTE2PA v = q" and ch: "ptchg s \<Gamma> xs t \<Delta> ys pt va v"
  shows "vm_inv t (\<Delta>(q := User)) ys pts"
proof -
  note D = ptchgD [OF ch pt(2)]
  have root: "\<Gamma> p = Node p []" if "p \<in> pts" for p using vm_invD(2) [OF inv that] .
  have al: "aligned q" using q(2) by (rule valid_pa_aligned)
  have \<Delta>q: "\<Delta> q = Kern" using D(4) [of q] q(1) by simp
  have pte: "pte_at (mem t) p vb = upd (pte_at (mem s)) pt va v p vb" if "p \<in> pts" "upage vb" for p vb
    by (rule D(8) [OF root [OF that(1)] that(2)])
  have "share_ok (\<Gamma>(q := User)) ((\<lambda>p. pageref s (pgof p))(q := 1)) (upd (pte_at (mem s)) pt va v) pts"
    using q(4) by (intro share_map_new [OF vm_invD(5) [OF inv] pt v(1,3)]) (simp add: unmapped_def)
  then have "share_ok (\<Delta>(q := User)) (\<lambda>p. pageref t (pgof p)) (pte_at (mem t)) pts"
  proof (rule share_cong)
    fix p assume p: "(\<Gamma>(q := User)) p = User"
    show "(\<Delta>(q := User)) p = User" using p D(4) [of p] by (auto split: if_splits)
    have "aligned p" "\<Gamma> p \<noteq> Free"
      using p al q(1) vm_invD(3) [OF inv, of p] valid_pa_aligned [of s p] by (auto split: if_splits)
    then show "pageref t (pgof p) = ((\<lambda>p. pageref s (pgof p))(q := 1)) p"
      using D(7) q(3) by simp
  next
    fix p assume "(\<Gamma>(q := User)) p = Kern"
    then show "(\<Delta>(q := User)) p = Kern" using D(4) [of p] by (auto split: if_splits)
  next
    fix p assume "(\<Delta>(q := User)) p = User"
    then show "(\<Gamma>(q := User)) p = User" using D(5) [of p] by (auto split: if_splits)
  qed (use pte in auto)
  moreover have "pt_inv t (\<Delta>(q := User)) ys" by (rule pt_inv_role [OF D(1)]) (use \<Delta>q in auto)
  moreover have "(\<Delta>(q := User)) p = Node p []" if "p \<in> pts" for p
    using root [OF that] D(4) [of p] q(1) by auto
  moreover have "\<not> bad_pa t p" if "(\<Delta>(q := User)) p = User" for p
    using that q(2) D(5) [of p] vm_invD(3) [OF inv, of p] vm_updD(3) [OF D(2)] by (auto split: if_splits)
  moreover have "pR (pte_at (mem t) p vb)" if "p \<in> pts" "upage vb" "pV (pte_at (mem t) p vb)" for p vb
    using that pte [OF that(1,2)] vm_invD(4) [OF inv that(1,2)] v(2) by (auto simp: upd_def split: if_splits)
  ultimately show ?thesis unfolding vm_inv_def by blast
qed

text \<open>A page from the free list is mapped nowhere.\<close>

lemma kalloc_vm:
  assumes inv: "vm_inv s \<Gamma> (x # xs) pts"
  obtains t where "kalloc s = Ok x t" "x \<noteq> 0" "vm_inv t (\<Gamma>(x := Kern)) xs pts" "vm_upd s t" "\<not> bad_pa t x"
    "pageref t (pgof x) = 1" "unmapped t pts x" "\<And>a. PGROUNDDOWN a \<noteq> x \<Longrightarrow> mem t a = mem s a"
    "\<And>pt va. pt \<in> pts \<Longrightarrow> pte_at (mem t) pt va = pte_at (mem s) pt va" "\<Gamma> x = Free"
    "\<And>p. p \<noteq> pgof x \<Longrightarrow> pageref t p = pageref s p"
proof -
  note pinv = vm_invD(1) [OF inv]
  have x: "\<Gamma> x = Free" using pt_invD(3) [OF pinv, of x] by simp
  from kalloc_inv [OF pinv] obtain t where t: "kalloc s = Ok x t" "pt_inv t (\<Gamma>(x := Kern)) xs" "vm_upd s t"
      "\<not> bad_pa s x" "pageref t = (pageref s)(pgof x := 1)" "\<And>a. PGROUNDDOWN a \<noteq> x \<Longrightarrow> mem t a = mem s a"
    by blast
  have bad: "bad_pa t = bad_pa s" by (rule vm_updD(3) [OF t(3)])
  have pte: "pte_at (mem t) pt va = pte_at (mem s) pt va" if "pt \<in> pts" for pt va
  proof (rule pte_at_frame [OF pinv t(2) vm_invD(2) [OF inv that]])
    show "(\<Gamma>(x := Kern)) q = Node pt is \<longleftrightarrow> \<Gamma> q = Node pt is" for q "is" using x by auto
    show "mem t a = mem s a" if "\<Gamma> (PGROUNDDOWN a) = Node p is" for a p "is"
      using that x by (intro t(6)) auto
  qed
  have "share_ok (\<Gamma>(x := Kern)) (\<lambda>p. pageref t (pgof p)) (pte_at (mem t)) pts"
  proof (rule share_cong [OF vm_invD(5) [OF inv]])
    fix p assume p: "\<Gamma> p = User"
    then have "pgof p \<noteq> pgof x"
      using x valid_pgof_inj [OF vm_invD(3) [OF inv p] t(4)] by auto
    then show "pageref t (pgof p) = pageref s (pgof p)" by (simp add: t(5))
  qed (use x pte in \<open>auto split: if_splits\<close>)
  then have "vm_inv t (\<Gamma>(x := Kern)) xs pts"
    unfolding vm_inv_def using t(2) vm_invD(2-4) [OF inv] x pte bad by (auto split: if_splits)
  moreover have "unmapped t pts x"
    unfolding unmapped_def
  proof (intro ballI allI impI notI)
    fix pt va assume a: "pt \<in> pts" "upage va" "pV (pte_at (mem t) pt va)" "PTE2PA (pte_at (mem t) pt va) = x"
    then show False using share_okD(2) [OF vm_invD(5) [OF inv] a(1,2)] x by (auto simp: pte)
  qed
  moreover have "x \<noteq> 0"
    using valid_pa_nonzero [OF _ t(4)] pt_invD(1) [OF pinv] by (auto simp: free_inv_def)
  ultimately show ?thesis using that t pte x bad by (metis fun_upd_other fun_upd_same)
qed

subsection \<open>\<open>cowalloc\<close>\<close>

lemma mappages_present:
  assumes inv: "pt_inv s \<Gamma> xs" and r: "\<Gamma> r = Node pt (leafpath va)" and va: "upage va"
    and free: "\<not> pV (pte_at (mem s) pt va)"
  obtains t where "mappages pt va PGSIZE pa perm s = Ok 0 t"
    "ptchg s \<Gamma> xs t \<Gamma> xs pt va (PA2PTE pa OR perm OR PTE_V)"
proof (rule that)
  let ?t = "s\<lparr>mem := store64 (mem s) (r + 8 * PX 0 va) (PA2PTE pa OR perm OR PTE_V)\<rparr>"
  have "walk pt va True s = Ok (r + 8 * PX 0 va) s" using walk_present [OF inv r] va by simp
  moreover have "load64 (mem s) (r + 8 * PX 0 va) = pte_at (mem s) pt va" using pte_at_reach [OF inv r] by simp
  ultimately show "mappages pt va PGSIZE pa perm s = Ok 0 ?t"
    using slot_nonzero [OF inv r PX_lt, of 0 va] free by (simp add: mappages_one_run [OF va])
  show "ptchg s \<Gamma> xs ?t \<Gamma> xs pt va (PA2PTE pa OR perm OR PTE_V)" by (rule ptchg_here [OF inv r])
qed

text \<open>Memory that neither a page table nor the free list lives in may change freely.\<close>

lemma vm_inv_mem:
  assumes inv: "vm_inv s \<Gamma> xs pts" and m: "\<And>a. \<not> plain (\<Gamma> (PGROUNDDOWN a)) \<Longrightarrow> m' a = mem s a"
  shows "vm_inv (s\<lparr>mem := m'\<rparr>) \<Gamma> xs pts" "pt \<in> pts \<Longrightarrow> pte_at m' pt va = pte_at (mem s) pt va"
proof -
  let ?t = "s\<lparr>mem := m'\<rparr>"
  note pinv = vm_invD(1) [OF inv]
  have t: "pt_inv ?t \<Gamma> xs" by (rule pt_inv_frame [OF pinv]) (simp_all add: m)
  have pte: "pte_at m' p vb = pte_at (mem s) p vb" if "p \<in> pts" for p vb
  proof -
    have "pte_at (mem ?t) p vb = pte_at (mem s) p vb"
    proof (rule pte_at_frame [OF pinv t vm_invD(2) [OF inv that] refl])
      fix a p' "is" assume "\<Gamma> (PGROUNDDOWN a) = Node p' is"
      then show "mem ?t a = mem s a" by (simp add: m)
    qed
    then show ?thesis by simp
  qed
  then show "pt \<in> pts \<Longrightarrow> pte_at m' pt va = pte_at (mem s) pt va" .
  have "share_ok \<Gamma> (\<lambda>p. pageref s (pgof p)) (pte_at m') pts"
    by (rule share_cong [OF vm_invD(5) [OF inv]]) (simp_all add: pte)
  then show "vm_inv ?t \<Gamma> xs pts"
    unfolding vm_inv_def using t vm_invD(2-4) [OF inv] pte by simp
qed

lemma kmemmove_page:
  assumes "\<not> bad_pa s x" "\<not> bad_pa s q"
  shows "kmemmove x q (ucast PGSIZE) s =
    Ok () (s\<lparr>mem := (\<lambda>a. if PGROUNDDOWN a = x then mem s (q + take_bit 12 a) else mem s a)\<rparr>)"
proof -
  have lt: "unat p + 4096 < 2 ^ 64" if "\<not> bad_pa s p" for p
    using that by (simp add: bad_pa_def PHYSTOP_def KERNBASE_def word_le_nat_alt not_le)
  have al: "aligned x" "aligned q" using assms by (simp_all add: valid_pa_aligned)
  have "memmove (mem s) x q (ucast PGSIZE) = mstore (mem s) x (mload (mem s) q 4096)"
    using lt [OF assms(1)] lt [OF assms(2)] by (subst memmove_eq) simp_all
  also have "\<dots> = (\<lambda>a. if PGROUNDDOWN a = x then mem s (q + take_bit 12 a) else mem s a)"
    using al by (simp add: fun_eq_iff mstore_copy_page base_eq)
  finally show ?thesis by (simp add: kmemmove_def run_simps)
qed

lemma leaf_bit:
  assumes "n < 10"
  shows "bit (PA2PTE q OR perm OR PTE_V) n \<longleftrightarrow> bit perm n \<or> n = 0"
proof -
  have "bit PTE_V n \<longleftrightarrow> n = 0" by (simp add: PTE_V_def bit_1_iff)
  then show ?thesis using assms by (simp add: bit_or_iff PA2PTE_bit)
qed

lemma cow_perm:
  defines "f e \<equiv> (PTE_FLAGS e AND NOT PTE_C) OR PTE_W"
  shows "take_bit 10 (f e) = f e" "n < 10 \<Longrightarrow> bit (f e) n \<longleftrightarrow> bit e n \<and> n \<noteq> 8 \<or> n = 2"
proof -
  have b: "bit PTE_C n \<longleftrightarrow> n = 8" "bit PTE_W n \<longleftrightarrow> n = 2" if "n < 64" for n
    using that bit_push_bit_iff [of 8 "1 :: uint64" n] bit_push_bit_iff [of 2 "1 :: uint64" n]
    by (auto simp: PTE_C_def PTE_W_def bit_1_iff)
  have "\<not> bit (f e) n" if "10 \<le> n" for n
    using that b [of n] by (cases "n < 64") (auto simp: f_def bit_or_iff bit_and_iff PTE_FLAGS_bit dest: bit_imp_le_length)
  then show "take_bit 10 (f e) = f e" by (simp add: take_bit_self_bit)
  show "n < 10 \<Longrightarrow> bit (f e) n \<longleftrightarrow> bit e n \<and> n \<noteq> 8 \<or> n = 2"
    using b [of n] by (auto simp: f_def bit_or_iff bit_and_iff bit_not_iff PTE_FLAGS_bit)
qed

text \<open>What a successful \<open>cowalloc\<close> leaves: the invariant, the same view of memory for every address
  space, an entry for \<open>va\<close> that permits the write, and the kernel's own pages untouched.\<close>

definition cow_done :: "'z kmem_scheme \<Rightarrow> roles \<Rightarrow> 'z kmem_scheme \<Rightarrow> roles \<Rightarrow> addr list \<Rightarrow> addr set \<Rightarrow>
    addr \<Rightarrow> addr \<Rightarrow> bool" where
  "cow_done s \<Gamma> t \<Delta> ys pts pt va \<longleftrightarrow> vm_inv t \<Delta> ys pts \<and> vm_upd s t \<and>
     (\<forall>p \<in> pts. \<forall>vb. uview t p vb = uview s p vb) \<and>
     pV (pte_at (mem t) pt va) \<and> pU (pte_at (mem t) pt va) \<and> pW (pte_at (mem t) pt va) \<and>
     (\<forall>a. \<Gamma> (PGROUNDDOWN a) = Kern \<longrightarrow> \<Delta> (PGROUNDDOWN a) = Kern \<and> mem t a = mem s a)"

lemma cow_done_refl:
  "vm_inv s \<Gamma> xs pts \<Longrightarrow> pV (pte_at (mem s) pt va) \<Longrightarrow> pU (pte_at (mem s) pt va) \<Longrightarrow>
    pW (pte_at (mem s) pt va) \<Longrightarrow> cow_done s \<Gamma> s \<Gamma> xs pts pt va"
  by (auto simp: cow_done_def)

text \<open>The entry of the private copy: that of the shared page, for the page \<open>x\<close>, writable and no longer marked.\<close>

lemma cow_value:
  assumes "aligned x" "pR e" "pU e" and v: "v = PA2PTE x OR ((PTE_FLAGS e AND NOT PTE_C) OR PTE_W) OR PTE_V"
  shows "PTE2PA v = x" "pV v" "pR v" "pU v" "pW v"
proof -
  show "PTE2PA v = x" "pV v" using leaf_value(1,2) [OF assms(1) cow_perm(1)] unfolding v by blast+
  have "bit v n \<longleftrightarrow> bit e n \<and> n \<noteq> 8 \<or> n = 2 \<or> n = 0" if "n < 10" for n
    unfolding v leaf_bit [OF that] cow_perm(2) [OF that] by auto
  from this [of 1] this [of 4] this [of 2] show "pR v" "pU v" "pW v" using assms(2,3) by (simp_all add: bit_flag)
qed

text \<open>Redirecting the page of \<open>va\<close> to a copy of it in \<open>x\<close>, a page that was free, changes nobody's view.\<close>

lemma cow_copy_view:
  assumes inv: "vm_inv s \<Gamma> xs pts" "vm_inv t (\<Gamma>(x := User)) ys pts" and x: "\<Gamma> x = Free" "aligned x" and p: "p \<in> pts"
    and e: "e = pte_at (mem s) pt va" "pV e" "pU e" and v: "PTE2PA v = x" "pV v" "pU v" and va: "va < MAXVA"
    and pte: "\<And>p vb. p \<in> pts \<Longrightarrow> upage vb \<Longrightarrow> pte_at (mem t) p vb = upd (pte_at (mem s)) pt (PGROUNDDOWN va) v p vb"
    and mem: "\<And>a. plain ((\<Gamma>(x := Kern)) (PGROUNDDOWN a)) \<Longrightarrow>
      mem t a = mem s (if PGROUNDDOWN a = x then PTE2PA e + take_bit 12 a else a)"
  shows "uview t p vc = uview s p vc"
proof (cases "p = pt \<and> PGROUNDDOWN vc = PGROUNDDOWN va \<and> vc < MAXVA")
  case True
  have "pte_at (mem t) pt (PGROUNDDOWN va) = v" using pte [OF _ upage_base [OF va], of pt] True p by simp
  then have "pte_at (mem t) p vc = v" "pte_at (mem s) p vc = e" using True e(1) pte_at_base [of vc va] by (auto simp: pte_at_page)
  moreover have "mem t (x + take_bit 12 vc) = mem s (PTE2PA e + take_bit 12 vc)"
  proof -
    have b: "PGROUNDDOWN (x + take_bit 12 vc) = x" using in_target [of v vc] v(1) by simp
    have "take_bit 12 (x + take_bit 12 vc) = take_bit 12 vc"
      using page_base [OF _ x(2), of "x + take_bit 12 vc"] pgof_offset [OF x(2) take_bit_12_lt] by simp
    then show ?thesis using mem [of "x + take_bit 12 vc"] b by simp
  qed
  ultimately show ?thesis using v e(2,3) True by (simp add: uview_def Let_def)
next
  case False
  show ?thesis
  proof (rule uview_cong [OF p inv(2)])
    assume vc: "vc < MAXVA"
    then show "pte_at (mem t) p (PGROUNDDOWN vc) = pte_at (mem s) p (PGROUNDDOWN vc)"
      using False pte [OF p upage_base [OF vc]] by (auto simp: upd_def)
  next
    fix a assume a: "(\<Gamma>(x := User)) (PGROUNDDOWN a) = User" "pV (pte_at (mem s) p (PGROUNDDOWN vc))" "vc < MAXVA"
      "PGROUNDDOWN a = PTE2PA (pte_at (mem s) p (PGROUNDDOWN vc))"
    have "PGROUNDDOWN a \<noteq> x"
      using share_okD(2) [OF vm_invD(5) [OF inv(1)] p upage_base [OF a(3)] a(2)] a(4) x(1) by auto
    then show "mem t a = mem s a" using mem [of a] a(1) by auto
  qed
qed

lemma cow_copy:
  assumes inv: "vm_inv s \<Gamma> (x # xs) pts" and pt: "pt \<in> pts" "va < MAXVA"
    and e: "e = pte_at (mem s) pt va" "pV e" "pU e" "pC e" "\<not> pW e" and q: "q = PTE2PA e" "pageref s (pgof q) > 1"
  shows "\<exists>t. cowalloc pt va s = Ok 0 t \<and> cow_done s \<Gamma> t (\<Gamma>(x := User)) xs pts pt va"
proof -
  let ?b = "PGROUNDDOWN va"
  have b: "upage ?b" using pt(2) by (rule upage_base)
  have eb: "pte_at (mem s) pt ?b = e" using e(1) by (simp add: pte_at_page)
  have qU: "\<Gamma> q = User"
    using share_okD(2) [OF vm_invD(5) [OF inv] pt(1) b] e q(1) eb by auto
  have qv: "\<not> bad_pa s q" by (rule vm_invD(3) [OF inv qU])
  have e0: "e \<noteq> 0" using e(2) by auto
  obtain r where r: "\<Gamma> r = Node pt (leafpath va)" "load64 (mem s) (r + 8 * PX 0 va) = e"
    using leaf_node [OF vm_invD(1) [OF inv] vm_invD(2) [OF inv pt(1)], of va] e(1) e0 by metis
  obtain s1 where s1: "kalloc s = Ok x s1" "x \<noteq> 0" "vm_inv s1 (\<Gamma>(x := Kern)) xs pts" "vm_upd s s1" "\<not> bad_pa s1 x"
    "pageref s1 (pgof x) = 1" "unmapped s1 pts x" "\<And>a. PGROUNDDOWN a \<noteq> x \<Longrightarrow> mem s1 a = mem s a"
    "\<And>pt va. pt \<in> pts \<Longrightarrow> pte_at (mem s1) pt va = pte_at (mem s) pt va" "\<Gamma> x = Free"
    "\<And>p. p \<noteq> pgof x \<Longrightarrow> pageref s1 p = pageref s p"
    by (rule kalloc_vm [OF inv]) (rule that)
  have xq: "x \<noteq> q" using s1(10) qU by auto
  have qv1: "\<not> bad_pa s1 q" using qv vm_updD(3) [OF s1(4)] by simp
  have xqp: "pgof x \<noteq> pgof q" using xq valid_pgof_inj [OF s1(5) qv1] by simp
  let ?\<Gamma> = "\<Gamma>(x := Kern)"
  let ?m = "\<lambda>a. if PGROUNDDOWN a = x then mem s1 (q + take_bit 12 a) else mem s1 a"
  define s2 where "s2 = s1\<lparr>mem := ?m\<rparr>"
  have m2: "\<not> plain (?\<Gamma> (PGROUNDDOWN a)) \<Longrightarrow> ?m a = mem s1 a" for a by auto
  have s2: "vm_inv s2 ?\<Gamma> xs pts" "\<And>p vb. p \<in> pts \<Longrightarrow> pte_at (mem s2) p vb = pte_at (mem s1) p vb"
    using vm_inv_mem [OF s1(3), of ?m] m2 by (simp_all add: s2_def)
  have s2u: "vm_upd s1 s2" "mem s2 = ?m" "pageref s2 = pageref s1" by (simp_all add: s2_def vm_updI)
  have pte2: "pte_at (mem s2) p vb = pte_at (mem s) p vb" if "p \<in> pts" for p vb
    using s2(2) [OF that] s1(9) [OF that] by simp
  have un: "pV (pte_at (mem s2) pt ?b)" "PTE2PA (pte_at (mem s2) pt ?b) = q" "?\<Gamma> q = User" "pageref s2 (pgof q) > 1"
    using pte2 [OF pt(1)] eb e(2) q qU xq xqp s1(11) by (auto simp: s2_def)
  obtain s3 \<Delta> ys where t3: "uvmunmap pt ?b 1 True s2 = Ok () s3" "vm_inv s3 \<Delta> ys pts" "vm_upd s2 s3"
    "\<And>p vb. p \<in> pts \<Longrightarrow> upage vb \<Longrightarrow> pte_at (mem s3) p vb = upd (pte_at (mem s2)) pt ?b 0 p vb"
    "\<And>a. plain (\<Delta> (PGROUNDDOWN a)) \<Longrightarrow> mem s3 a = mem s2 a"
    "pageref s2 (pgof q) > 1 \<Longrightarrow> \<Delta> = ?\<Gamma> \<and> ys = xs" "pageref s2 (pgof q) \<le> 1 \<Longrightarrow> \<Delta> = ?\<Gamma>(q := Free) \<and> ys = q # xs"
    "\<And>p. p \<noteq> pgof q \<Longrightarrow> pageref s3 p = pageref s2 p"
    by (rule unmap_one [OF s2(1) pt(1) b un(1-3)]) (rule that)
  have \<Delta>: "\<Delta> = ?\<Gamma>" "ys = xs" using t3(6) un(4) by blast+
  note s3 = t3(1-5,8) [unfolded \<Delta>]
  let ?f = "(PTE_FLAGS e AND NOT PTE_C) OR PTE_W"
  let ?v = "PA2PTE x OR ?f OR PTE_V"
  have r3: "?\<Gamma> r = Node pt (leafpath ?b)" using r(1) s1(10) by auto
  have pte3: "pte_at (mem s3) p vb = upd (pte_at (mem s)) pt ?b 0 p vb" if "p \<in> pts" "upage vb" for p vb
    using s3(4) [OF that] pte2 [OF that(1)] by (simp add: upd_def)
  have "\<not> pV (pte_at (mem s3) pt ?b)" using pte3 [OF pt(1) b] by simp
  from mappages_present [OF vm_invD(1) [OF s3(2)] r3 b this] obtain s4
    where s4: "mappages pt ?b PGSIZE x ?f s3 = Ok 0 s4" "ptchg s3 ?\<Gamma> xs s4 ?\<Gamma> xs pt ?b ?v" .
  have "pR e" using vm_invD(4) [OF inv pt(1) b] eb e(2) by simp
  note v = cow_value [OF valid_pa_aligned [OF s1(5)] this e(3) refl]
  have "unmapped s3 pts x"
    unfolding unmapped_def
  proof (intro ballI allI impI)
    fix p vb assume a: "p \<in> pts" "upage vb" "pV (pte_at (mem s3) p vb)"
    then have "pte_at (mem s3) p vb = pte_at (mem s1) p vb"
      using pte3 [OF a(1,2)] s1(9) [OF a(1), of vb] by (auto simp: upd_def split: if_splits)
    then show "PTE2PA (pte_at (mem s3) p vb) \<noteq> x" using s1(7) a unfolding unmapped_def by simp
  qed
  moreover have "\<not> bad_pa s3 x" "pageref s3 (pgof x) = 1"
    using s1(5,6) s3(6) [OF xqp] vm_updD(3) [OF s3(3)] vm_updD(3) [OF s2u(1)] s2u(3) by simp_all
  ultimately have inv4: "vm_inv s4 (?\<Gamma>(x := User)) xs pts"
    using pte3 [OF pt(1) b] by (intro map_new_inv [OF s3(2) pt(1) b _ _ _ _ _ v(2,3,1) s4(2)]) simp_all
  have pte4: "pte_at (mem s4) p vb = upd (pte_at (mem s)) pt ?b ?v p vb" if "p \<in> pts" "upage vb" for p vb
    using ptchgD(8) [OF s4(2) b vm_invD(2) [OF s3(2) that(1)] that(2)] pte3 [OF that] by (simp add: upd_def)
  have mem4: "mem s4 a = ?m a" if "plain (?\<Gamma> (PGROUNDDOWN a))" for a
    using ptchgD(6) [OF s4(2) b that] s3(5) [OF that] s2u(2) by simp
  have ptev: "pte_at (mem s4) pt va = ?v" using pte4 [OF pt(1) b] by (simp add: pte_at_page)
  have mem5: "mem s4 a = mem s (if PGROUNDDOWN a = x then q + take_bit 12 a else a)" if "plain (?\<Gamma> (PGROUNDDOWN a))" for a
  proof -
    have "PGROUNDDOWN (q + take_bit 12 a) \<noteq> x" using in_target [of e a] q(1) xq by simp
    then show ?thesis using mem4 [OF that] s1(8) by simp
  qed
  have inv5: "vm_inv s4 (\<Gamma>(x := User)) xs pts" using inv4 by simp
  have "uview s4 p vc = uview s p vc" if p: "p \<in> pts" for p vc
    by (rule cow_copy_view [OF inv inv5 s1(10) valid_pa_aligned [OF s1(5)] p e(1-3) v(1,2,4) pt(2) pte4 mem5 [unfolded q(1)]])
  moreover have "cowalloc pt va s = Ok 0 s4"
  proof -
    have "kmemmove x q (ucast PGSIZE) s1 = Ok () s2" unfolding s2_def by (rule kmemmove_page [OF s1(5) qv1])
    moreover have "walk pt va False s = Ok (r + 8 * PX 0 va) s"
      by (rule walk_present [OF vm_invD(1) [OF inv] r(1) pt(2)])
    moreover have "get_refcnt q s = Ok (pageref s (pgof q)) s"
      using qv pt_invD(2) [OF vm_invD(1) [OF inv]] by (simp add: get_refcnt_run kunlocked_def)
    ultimately show ?thesis
      using slot_nonzero [OF vm_invD(1) [OF inv] r(1) PX_lt, of 0 va] r(2) e(2-5) q s1(1,2) s3(1) s4(1) pt(2)
      by (simp add: cowalloc_def Let_def run_simps not_le)
  qed
  moreover have "vm_upd s s4"
    by (rule vm_upd_trans [OF vm_upd_trans [OF vm_upd_trans [OF s1(4) s2u(1)] s3(3)] ptchgD(2) [OF s4(2) b]])
  moreover have "(\<Gamma>(x := User)) (PGROUNDDOWN a) = Kern \<and> mem s4 a = mem s a" if "\<Gamma> (PGROUNDDOWN a) = Kern" for a
    using that s1(8,10) mem4 [of a] by auto
  ultimately show ?thesis
    using inv5 v(2,4,5) ptev unfolding cow_done_def by metis
qed

lemma flags_inv:
  assumes inv: "vm_inv s \<Gamma> xs pts" and pt: "pt \<in> pts" "upage va" "pV (pte_at (mem s) pt va)"
    and v: "pV v" "pR v" "PTE2PA v = PTE2PA (pte_at (mem s) pt va)" "leaf_ok \<Gamma> (pte_at (mem s)) pts v"
    and ch: "ptchg s \<Gamma> xs t \<Gamma> xs pt va v"
  shows "vm_inv t \<Gamma> xs pts"
proof -
  note D = ptchgD [OF ch pt(2)]
  have pte: "pte_at (mem t) p vb = upd (pte_at (mem s)) pt va v p vb" if "p \<in> pts" "upage vb" for p vb
    by (rule D(8) [OF vm_invD(2) [OF inv that(1)] that(2)])
  have "share_ok \<Gamma> (\<lambda>p. pageref s (pgof p)) (upd (pte_at (mem s)) pt va v) pts"
    by (rule share_flags [OF vm_invD(5) [OF inv] pt v(1,3,4)])
  then have "share_ok \<Gamma> (\<lambda>p. pageref t (pgof p)) (pte_at (mem t)) pts"
  proof (rule share_cong)
    fix p assume p: "\<Gamma> p = User"
    then show "pageref t (pgof p) = pageref s (pgof p)"
      using D(7) [of p] valid_pa_aligned [OF vm_invD(3) [OF inv p]] by simp
  qed (use pte in auto)
  moreover have "pR (pte_at (mem t) p vb)" if "p \<in> pts" "upage vb" "pV (pte_at (mem t) p vb)" for p vb
    using that pte [OF that(1,2)] vm_invD(4) [OF inv that(1,2)] v(2) by (auto simp: upd_def split: if_splits)
  ultimately show ?thesis
    unfolding vm_inv_def using D(1) vm_invD(2,3) [OF inv] vm_updD(3) [OF D(2)] by simp
qed

lemma store64_twice [simp]: "store64 (store64 m p u) p v = store64 m p v"
  by (simp add: store64_def mstore_def fun_eq_iff)

lemma flag_simps [simp]:
  "bit PTE_V n \<longleftrightarrow> n = 0" "bit PTE_R n \<longleftrightarrow> n = 1" "bit PTE_W n \<longleftrightarrow> n = 2" "bit PTE_U n \<longleftrightarrow> n = 4" "bit PTE_C n \<longleftrightarrow> n = 8"
proof -
  have "bit (push_bit k 1 :: uint64) n \<longleftrightarrow> n = k" if "k < 64" for k
    using that by (auto simp: bit_simps bit_1_iff)
  from this [of 0] this [of 1] this [of 2] this [of 4] this [of 8]
  show "bit PTE_V n \<longleftrightarrow> n = 0" "bit PTE_R n \<longleftrightarrow> n = 1" "bit PTE_W n \<longleftrightarrow> n = 2" "bit PTE_U n \<longleftrightarrow> n = 4" "bit PTE_C n \<longleftrightarrow> n = 8"
    by (simp_all add: pte_bits)
qed

text \<open>Setting one flag bit and clearing another keeps the address and the other flags.\<close>

lemma swap_flags:
  assumes "v = (e OR a) AND NOT b" "\<And>n. bit a n \<longleftrightarrow> n = i" "\<And>n. bit b n \<longleftrightarrow> n = j" "i < 10" "j < 10"
  shows "PTE2PA v = PTE2PA e" "n < 64 \<Longrightarrow> bit v n \<longleftrightarrow> (bit e n \<or> n = i) \<and> n \<noteq> j"
proof -
  show b: "n < 64 \<Longrightarrow> bit v n \<longleftrightarrow> (bit e n \<or> n = i) \<and> n \<noteq> j" for n
    using assms(2,3) by (auto simp: assms(1) bit_and_iff bit_or_iff bit_not_iff)
  show "PTE2PA v = PTE2PA e"
    using assms(4,5) b by (intro bit_word_eqI) (auto simp: PTE2PA_bit)
qed

lemma cow_own:
  assumes inv: "vm_inv s \<Gamma> xs pts" and pt: "pt \<in> pts" "va < MAXVA"
    and e: "e = pte_at (mem s) pt va" "pV e" "pU e" "pC e" "\<not> pW e" and q: "q = PTE2PA e" "\<not> pageref s (pgof q) > 1"
  shows "\<exists>t. cowalloc pt va s = Ok 0 t \<and> cow_done s \<Gamma> t \<Gamma> xs pts pt va"
proof -
  let ?b = "PGROUNDDOWN va"
  note pinv = vm_invD(1) [OF inv]
  have b: "upage ?b" using pt(2) by (rule upage_base)
  have eb: "pte_at (mem s) pt ?b = e" using e(1) by (simp add: pte_at_page)
  have qU: "\<Gamma> q = User" using share_okD(2) [OF vm_invD(5) [OF inv] pt(1) b] e q(1) eb by auto
  have qv: "\<not> bad_pa s q" by (rule vm_invD(3) [OF inv qU])
  have one: "refs (pte_at (mem s)) pts q = 1" "pageref s (pgof q) = 1"
    using share_okD(3,4) [OF vm_invD(5) [OF inv] qU] q(2) by auto
  have e0: "e \<noteq> 0" using e(2) by auto
  obtain r where r: "\<Gamma> r = Node pt (leafpath va)" "load64 (mem s) (r + 8 * PX 0 va) = e"
    using leaf_node [OF pinv vm_invD(2) [OF inv pt(1)], of va] e(1) e0 by metis
  define v where "v = (e OR PTE_W) AND NOT PTE_C"
  have vb: "PTE2PA v = PTE2PA e" "bit v n \<longleftrightarrow> (bit e n \<or> n = 2) \<and> n \<noteq> 8" if "n < 64" for n
    using swap_flags [OF v_def, of 2 8] that by simp_all
  have eR: "pR e" using vm_invD(4) [OF inv pt(1) b] eb e(2) by simp
  have vf: "pV v" "pR v" "pU v" "pW v"
    using vb(2) [of 0] vb(2) [of 1] vb(2) [of 4] vb(2) [of 2] eR e(2,3) by (simp_all add: bit_flag)
  let ?t = "s\<lparr>mem := store64 (mem s) (r + 8 * PX 0 va) v\<rparr>"
  have ch: "ptchg s \<Gamma> xs ?t \<Gamma> xs pt ?b v" using ptchg_here [OF pinv, of r pt ?b v] r(1) by simp
  have inv': "vm_inv ?t \<Gamma> xs pts"
    using vf vb(1) [of 0] qU q(1) one(1) eb e(2) by (intro flags_inv [OF inv pt(1) b _ _ _ _ _ ch]) simp_all
  have pte: "pte_at (mem ?t) p vc = upd (pte_at (mem s)) pt ?b v p vc" if "p \<in> pts" "upage vc" for p vc
    by (rule ptchgD(8) [OF ch b vm_invD(2) [OF inv that(1)] that(2)])
  have ptev: "pte_at (mem ?t) pt va = v" using pte [OF pt(1) b] by (simp add: pte_at_page)
  have m: "mem ?t a = mem s a" if "plain (\<Gamma> (PGROUNDDOWN a))" for a by (rule ptchgD(6) [OF ch b that])
  have vw: "uview ?t p vc = uview s p vc" if p: "p \<in> pts" for p vc
  proof (cases "p = pt \<and> PGROUNDDOWN vc = ?b \<and> vc < MAXVA")
    case True
    have pv: "pte_at (mem ?t) p vc = v" "pte_at (mem s) p vc = e"
      using True ptev e(1) pte_at_base [of vc va] by auto
    have "mem ?t (PTE2PA e + take_bit 12 vc) = mem s (PTE2PA e + take_bit 12 vc)"
      using qU q(1) by (intro m) (simp add: in_target)
    then show ?thesis unfolding uview_def pv Let_def using True vf(1,3) vb(1) [of 0] e(2,3) by simp
  next
    case False
    show ?thesis
    proof (rule uview_cong [OF p inv'])
      show "pte_at (mem ?t) p (PGROUNDDOWN vc) = pte_at (mem s) p (PGROUNDDOWN vc)" if "vc < MAXVA"
        using False that pte [OF p upage_base [OF that]] by (auto simp: upd_def)
    qed (use m in blast)
  qed
  have "cowalloc pt va s = Ok 0 ?t"
  proof -
    have "get_refcnt q s = Ok 1 s"
      using qv pt_invD(2) [OF pinv] one(2) by (simp add: get_refcnt_run kunlocked_def)
    then show ?thesis
      using slot_nonzero [OF pinv r(1) PX_lt, of 0 va] r(2) e(2-5) q(1) pt(2) walk_present [OF pinv r(1) pt(2)]
      by (simp add: cowalloc_def Let_def run_simps not_le mem_simps v_def)
  qed
  moreover have "cow_done s \<Gamma> ?t \<Gamma> xs pts pt va"
    unfolding cow_done_def ptev using inv' vf ptchgD(2) [OF ch b] vw m by blast
  ultimately show ?thesis by blast
qed

lemma cowalloc_run:
  assumes inv: "vm_inv s \<Gamma> xs pts" and pt: "pt \<in> pts" "va < MAXVA"
  shows "let e = pte_at (mem s) pt va in
    if \<not> pV e \<or> \<not> pU e \<or> \<not> pC e \<and> \<not> pW e then cowalloc pt va s = Ok (-1) s
    else if pW e then cowalloc pt va s = Ok 0 s
    else if xs = [] \<and> refs (pte_at (mem s)) pts (PTE2PA e) > 1 then cowalloc pt va s = Panic ''cowalloc: kalloc''
    else \<exists>t \<Delta> ys. cowalloc pt va s = Ok 0 t \<and> cow_done s \<Gamma> t \<Delta> ys pts pt va"
proof -
  let ?e = "pte_at (mem s) pt va"
  note pinv = vm_invD(1) [OF inv]
  have b: "upage (PGROUNDDOWN va)" using pt(2) by (rule upage_base)
  from pinv vm_invD(2) [OF inv pt(1)] pt(2) show ?thesis
  proof (cases rule: walk_noalloc)
    case none
    then show ?thesis using pt(2) by (simp add: cowalloc_def run_simps not_le)
  next
    case (slot r)
    have "get_refcnt (PTE2PA ?e) s = Ok (int (refs (pte_at (mem s)) pts (PTE2PA ?e))) s"
      and "pageref s (pgof (PTE2PA ?e)) = int (refs (pte_at (mem s)) pts (PTE2PA ?e))" if "pV ?e" "pU ?e"
    proof -
      have q: "\<Gamma> (PTE2PA ?e) = User"
        using share_okD(2) [OF vm_invD(5) [OF inv] pt(1) b] that by (auto simp: pte_at_page)
      then show "pageref s (pgof (PTE2PA ?e)) = int (refs (pte_at (mem s)) pts (PTE2PA ?e))"
        by (rule share_okD(4) [OF vm_invD(5) [OF inv]])
      then show "get_refcnt (PTE2PA ?e) s = Ok (int (refs (pte_at (mem s)) pts (PTE2PA ?e))) s"
        using vm_invD(3) [OF inv q] pt_invD(2) [OF pinv] by (simp add: get_refcnt_run kunlocked_def)
    qed
    note ref = this
    consider "\<not> pV ?e \<or> \<not> pU ?e \<or> \<not> pC ?e \<and> \<not> pW ?e \<or> pW ?e"
      | "pV ?e" "pU ?e" "pC ?e" "\<not> pW ?e" "xs = []" "refs (pte_at (mem s)) pts (PTE2PA ?e) > 1"
      | "pV ?e" "pU ?e" "pC ?e" "\<not> pW ?e" "refs (pte_at (mem s)) pts (PTE2PA ?e) \<le> 1"
      | x ys where "pV ?e" "pU ?e" "pC ?e" "\<not> pW ?e" "refs (pte_at (mem s)) pts (PTE2PA ?e) > 1" "xs = x # ys"
      by (cases xs) fastforce+
    then show ?thesis
    proof cases
      case 1
      then show ?thesis using slot(1,3,4) pt(2) by (auto simp: cowalloc_def Let_def run_simps not_le)
    next
      case 2
      then have "kalloc s = Ok 0 s" using kalloc_inv_nil pinv by blast
      then show ?thesis using 2 slot(1,3,4) ref pt(2) by (simp add: cowalloc_def Let_def run_simps not_le)
    next
      case 3
      from cow_own [OF inv pt refl 3(1-4) refl] 3 ref(2) show ?thesis by (auto simp: Let_def)
    next
      case (4 x ys)
      from cow_copy [OF inv [unfolded 4(6)] pt refl 4(1-4) refl] 4 ref(2) show ?thesis by (auto simp: Let_def)
    qed
  qed
qed

lemma if3_mono:
  "\<lbrakk>if A then a else if B then b else if C then c else d; d \<Longrightarrow> e\<rbrakk> \<Longrightarrow> if A then a else if B then b else if C then c else e"
  by (simp split: if_splits)

text \<open>C2: \<open>cowalloc\<close>, on every path.  It refuses an address whose entry is not a user page, or is
  neither writable nor copy-on-write; it does nothing for a page that is already writable; for a
  copy-on-write page it returns 0 with an entry that permits the write, every address space still
  seeing the same memory, and the invariant kept.  Only when the page is shared and no page is free
  does it panic.\<close>

theorem cowalloc_spec:
  assumes inv: "vm_inv s \<Gamma> xs pts" and pt: "pt \<in> pts" "va < MAXVA"
  shows "let e = pte_at (mem s) pt va in
    if \<not> pV e \<or> \<not> pU e \<or> \<not> pC e \<and> \<not> pW e then cowalloc pt va s = Ok (-1) s
    else if pW e then cowalloc pt va s = Ok 0 s
    else if xs = [] \<and> refs (pte_at (mem s)) pts (PTE2PA e) > 1 then cowalloc pt va s = Panic ''cowalloc: kalloc''
    else \<exists>t \<Delta> ys. cowalloc pt va s = Ok 0 t \<and> vm_inv t \<Delta> ys pts \<and> (\<forall>p \<in> pts. \<forall>vb. uview t p vb = uview s p vb) \<and>
      pV (pte_at (mem t) pt va) \<and> pU (pte_at (mem t) pt va) \<and> pW (pte_at (mem t) pt va)"
proof -
  have settled: "\<exists>t \<Delta> ys. cowalloc pt va s = Ok 0 t \<and> vm_inv t \<Delta> ys pts \<and>
      (\<forall>p \<in> pts. \<forall>vb. uview t p vb = uview s p vb) \<and>
      pV (pte_at (mem t) pt va) \<and> pU (pte_at (mem t) pt va) \<and> pW (pte_at (mem t) pt va)"
    if "\<exists>t \<Delta> ys. cowalloc pt va s = Ok 0 t \<and> cow_done s \<Gamma> t \<Delta> ys pts pt va"
    using that unfolding cow_done_def by blast
  show ?thesis unfolding Let_def by (rule if3_mono [OF cowalloc_run [OF assms, unfolded Let_def] settled])
qed

end
