(* ===== verification/Fork.thy ===== *)
theory Fork
  imports Cow
begin

text \<open>
  Fork by copy-on-write: \<open>uvmcopy\<close> gives the child the parent's view of memory without copying a
  page, and undoes everything it did when memory runs out; \<open>uvmunmap\<close> removes a range of user pages.
\<close>

subsection \<open>Removing a range of pages\<close>

lemma aligned_next:
  assumes "aligned a" "aligned b" "unat a < unat b"
  shows "unat a + 4096 \<le> unat b"
proof -
  have "4096 dvd unat a" "4096 dvd unat b" using assms(1,2) by (simp_all add: aligned_unat mod_0_imp_dvd)
  then obtain j k where "unat a = 4096 * j" "unat b = 4096 * k" by (auto elim!: dvdE)
  then show ?thesis using assms(3) by simp
qed

lemma aligned_div: "aligned a \<Longrightarrow> 4096 * (unat a div 4096) = unat a"
  using mult_div_mod_eq [of 4096 "unat a"] by (simp add: aligned_unat)

lemma unat_add_PGSIZE: "unat a + 4096 \<le> unat MAXVA \<Longrightarrow> unat (a + PGSIZE) = unat a + 4096"
  using unat_add_page [of a] by (simp add: PGSIZE_def MAXVA_def)

lemma aligned_PGSIZE: "aligned a \<Longrightarrow> aligned (a + PGSIZE)"
  by (simp add: aligned_unat PGSIZE_def unat_word_ariths mod_mod_cancel)

lemma MAXVA_unat: "unat MAXVA = 2 ^ 38"
  by (simp add: MAXVA_def)

lemma uvmunmap_loop_step:
  assumes "upage a" "a < b"
  shows "uvmunmap_loop pt a b True s = thn (uvmunmap pt a 1 True) (uvmunmap_loop pt (a + PGSIZE) b True) s"
  using upage_not_ge [OF assms(1)] assms(2)
  by (simp add: uvmunmap_loop.simps [of pt a b] uvmunmap_one_run [OF assms(1)] run_simps Let_def split: res.split)

definition in_range :: "addr \<Rightarrow> nat \<Rightarrow> addr \<Rightarrow> bool" where
  "in_range a n vb \<longleftrightarrow> unat a \<le> unat vb \<and> unat vb < unat a + 4096 * n"

lemma in_range_Suc:
  assumes "upage a" "upage vb" "unat a + 4096 \<le> unat MAXVA"
  shows "in_range a (Suc n) vb \<longleftrightarrow> vb = a \<or> in_range (a + PGSIZE) n vb"
proof (cases "vb = a")
  case False
  then have "unat vb \<noteq> unat a" by (simp add: word_unat_eq_iff)
  then show ?thesis
    using assms aligned_next [of a vb] unat_add_PGSIZE [OF assms(3)] by (auto simp: in_range_def)
qed (simp add: in_range_def)

text \<open>The pages of \<open>pt\<close> in a range are mapped by \<open>old\<close> as well, at the same addresses.\<close>

definition shared_in :: "addr \<Rightarrow> addr \<Rightarrow> addr \<Rightarrow> nat \<Rightarrow> pmap \<Rightarrow> bool" where
  "shared_in old pt a n P \<longleftrightarrow> (\<forall>vb. upage vb \<longrightarrow> in_range a n vb \<longrightarrow> pV (P old vb) \<and> PTE2PA (P old vb) = PTE2PA (P pt vb))"

lemma shared_counted:
  assumes inv: "vm_inv s \<Gamma> xs pts" and pts: "pt \<in> pts" "old \<in> pts" "old \<noteq> pt" and a: "upage a" "pV (pte_at (mem s) pt a)"
    and u: "\<Gamma> (PTE2PA (pte_at (mem s) pt a)) = User" and o: "pV (pte_at (mem s) old a)" "PTE2PA (pte_at (mem s) old a) = PTE2PA (pte_at (mem s) pt a)"
  shows "pageref s (pgof (PTE2PA (pte_at (mem s) pt a))) > 1"
proof -
  note S = share_okD [OF vm_invD(5) [OF inv]]
  let ?q = "PTE2PA (pte_at (mem s) pt a)"
  have "refs (pte_at (mem s)) pts ?q \<noteq> 1"
    using refs_1D(1) [where P = "pte_at (mem s)" and q = ?q and pt = pt and va = a and pt' = old and vb = a, OF S(1)] pts a o by blast
  then have "refs (pte_at (mem s)) pts ?q > 1" using S(3) [OF u] by linarith
  then show ?thesis using S(4) [OF u] by simp
qed

lemma unmap_range:
  assumes "vm_inv s \<Gamma> xs pts" "pt \<in> pts" "aligned a" "unat a + 4096 * n \<le> unat MAXVA"
    and "unat b = unat a + 4096 * n"
    and "\<And>vb. upage vb \<Longrightarrow> in_range a n vb \<Longrightarrow> pV (pte_at (mem s) pt vb) \<and> \<Gamma> (PTE2PA (pte_at (mem s) pt vb)) = User"
  shows "\<exists>t \<Delta> ys. uvmunmap_loop pt a b True s = Ok () t \<and> vm_inv t \<Delta> ys pts \<and> vm_upd s t \<and>
    (\<forall>p \<in> pts. \<forall>vb. upage vb \<longrightarrow> pte_at (mem t) p vb = (if p = pt \<and> in_range a n vb then 0 else pte_at (mem s) p vb)) \<and>
    (\<forall>a. plain (\<Delta> (PGROUNDDOWN a)) \<longrightarrow> mem t a = mem s a \<and> \<Delta> (PGROUNDDOWN a) = \<Gamma> (PGROUNDDOWN a)) \<and>
    (\<forall>old \<in> pts - {pt}. shared_in old pt a n (pte_at (mem s)) \<longrightarrow> ys = xs)"
  using assms
proof (induction n arbitrary: a s \<Gamma> xs)
  case 0
  then have "\<not> a < b" by (simp add: word_less_nat_alt)
  then have "uvmunmap_loop pt a b True s = Ok () s" by (simp add: uvmunmap_loop.simps run_simps)
  then show ?case using "0.prems"(1)
    by (intro exI [of _ s] exI [of _ \<Gamma>] exI [of _ xs]) (auto simp: in_range_def)
next
  case (Suc n)
  let ?a = "a + PGSIZE" and ?e = "pte_at (mem s) pt a"
  have va: "upage a" and lt: "a < b" and lea: "unat a + 4096 \<le> unat MAXVA"
    using Suc.prems(3-5) by (auto simp: word_less_nat_alt)
  have "in_range a (Suc n) a" by (simp add: in_range_def)
  with Suc.prems(6) [OF va] have e: "pV ?e" "\<Gamma> (PTE2PA ?e) = User" by blast+
  obtain t \<Delta> ys where t: "uvmunmap pt a 1 True s = Ok () t" "vm_inv t \<Delta> ys pts" "vm_upd s t"
    "\<And>p vb. p \<in> pts \<Longrightarrow> upage vb \<Longrightarrow> pte_at (mem t) p vb = upd (pte_at (mem s)) pt a 0 p vb"
    "\<And>a. plain (\<Delta> (PGROUNDDOWN a)) \<Longrightarrow> mem t a = mem s a"
    "pageref s (pgof (PTE2PA ?e)) > 1 \<Longrightarrow> \<Delta> = \<Gamma> \<and> ys = xs"
    "pageref s (pgof (PTE2PA ?e)) \<le> 1 \<Longrightarrow> \<Delta> = \<Gamma>(PTE2PA ?e := Free) \<and> ys = PTE2PA ?e # xs"
    "\<And>p. p \<noteq> pgof (PTE2PA ?e) \<Longrightarrow> pageref t p = pageref s p"
    by (rule unmap_one [OF Suc.prems(1,2) va e(1) refl e(2)]) (rule that)
  have \<Delta>: "\<Delta> = \<Gamma> \<or> \<Delta> = \<Gamma>(PTE2PA ?e := Free)" using t(6,7) by (meson not_less)
  have rest: "pV (pte_at (mem t) pt vb) \<and> \<Delta> (PTE2PA (pte_at (mem t) pt vb)) = User"
    if vb: "upage vb" "in_range ?a n vb" for vb
  proof -
    have ne: "vb \<noteq> a" using vb(2) unat_add_PGSIZE [OF lea] by (auto simp: in_range_def)
    have "in_range a (Suc n) vb" using in_range_Suc [OF va vb(1) lea] vb(2) by simp
    with Suc.prems(6) [OF vb(1)] t(4) [OF Suc.prems(2) vb(1)] ne
    have f: "pV (pte_at (mem t) pt vb)" "\<Gamma> (PTE2PA (pte_at (mem t) pt vb)) = User" by simp_all
    from share_okD(2) [OF vm_invD(5) [OF t(2)] Suc.prems(2) vb(1) f(1)] f \<Delta> show ?thesis by (auto split: if_splits)
  qed
  have "unat ?a = unat a + 4096" by (rule unat_add_PGSIZE [OF lea])
  then have ar: "unat ?a + 4096 * n \<le> unat MAXVA" "unat b = unat ?a + 4096 * n" using Suc.prems(4,5) by simp_all
  from Suc.IH [OF t(2) Suc.prems(2) aligned_PGSIZE [OF Suc.prems(3)] ar rest] obtain u \<Theta> zs
    where u: "uvmunmap_loop pt ?a b True t = Ok () u" "vm_inv u \<Theta> zs pts" "vm_upd t u"
      "\<And>p vb. p \<in> pts \<Longrightarrow> upage vb \<Longrightarrow> pte_at (mem u) p vb = (if p = pt \<and> in_range ?a n vb then 0 else pte_at (mem t) p vb)"
      "\<And>a. plain (\<Theta> (PGROUNDDOWN a)) \<Longrightarrow> mem u a = mem t a \<and> \<Theta> (PGROUNDDOWN a) = \<Delta> (PGROUNDDOWN a)"
      "\<And>old. old \<in> pts - {pt} \<Longrightarrow> shared_in old pt ?a n (pte_at (mem t)) \<Longrightarrow> zs = ys" by blast
  have "uvmunmap_loop pt a b True s = Ok () u" by (simp add: uvmunmap_loop_step [OF va lt] run_simps t(1) u(1))
  moreover have "vm_upd s u" by (rule vm_upd_trans [OF t(3) u(3)])
  moreover have "pte_at (mem u) p vb = (if p = pt \<and> in_range a (Suc n) vb then 0 else pte_at (mem s) p vb)"
    if "p \<in> pts" "upage vb" for p vb
    unfolding u(4) [OF that] t(4) [OF that] in_range_Suc [OF va that(2) lea] by (auto simp: upd_def)
  moreover have "mem u a = mem s a \<and> \<Theta> (PGROUNDDOWN a) = \<Gamma> (PGROUNDDOWN a)" if "plain (\<Theta> (PGROUNDDOWN a))" for a
    using that u(5) [OF that] t(5) [of a] \<Delta> by (auto split: if_splits)
  moreover have "zs = xs" if o: "old \<in> pts - {pt}" "shared_in old pt a (Suc n) (pte_at (mem s))" for old
  proof -
    have "in_range a (Suc n) a" by (simp add: in_range_def)
    then have "pageref s (pgof (PTE2PA ?e)) > 1"
      using o va by (intro shared_counted [OF Suc.prems(1,2) _ _ va e, of old]) (auto simp: shared_in_def)
    then have "ys = xs" using t(6) by blast
    moreover have "shared_in old pt ?a n (pte_at (mem t))"
      unfolding shared_in_def
    proof (intro allI impI)
      fix vb assume vb: "upage vb" "in_range ?a n vb"
      have ne: "vb \<noteq> a" using vb(2) unat_add_PGSIZE [OF lea] by (auto simp: in_range_def)
      have "in_range a (Suc n) vb" using in_range_Suc [OF va vb(1) lea] vb(2) by simp
      then show "pV (pte_at (mem t) old vb) \<and> PTE2PA (pte_at (mem t) old vb) = PTE2PA (pte_at (mem t) pt vb)"
        using o vb(1) ne t(4) [OF _ vb(1), of old] t(4) [OF Suc.prems(2) vb(1)] by (simp add: shared_in_def)
    qed
    ultimately show ?thesis using u(6) o(1) by blast
  qed
  ultimately show ?case using u(2) by blast
qed

subsection \<open>Sharing one page\<close>

lemma grown_vm:
  assumes inv: "vm_inv s \<Gamma> xs pts" and g: "grown s \<Gamma> xs t \<Delta> ys"
  shows "vm_inv t \<Delta> ys pts" "p \<in> pts \<Longrightarrow> pte_at (mem t) p va = pte_at (mem s) p va"
proof -
  note D = grownD [OF g]
  have pte: "pte_at (mem t) p va = pte_at (mem s) p va" if "p \<in> pts" for p va
    by (rule D(8) [OF vm_invD(2) [OF inv that]])
  then show "p \<in> pts \<Longrightarrow> pte_at (mem t) p va = pte_at (mem s) p va" .
  have "share_ok \<Delta> (\<lambda>p. pageref t (pgof p)) (pte_at (mem t)) pts"
  proof (rule share_cong [OF vm_invD(5) [OF inv]])
    fix q assume q: "\<Gamma> q = User"
    then show "\<Delta> q = User" using D(4) [of q] by simp
    show "pageref t (pgof q) = pageref s (pgof q)"
      using D(7) [of q] q valid_pa_aligned [OF vm_invD(3) [OF inv q]] by simp
  next
    fix q assume "\<Gamma> q = Kern"
    then show "\<Delta> q = Kern" using D(4) [of q] by simp
  next
    fix q assume "\<Delta> q = User"
    then show "\<Gamma> q = User" using D(5) [of q] by simp
  qed (use pte in simp)
  moreover have "\<Delta> p = Node p []" if "p \<in> pts" for p using D(4) [of p] vm_invD(2) [OF inv that] by simp
  moreover have "\<not> bad_pa t q" if "\<Delta> q = User" for q
    using D(5) [of q] that vm_invD(3) [OF inv, of q] vm_updD(3) [OF D(2)] by simp
  ultimately show "vm_inv t \<Delta> ys pts"
    unfolding vm_inv_def using D(1) vm_invD(4) [OF inv] pte by simp
qed

lemma map_shared_inv:
  assumes inv: "vm_inv s \<Gamma> xs pts" and pt: "pt \<in> pts" "upage va" "\<not> pV (pte_at (mem s) pt va)"
    and q: "\<Gamma> q = User"
      "\<And>p vb. p \<in> pts \<Longrightarrow> upage vb \<Longrightarrow> pV (pte_at (mem s) p vb) \<Longrightarrow> PTE2PA (pte_at (mem s) p vb) = q \<Longrightarrow>
        \<not> pW (pte_at (mem s) p vb)"
    and v: "pV v" "pR v" "PTE2PA v = q" "\<not> pW v" and ch: "ptchg s \<Gamma> xs t \<Delta> ys pt va v"
    and u: "u = t\<lparr>pageref := (pageref t)(pgof q := pageref t (pgof q) + 1)\<rparr>"
  shows "vm_inv u \<Delta> ys pts"
proof -
  note D = ptchgD [OF ch pt(2)]
  note qv = vm_invD(3) [OF inv q(1)]
  let ?ref = "\<lambda>p. pageref s (pgof p)"
  have pte: "pte_at (mem u) p vb = upd (pte_at (mem s)) pt va v p vb" if "p \<in> pts" "upage vb" for p vb
    using D(8) [OF vm_invD(2) [OF inv that(1)] that(2)] by (simp add: u)
  have bad: "bad_pa u = bad_pa s" "bad_pa t = bad_pa s" using vm_updD(3) [OF D(2)] by (simp_all add: u)
  have "share_ok \<Gamma> (?ref(q := ?ref q + 1)) (upd (pte_at (mem s)) pt va v) pts"
    by (rule share_map_shared [OF vm_invD(5) [OF inv] pt v(1,3,4) q(1)]) (rule q(2))
  then have "share_ok \<Delta> (\<lambda>p. pageref u (pgof p)) (pte_at (mem u)) pts"
  proof (rule share_cong)
    fix p assume p: "\<Gamma> p = User"
    then show "\<Delta> p = User" using D(4) [of p] by simp
    note pv = vm_invD(3) [OF inv p]
    have "pageref t (pgof p) = ?ref p" "pageref t (pgof q) = ?ref q"
      using D(7) p q(1) valid_pa_aligned [OF pv] valid_pa_aligned [OF qv] by simp_all
    then show "pageref u (pgof p) = (?ref(q := ?ref q + 1)) p"
      using valid_pgof_inj [OF pv qv] by (simp add: u)
  next
    fix p assume "\<Gamma> p = Kern"
    then show "\<Delta> p = Kern" using D(4) [of p] by simp
  next
    fix p assume "\<Delta> p = User"
    then show "\<Gamma> p = User" using D(5) [of p] by simp
  qed (use pte in auto)
  moreover have "pt_inv u \<Delta> ys"
  proof (rule pt_inv_frame [OF D(1)])
    fix p pt' "is" assume p: "\<Delta> p = Node pt' is"
    have "p \<noteq> q" using p D(4) [of q] q(1) by auto
    then show "pageref u (pgof p) = pageref t (pgof p)"
      using pgof_inj [OF nodeD(2) [OF D(1) p] valid_pa_aligned [OF qv]] by (simp add: u)
  qed (simp_all add: u)
  moreover have "\<Delta> p = Node p []" if "p \<in> pts" for p using D(4) [of p] vm_invD(2) [OF inv that] by simp
  moreover have "\<not> bad_pa u p" if "\<Delta> p = User" for p
    using that D(5) [of p] vm_invD(3) [OF inv, of p] bad by simp
  moreover have "pR (pte_at (mem u) p vb)" if "p \<in> pts" "upage vb" "pV (pte_at (mem u) p vb)" for p vb
    using that pte [OF that(1,2)] vm_invD(4) [OF inv that(1,2)] v(2) by (auto simp: upd_def split: if_splits)
  ultimately show ?thesis unfolding vm_inv_def by blast
qed

text \<open>The entry after \<open>uvmcopy\<close> has marked it copy-on-write, and the entry of the child.\<close>

definition cow_entry :: "uint64 \<Rightarrow> uint64" where
  "cow_entry e = (if pW e then (e OR PTE_C) AND NOT PTE_W else e)"

definition child_entry :: "uint64 \<Rightarrow> uint64" where
  "child_entry e = PA2PTE (PTE2PA e) OR PTE_FLAGS (cow_entry e) OR PTE_V"

lemma cow_entry:
  "PTE2PA (cow_entry e) = PTE2PA e" "\<not> pW (cow_entry e)"
  "n \<notin> {2, 8} \<Longrightarrow> n < 64 \<Longrightarrow> bit (cow_entry e) n = bit e n" "bit (cow_entry e) 8 \<longleftrightarrow> bit e 8 \<or> bit e 2"
proof -
  have b: "bit (cow_entry e) n = (if bit e 2 then (bit e n \<or> n = 8) \<and> n \<noteq> 2 else bit e n)" if "n < 64" for n
    using that swap_flags(2) [of "(e OR PTE_C) AND NOT PTE_W" e PTE_C PTE_W 8 2 n]
    by (simp add: cow_entry_def bit_flag)
  show "PTE2PA (cow_entry e) = PTE2PA e"
    by (rule bit_word_eqI) (auto simp: PTE2PA_bit b)
  show "\<not> pW (cow_entry e)" using b [of 2] by (simp add: bit_flag)
  show "n \<notin> {2, 8} \<Longrightarrow> n < 64 \<Longrightarrow> bit (cow_entry e) n = bit e n" using b [of n] by auto
  show "bit (cow_entry e) 8 \<longleftrightarrow> bit e 8 \<or> bit e 2" using b [of 8] by auto
qed

lemma child_entry:
  assumes "pV e"
  shows "PTE2PA (child_entry e) = PTE2PA e" "pV (child_entry e)" "\<not> pW (child_entry e)"
    "pR e \<Longrightarrow> pR (child_entry e)" "pU (child_entry e) \<longleftrightarrow> pU e"
proof -
  have b: "bit (child_entry e) n \<longleftrightarrow> bit (cow_entry e) n \<or> n = 0" if "n < 10" for n
    using that by (simp add: child_entry_def leaf_bit PTE_FLAGS_bit)
  show "PTE2PA (child_entry e) = PTE2PA e" "pV (child_entry e)"
    unfolding child_entry_def by (rule leaf_value; simp)+
  show "\<not> pW (child_entry e)" using b [of 2] cow_entry(2) [of e] by (simp add: bit_flag)
  show "pR e \<Longrightarrow> pR (child_entry e)" using b [of 1] cow_entry(3) [of 1 e] by (simp add: bit_flag)
  show "pU (child_entry e) \<longleftrightarrow> pU e" using b [of 4] cow_entry(3) [of 4 e] by (simp add: bit_flag)
qed

text \<open>The entry \<open>e\<close> of a page of the parent has become \<open>e'\<close> and the child has got \<open>c\<close>: both map the page of \<open>e\<close>, neither may write to it, both are
  marked copy-on-write if the parent could write or was marked already, and the other permissions are those of \<open>e\<close>.\<close>

definition shared_cow :: "uint64 \<Rightarrow> uint64 \<Rightarrow> uint64 \<Rightarrow> bool" where
  "shared_cow e e' c \<longleftrightarrow> (\<forall>x \<in> {e', c}. PTE2PA x = PTE2PA e \<and> pV x \<and> \<not> pW x \<and> (pC x \<longleftrightarrow> pC e \<or> pW e) \<and>
     (pR x \<longleftrightarrow> pR e) \<and> (pU x \<longleftrightarrow> pU e) \<and> (x AND PTE_X = 0 \<longleftrightarrow> e AND PTE_X = 0))"

lemma flag_X: "(x :: uint64) AND PTE_X = 0 \<longleftrightarrow> \<not> bit x 3"
proof
  assume "x AND PTE_X = 0"
  then have "\<not> bit (x AND push_bit 3 1) 3" by (simp add: pte_bits)
  then show "\<not> bit x 3" by (simp add: bit_simps)
next
  assume "\<not> bit x 3"
  then have "x AND push_bit 3 1 = 0" by (intro bit_word_eqI) (auto simp: bit_simps bit_1_iff simp del: push_bit_of_1)
  then show "x AND PTE_X = 0" by (simp add: pte_bits)
qed

lemma shared_cow_entry:
  assumes "pV e"
  shows "shared_cow e (cow_entry e) (child_entry e)"
proof -
  have b: "bit (child_entry e) n \<longleftrightarrow> bit (cow_entry e) n \<or> n = 0" if "n < 10" for n
    using that by (simp add: child_entry_def leaf_bit PTE_FLAGS_bit)
  note x = flag_X
  note c = cow_entry(1,2) [of e] cow_entry(3) [of _ e] cow_entry(4) [of e]
  show ?thesis
    unfolding shared_cow_def using child_entry(1-3) [OF assms] assms c(1,2) c(3) [of 0] c(3) [of 1] c(3) [of 3] c(3) [of 4] c(4)
      b [of 0] b [of 1] b [of 3] b [of 4] b [of 8] x [of e] x [of "cow_entry e"] x [of "child_entry e"]
    by (simp add: bit_flag)
qed

definition kept :: "'z kmem_scheme \<Rightarrow> roles \<Rightarrow> 'z kmem_scheme \<Rightarrow> roles \<Rightarrow> bool" where
  "kept s \<Gamma> t \<Delta> \<longleftrightarrow> vm_upd s t \<and>
     (\<forall>a. plain (\<Delta> (PGROUNDDOWN a)) \<longrightarrow> mem t a = mem s a \<and> \<Delta> (PGROUNDDOWN a) = \<Gamma> (PGROUNDDOWN a))"

lemma kept_trans: "kept s \<Gamma> t \<Delta> \<Longrightarrow> kept t \<Delta> u \<Theta> \<Longrightarrow> kept s \<Gamma> u \<Theta>"
  unfolding kept_def by (metis vm_upd_trans)

lemma keptD: "kept s \<Gamma> t \<Delta> \<Longrightarrow> plain (\<Delta> (PGROUNDDOWN a)) \<Longrightarrow> mem t a = mem s a"
  unfolding kept_def by blast

text \<open>Two entries for the same page with the same validity and user flag show the same memory.\<close>

lemma uview_via:
  assumes inv: "vm_inv t \<Delta> ys pts" and p: "p \<in> pts" and k: "kept s \<Gamma> t \<Delta>"
    and e: "va < MAXVA \<Longrightarrow> PTE2PA (pte_at (mem t) p (PGROUNDDOWN va)) = PTE2PA (pte_at (mem s) p' (PGROUNDDOWN va)) \<and>
      (pV (pte_at (mem t) p (PGROUNDDOWN va)) \<longleftrightarrow> pV (pte_at (mem s) p' (PGROUNDDOWN va))) \<and>
      (pU (pte_at (mem t) p (PGROUNDDOWN va)) \<longleftrightarrow> pU (pte_at (mem s) p' (PGROUNDDOWN va)))"
  shows "uview t p va = uview s p' va"
proof (cases "va < MAXVA \<and> pV (pte_at (mem t) p va) \<and> pU (pte_at (mem t) p va)")
  case True
  let ?e = "pte_at (mem t) p va"
  have "\<Delta> (PTE2PA ?e) = User"
    using share_okD(2) [OF vm_invD(5) [OF inv] p upage_base [of va]] True by (auto simp: pte_at_page)
  then have "plain (\<Delta> (PGROUNDDOWN (PTE2PA ?e + take_bit 12 va)))" by (simp add: in_target)
  from keptD [OF k this] show ?thesis using True e by (simp add: uview_def Let_def pte_at_page)
next
  case False
  then show ?thesis using e by (auto simp: uview_def Let_def pte_at_page)
qed

lemma of_le_bit: "bit (of_le bs :: uint64) k \<Longrightarrow> k < 8 * length bs"
proof (induction bs arbitrary: k)
  case (Cons b bs)
  show ?case
  proof (cases "k < 8")
    case False
    then have "bit (of_le bs :: uint64) (k - 8)" using Cons.prems by (auto simp: bit_simps dest: bit_imp_le_length)
    from Cons.IH [OF this] show ?thesis by simp
  qed simp
qed simp

lemma to_le_of_le: "8 * length bs \<le> 64 \<Longrightarrow> to_le (length bs) (of_le bs :: uint64) = bs"
proof (induction bs)
  case (Cons b bs)
  let ?v = "of_le bs :: uint64"
  have "ucast (ucast b OR push_bit 8 ?v :: uint64) = b"
    by (rule bit_word_eqI) (auto simp: bit_simps)
  moreover have "drop_bit 8 (ucast b OR push_bit 8 ?v :: uint64) = ?v"
  proof (rule bit_word_eqI)
    fix n assume "n < LENGTH(64)"
    show "bit (drop_bit 8 (ucast b OR push_bit 8 ?v :: uint64)) n = bit ?v n"
      using of_le_bit [of bs n] Cons.prems by (auto simp: bit_simps dest: bit_imp_le_length)
  qed
  ultimately show ?case using Cons by simp
qed simp

lemma store64_load64: "store64 m a (load64 m a) = m"
proof -
  have "to_le 8 (load64 m a) = mload m a 8" using to_le_of_le [of "mload m a 8"] by (simp add: load64_def)
  then have "store64 m a (load64 m a) = mstore m a (mload m a 8)" by (simp add: store64_def)
  also have "\<dots> = m"
  proof
    fix x
    show "mstore m a (mload m a 8) x = m x"
    proof (cases "unat (x - a) < 8")
      case True
      then show ?thesis by (simp add: mstore_def)
    qed (simp add: mstore_def)
  qed
  finally show ?thesis .
qed

lemma mark_cow:
  assumes inv: "vm_inv s \<Gamma> xs pts" and old: "old \<in> pts" "upage i" and e: "e = pte_at (mem s) old i" "pV e" "\<Gamma> (PTE2PA e) = User"
  obtains r t where "walk old i False s = Ok (r + 8 * PX 0 i) s" "r + 8 * PX 0 i \<noteq> 0" "load64 (mem s) (r + 8 * PX 0 i) = e"
    "t = s\<lparr>mem := store64 (mem s) (r + 8 * PX 0 i) (cow_entry e)\<rparr>" "vm_inv t \<Gamma> xs pts" "kept s \<Gamma> t \<Gamma>"
    "\<And>p vb. p \<in> pts \<Longrightarrow> upage vb \<Longrightarrow> pte_at (mem t) p vb = upd (pte_at (mem s)) old i (cow_entry e) p vb"
    "\<And>p vb. p \<in> pts \<Longrightarrow> upage vb \<Longrightarrow> pV (pte_at (mem t) p vb) \<Longrightarrow> PTE2PA (pte_at (mem t) p vb) = PTE2PA e \<Longrightarrow>
       \<not> pW (pte_at (mem t) p vb)"
proof -
  note pinv = vm_invD(1) [OF inv]
  have "e \<noteq> 0" using e(2) by auto
  then obtain r where r: "\<Gamma> r = Node old (leafpath i)" "load64 (mem s) (r + 8 * PX 0 i) = e"
    using leaf_node [OF pinv vm_invD(2) [OF inv old(1)], of i] e(1) by metis
  define t where "t = s\<lparr>mem := store64 (mem s) (r + 8 * PX 0 i) (cow_entry e)\<rparr>"
  have ch: "ptchg s \<Gamma> xs t \<Gamma> xs old i (cow_entry e)" unfolding t_def by (rule ptchg_here [OF pinv r(1)])
  have eR: "pR e" using vm_invD(4) [OF inv old] e(1,2) by simp
  have c: "pV (cow_entry e)" "pR (cow_entry e)"
    using cow_entry(3) [of 0 e] cow_entry(3) [of 1 e] e(2) eR by (simp_all add: bit_flag)
  have "vm_inv t \<Gamma> xs pts"
    by (rule flags_inv [OF inv old _ c _ _ ch]) (use e cow_entry(1,2) [of e] in auto)
  moreover have "kept s \<Gamma> t \<Gamma>"
    unfolding kept_def using ptchgD(2,6) [OF ch old(2)] by blast
  moreover have pte: "pte_at (mem t) p vb = upd (pte_at (mem s)) old i (cow_entry e) p vb" if "p \<in> pts" "upage vb" for p vb
    by (rule ptchgD(8) [OF ch old(2) vm_invD(2) [OF inv that(1)] that(2)])
  moreover have "\<not> pW (pte_at (mem t) p vb)"
    if a: "p \<in> pts" "upage vb" "pV (pte_at (mem t) p vb)" "PTE2PA (pte_at (mem t) p vb) = PTE2PA e" for p vb
  proof (cases "p = old \<and> vb = i")
    case True
    then show ?thesis using pte [OF a(1,2)] cow_entry(2) by simp
  next
    case False
    then have f: "pte_at (mem t) p vb = pte_at (mem s) p vb" using pte [OF a(1,2)] by (auto simp: upd_def)
    show ?thesis
    proof
      assume "pW (pte_at (mem t) p vb)"
      then have "refs (pte_at (mem s)) pts (PTE2PA e) = 1"
        using share_okD(2) [OF vm_invD(5) [OF inv] a(1,2)] a(3,4) e(3) unfolding f by auto
      from refs_1D [where P = "pte_at (mem s)", OF share_okD(1) [OF vm_invD(5) [OF inv]] this old _ _ a(1,2)] a(3,4) e(1,2) f False
      show False by auto
    qed
  qed
  moreover have "walk old i False s = Ok (r + 8 * PX 0 i) s" using walk_present [OF pinv r(1)] old(2) by simp
  moreover have "r + 8 * PX 0 i \<noteq> 0" by (rule slot_nonzero [OF pinv r(1) PX_lt])
  ultimately show ?thesis using that r(2) t_def by blast
qed

lemma uvmcopy_step:
  assumes inv: "vm_inv s \<Gamma> xs pts" and pts: "old \<in> pts" "new \<in> pts" "old \<noteq> new" and i: "upage i" "i < sz"
    and e: "e = pte_at (mem s) old i" "pV e" "\<Gamma> (PTE2PA e) = User" and free: "\<not> pV (pte_at (mem s) new i)"
  obtains (fail) t \<Delta> where "uvmcopy_loop old new sz i s = thn (uvmunmap new 0 (i div PGSIZE) True) (ret (-1)) t"
      "vm_inv t \<Delta> [] pts" "kept s \<Gamma> t \<Delta>" "\<And>q. plain (\<Gamma> q) \<Longrightarrow> \<Delta> q = \<Gamma> q"
      "\<And>p vb. p \<in> pts \<Longrightarrow> upage vb \<Longrightarrow> pte_at (mem t) p vb = upd (pte_at (mem s)) old i (cow_entry e) p vb"
    | (ok) t \<Delta> ys where "uvmcopy_loop old new sz i s = uvmcopy_loop old new sz (i + PGSIZE) t"
      "vm_inv t \<Delta> ys pts" "kept s \<Gamma> t \<Delta>" "\<And>q. plain (\<Gamma> q) \<Longrightarrow> \<Delta> q = \<Gamma> q"
      "\<And>p vb. p \<in> pts \<Longrightarrow> upage vb \<Longrightarrow> pte_at (mem t) p vb =
         upd (upd (pte_at (mem s)) old i (cow_entry e)) new i (child_entry e) p vb"
proof -
  obtain r t where t: "walk old i False s = Ok (r + 8 * PX 0 i) s" "r + 8 * PX 0 i \<noteq> 0" "load64 (mem s) (r + 8 * PX 0 i) = e"
    "t = s\<lparr>mem := store64 (mem s) (r + 8 * PX 0 i) (cow_entry e)\<rparr>" "vm_inv t \<Gamma> xs pts" "kept s \<Gamma> t \<Gamma>"
    "\<And>p vb. p \<in> pts \<Longrightarrow> upage vb \<Longrightarrow> pte_at (mem t) p vb = upd (pte_at (mem s)) old i (cow_entry e) p vb"
    "\<And>p vb. p \<in> pts \<Longrightarrow> upage vb \<Longrightarrow> pV (pte_at (mem t) p vb) \<Longrightarrow> PTE2PA (pte_at (mem t) p vb) = PTE2PA e \<Longrightarrow>
       \<not> pW (pte_at (mem t) p vb)"
    by (rule mark_cow [OF inv pts(1) i(1) e]) (rule that)
  let ?q = "PTE2PA e"
  have qv: "\<not> bad_pa s ?q" by (rule vm_invD(3) [OF inv e(3)])
  have q0: "?q \<noteq> 0" using valid_pa_nonzero [OF _ qv] pt_invD(1) [OF vm_invD(1) [OF inv]] by (auto simp: free_inv_def)
  have body: "uvmcopy_loop old new sz i s =
      bind (mappages new i PGSIZE ?q (PTE_FLAGS (cow_entry e))) (\<lambda>r.
        if r \<noteq> 0 then thn (uvmunmap new 0 (i div PGSIZE) True) (ret (-1))
        else thn (refcnt_inc ?q) (uvmcopy_loop old new sz (i + PGSIZE))) t"
  proof -
    have "load64 (mem t) (r + 8 * PX 0 i) = cow_entry e" by (simp add: t(4) mem_simps)
    moreover have "t = s" if "\<not> pW e"
      using store64_load64 [of "mem s" "r + 8 * PX 0 i"] t(3) that by (simp add: t(4) cow_entry_def)
    moreover have "t = s\<lparr>mem := store64 (mem s) (r + 8 * PX 0 i) ((e OR PTE_C) AND NOT PTE_W)\<rparr>" if "pW e"
      using that by (simp add: t(4) cow_entry_def)
    ultimately show ?thesis
      using t(1-3) i upage_not_ge [OF i(1)] e(2) q0
      by (cases "pW e") (simp_all add: uvmcopy_loop.simps [of old new sz i] run_simps mem_simps)
  qed
  have nofree: "\<not> pV (pte_at (mem t) new i)" using t(7) [OF pts(2) i(1)] free pts(3) by simp
  from vm_invD(1) [OF t(5)] vm_invD(2) [OF t(5) pts(2)] i(1) nofree show ?thesis
  proof (cases rule: mappages_one [where pa = ?q and perm = "PTE_FLAGS (cow_entry e)"])
    case (full u \<Delta>)
    note g = grown_vm [OF t(5) full(2)]
    have "kept t \<Gamma> u \<Delta>"
      unfolding kept_def using grownD(2,5,6) [OF full(2)] by metis
    from kept_trans [OF t(6) this] have k: "kept s \<Gamma> u \<Delta>" .
    have "\<Delta> q = \<Gamma> q" if "plain (\<Gamma> q)" for q using that grownD(4) [OF full(2), of q] by auto
    then show ?thesis
      using that(1) [OF _ g(1) k] g(2) t(7) body full(1) by (simp add: run_simps)
  next
    case (ok u \<Delta> ys)
    note D = ptchgD [OF ok(2) i(1)]
    let ?w = "u\<lparr>pageref := (pageref u)(pgof ?q := pageref u (pgof ?q) + 1)\<rparr>"
    have c: "pV (child_entry e)" "pR (child_entry e)" "PTE2PA (child_entry e) = ?q" "\<not> pW (child_entry e)"
      using child_entry [OF e(2)] vm_invD(4) [OF inv pts(1) i(1)] e(1,2) by auto
    have w: "vm_inv ?w \<Delta> ys pts"
      by (rule map_shared_inv [OF t(5) pts(2) i(1) nofree e(3) t(8) c ok(2) [folded child_entry_def] refl])
    have "kept t \<Gamma> u \<Delta>" unfolding kept_def using D(2,5,6) by metis
    moreover have "kept u \<Delta> ?w \<Delta>" unfolding kept_def by (simp add: vm_updI)
    ultimately have k: "kept s \<Gamma> ?w \<Delta>" using kept_trans t(6) by metis
    have "\<Delta> q = \<Gamma> q" if "plain (\<Gamma> q)" for q using that D(4) [of q] by auto
    moreover have "vm_upd s t" using t(6) unfolding kept_def by blast
    then have "refcnt_inc ?q u = Ok () ?w"
      using qv vm_updD(3) [OF D(2)] vm_updD(3) [of s t] pt_invD(2) [OF D(1)]
      by (intro refcnt_inc_run) (auto simp: kunlocked_def)
    moreover have "pte_at (mem ?w) p vb = upd (upd (pte_at (mem s)) old i (cow_entry e)) new i (child_entry e) p vb"
      if "p \<in> pts" "upage vb" for p vb
      using D(8) [OF vm_invD(2) [OF t(5) that(1)] that(2)] t(7) [OF that] by (auto simp: upd_def child_entry_def)
    ultimately show ?thesis
      using that(2) [OF _ w k] body ok(1) \<open>refcnt_inc ?q u = Ok () ?w\<close> by (simp add: run_simps)
  qed
qed

subsection \<open>The whole copy\<close>

definition copied :: "addr \<Rightarrow> addr \<Rightarrow> addr \<Rightarrow> nat \<Rightarrow> pmap \<Rightarrow> pmap" where
  "copied old new i n P = (\<lambda>p vb. if in_range i n vb
     then if p = new then child_entry (P old vb) else if p = old then cow_entry (P old vb) else P p vb
     else P p vb)"

lemma copied_step:
  assumes "upage i" "unat i + 4096 \<le> unat MAXVA" "upage vb" "old \<noteq> new"
  shows "copied old new (i + PGSIZE) n (upd (upd P old i (cow_entry (P old i))) new i (child_entry (P old i))) p vb =
    copied old new i (Suc n) P p vb"
proof -
  have "\<not> in_range (i + PGSIZE) n i" using unat_add_PGSIZE [OF assms(2)] by (simp add: in_range_def)
  then show ?thesis using assms(4) by (auto simp: copied_def upd_def in_range_Suc [OF assms(1,3,2)])
qed

text \<open>The page tables after \<open>n\<close> pages from \<open>i\<close> on are copied, and after a copy of the first \<open>k\<close> pages that was undone.\<close>

definition fork_done :: "addr \<Rightarrow> addr \<Rightarrow> addr \<Rightarrow> nat \<Rightarrow> addr set \<Rightarrow> pmap \<Rightarrow> pmap \<Rightarrow> bool" where
  "fork_done old new i n pts P Q \<longleftrightarrow> (\<forall>p \<in> pts. \<forall>vb. upage vb \<longrightarrow> Q p vb = copied old new i n P p vb)"

definition fork_undone :: "addr \<Rightarrow> addr \<Rightarrow> nat \<Rightarrow> addr set \<Rightarrow> pmap \<Rightarrow> pmap \<Rightarrow> bool" where
  "fork_undone old new k pts P Q \<longleftrightarrow>
     (\<forall>p \<in> pts. \<forall>vb. upage vb \<longrightarrow> p \<noteq> new \<longrightarrow> Q p vb = P p vb \<or> p = old \<and> Q p vb = cow_entry (P p vb)) \<and>
     (\<forall>vb. upage vb \<longrightarrow> (if in_range 0 k vb then \<not> pV (Q new vb) else Q new vb = P new vb))"

lemma cow_entry_view:
  "PTE2PA (cow_entry e) = PTE2PA e" "pV (cow_entry e) \<longleftrightarrow> pV e" "pU (cow_entry e) \<longleftrightarrow> pU e" "cow_entry (cow_entry e) = cow_entry e"
  using cow_entry(1,2) [of e] cow_entry(3) [of 0 e] cow_entry(3) [of 4 e] by (simp_all add: bit_flag cow_entry_def [of "cow_entry e"])

lemma in_range_before:
  assumes "upage i" "upage vb" "vb \<noteq> i" "unat i + 4096 \<le> unat MAXVA" "in_range 0 (unat (i + PGSIZE) div 4096) vb"
  shows "in_range 0 (unat i div 4096) vb"
proof (rule ccontr)
  assume "\<not> in_range 0 (unat i div 4096) vb"
  then have "\<not> unat vb < unat i" using aligned_div [of i] assms(1) by (simp add: in_range_def)
  then have "unat i < unat vb" using assms(3) by (simp add: word_unat_eq_iff)
  from aligned_next [OF _ _ this] assms(1,2) have "unat i + 4096 \<le> unat vb" by simp
  then show False using assms(5) unat_add_PGSIZE [OF assms(4)] aligned_div [of i] assms(1) by (simp add: in_range_def)
qed

lemma fork_done_step:
  assumes i: "upage i" "unat i + 4096 \<le> unat MAXVA" and pts: "old \<in> pts" "old \<noteq> new"
    and Q: "\<And>p vb. p \<in> pts \<Longrightarrow> upage vb \<Longrightarrow> Q p vb = upd (upd P old i (cow_entry (P old i))) new i (child_entry (P old i)) p vb"
    and R: "fork_done old new (i + PGSIZE) n pts Q R"
  shows "fork_done old new i (Suc n) pts P R"
  unfolding fork_done_def
proof (intro ballI allI impI)
  fix p vb assume p: "p \<in> pts" "upage vb"
  let ?U = "upd (upd P old i (cow_entry (P old i))) new i (child_entry (P old i))"
  have "copied old new (i + PGSIZE) n Q p vb = copied old new (i + PGSIZE) n ?U p vb"
    unfolding copied_def Q [OF pts(1) p(2)] Q [OF p] ..
  then show "R p vb = copied old new i (Suc n) P p vb"
    using R p copied_step [OF i p(2) pts(2), of n P p] by (simp add: fork_done_def)
qed

lemma fork_undone_step:
  assumes i: "upage i" and pts: "new \<in> pts" "old \<noteq> new"
    and Q: "\<And>p vb. p \<in> pts \<Longrightarrow> upage vb \<Longrightarrow> Q p vb = upd (upd P old i (cow_entry (P old i))) new i (child_entry (P old i)) p vb"
    and R: "fork_undone old new (Suc (unat i div 4096) + n) pts Q R"
  shows "fork_undone old new (unat i div 4096 + Suc n) pts P R"
  unfolding fork_undone_def
proof (intro conjI ballI allI impI)
  fix p vb assume p: "p \<in> pts" "upage vb" "p \<noteq> new"
  then have "R p vb = Q p vb \<or> p = old \<and> R p vb = cow_entry (Q p vb)" using R by (simp add: fork_undone_def)
  then show "R p vb = P p vb \<or> p = old \<and> R p vb = cow_entry (P p vb)"
    using Q [OF p(1,2)] p(3) cow_entry_view(4) by (auto simp: upd_def split: if_splits)
next
  fix vb assume vb: "upage vb"
  have "in_range 0 (unat i div 4096 + Suc n) i" using aligned_div [of i] i by (simp add: in_range_def)
  moreover have "if in_range 0 (unat i div 4096 + Suc n) vb then \<not> pV (R new vb) else R new vb = Q new vb"
    using R vb by (simp add: fork_undone_def)
  ultimately show "if in_range 0 (unat i div 4096 + Suc n) vb then \<not> pV (R new vb) else R new vb = P new vb"
    using Q [OF pts(1) vb] pts(2) by (cases "vb = i") auto
qed

text \<open>The loop fails at page \<open>i\<close> and unmaps what it has copied so far.\<close>

lemma uvmcopy_undo:
  assumes inv: "vm_inv t \<Delta> ys pts" and pts: "new \<in> pts" "old \<noteq> new" and i: "upage i" "unat i + 4096 \<le> unat MAXVA"
    and Q: "\<And>p vb. p \<in> pts \<Longrightarrow> upage vb \<Longrightarrow> pte_at (mem t) p vb = upd P old i (cow_entry (P old i)) p vb"
    and below: "\<And>vb. upage vb \<Longrightarrow> in_range 0 (unat i div 4096) vb \<Longrightarrow> pV (P new vb) \<and> \<Delta> (PTE2PA (P new vb)) = User"
    and shared: "old \<in> pts" "shared_in old new 0 (unat i div 4096) P"
    and above: "\<And>vb. upage vb \<Longrightarrow> in_range i n vb \<Longrightarrow> \<not> pV (P new vb)"
  shows "\<exists>u \<Theta>. thn (uvmunmap new 0 (i div PGSIZE) True) (ret (-1)) t = Ok (-1) u \<and> vm_inv u \<Theta> ys pts \<and> kept t \<Delta> u \<Theta> \<and>
    fork_undone old new (unat i div 4096 + n) pts P (pte_at (mem u))"
proof -
  let ?k = "unat i div 4096"
  have ik: "unat i = 4096 * ?k" using aligned_div [of i] i(1) by simp
  have "unat (i div PGSIZE) = ?k" by (simp add: PGSIZE_def unat_div)
  then have "unat (i div PGSIZE * PGSIZE) = (?k * 4096) mod 2 ^ 64" by (simp add: unat_word_ariths PGSIZE_def)
  then have b: "unat (i div PGSIZE * PGSIZE) = unat (0 :: addr) + 4096 * ?k" using ik unat_bound [of i] by simp
  have rng: "pV (pte_at (mem t) new vb) \<and> \<Delta> (PTE2PA (pte_at (mem t) new vb)) = User" if "upage vb" "in_range 0 ?k vb" for vb
    using below [OF that] Q [OF pts(1) that(1)] pts(2) by simp
  have "aligned 0" "unat (0 :: addr) + 4096 * ?k \<le> unat MAXVA" using i(2) ik by (simp_all add: aligned_def)
  from unmap_range [OF inv pts(1) this b rng] obtain u \<Theta> zs
    where u: "uvmunmap_loop new 0 (i div PGSIZE * PGSIZE) True t = Ok () u" "vm_inv u \<Theta> zs pts" "vm_upd t u"
      "\<And>p vb. p \<in> pts \<Longrightarrow> upage vb \<Longrightarrow> pte_at (mem u) p vb = (if p = new \<and> in_range 0 ?k vb then 0 else pte_at (mem t) p vb)"
      "\<And>a. plain (\<Theta> (PGROUNDDOWN a)) \<Longrightarrow> mem u a = mem t a \<and> \<Theta> (PGROUNDDOWN a) = \<Delta> (PGROUNDDOWN a)"
      "\<And>old. old \<in> pts - {new} \<Longrightarrow> shared_in old new 0 ?k (pte_at (mem t)) \<Longrightarrow> zs = ys" by blast
  have "shared_in old new 0 ?k (pte_at (mem t))"
    unfolding shared_in_def
  proof (intro allI impI)
    fix vb assume vb: "upage vb" "in_range 0 ?k vb"
    then have "vb \<noteq> i" using ik by (auto simp: in_range_def)
    then show "pV (pte_at (mem t) old vb) \<and> PTE2PA (pte_at (mem t) old vb) = PTE2PA (pte_at (mem t) new vb)"
      using shared(2) vb Q [OF shared(1) vb(1)] Q [OF pts(1) vb(1)] pts(2) by (simp add: shared_in_def)
  qed
  then have zs: "zs = ys" using u(6) [of old] shared(1) pts(2) by simp
  have "kept t \<Delta> u \<Theta>" using u(3,5) unfolding kept_def by blast
  moreover have "fork_undone old new (?k + n) pts P (pte_at (mem u))"
    unfolding fork_undone_def
  proof (intro conjI ballI allI impI)
    fix p vb assume p: "p \<in> pts" "upage vb" "p \<noteq> new"
    show "pte_at (mem u) p vb = P p vb \<or> p = old \<and> pte_at (mem u) p vb = cow_entry (P p vb)"
      using u(4) [OF p(1,2)] Q [OF p(1,2)] p(3) by (auto simp: upd_def)
  next
    fix vb assume vb: "upage vb"
    have "in_range 0 (?k + n) vb \<longleftrightarrow> in_range 0 ?k vb \<or> in_range i n vb" using ik by (auto simp: in_range_def)
    then show "if in_range 0 (?k + n) vb then \<not> pV (pte_at (mem u) new vb) else pte_at (mem u) new vb = P new vb"
      using u(4) [OF pts(1) vb] Q [OF pts(1) vb] above [OF vb] pts(2) by auto
  qed
  ultimately show ?thesis using u(1,2) zs by (auto simp: uvmunmap_def run_simps)
qed

text \<open>What the loop needs from page \<open>i\<close> on, with \<open>n\<close> pages to go.\<close>

definition fork_ready :: "addr \<Rightarrow> addr \<Rightarrow> addr \<Rightarrow> addr \<Rightarrow> nat \<Rightarrow> roles \<Rightarrow> pmap \<Rightarrow> bool" where
  "fork_ready old new sz i n \<Gamma> P \<longleftrightarrow>
     aligned i \<and> unat i + 4096 * n \<le> unat MAXVA \<and> unat sz \<le> unat i + 4096 * n \<and> (n > 0 \<longrightarrow> unat i + 4096 * (n - 1) < unat sz) \<and>
     (\<forall>vb. upage vb \<longrightarrow> in_range i n vb \<longrightarrow> pV (P old vb) \<and> \<Gamma> (PTE2PA (P old vb)) = User \<and> \<not> pV (P new vb)) \<and>
     (\<forall>vb. upage vb \<longrightarrow> in_range 0 (unat i div 4096) vb \<longrightarrow> pV (P new vb) \<and> \<Gamma> (PTE2PA (P new vb)) = User) \<and>
     shared_in old new 0 (unat i div 4096) P"

lemma fork_ready_next:
  assumes r: "fork_ready old new sz i (Suc n) \<Gamma> P" and i: "upage i" "unat i + 4096 \<le> unat MAXVA"
    and pts: "old \<in> pts" "new \<in> pts" "old \<noteq> new" and roles: "\<And>q. plain (\<Gamma> q) \<Longrightarrow> \<Delta> q = \<Gamma> q"
    and Q: "\<And>p vb. p \<in> pts \<Longrightarrow> upage vb \<Longrightarrow> Q p vb = upd (upd P old i (cow_entry (P old i))) new i (child_entry (P old i)) p vb"
  shows "fork_ready old new sz (i + PGSIZE) n \<Delta> Q"
proof -
  have ui: "unat (i + PGSIZE) = unat i + 4096" by (rule unat_add_PGSIZE [OF i(2)])
  have at: "pV (P old i) \<and> \<Gamma> (PTE2PA (P old i)) = User" using r i(1) by (simp add: fork_ready_def in_range_def)
  have "pV (Q old vb) \<and> \<Delta> (PTE2PA (Q old vb)) = User \<and> \<not> pV (Q new vb)" if vb: "upage vb" "in_range (i + PGSIZE) n vb" for vb
  proof -
    have "vb \<noteq> i" "in_range i (Suc n) vb" using vb ui in_range_Suc [OF i(1) vb(1) i(2)] by (auto simp: in_range_def)
    then show ?thesis using r vb(1) Q [OF pts(1) vb(1)] Q [OF pts(2) vb(1)] roles by (simp add: fork_ready_def)
  qed
  moreover have "pV (Q new vb) \<and> \<Delta> (PTE2PA (Q new vb)) = User" if vb: "upage vb" "in_range 0 (unat (i + PGSIZE) div 4096) vb" for vb
  proof (cases "vb = i")
    case True
    then show ?thesis using Q [OF pts(2) i(1)] at roles child_entry by simp
  next
    case False
    from in_range_before [OF i(1) vb(1) this i(2) vb(2)] show ?thesis
      using r vb(1) Q [OF pts(2) vb(1)] roles False pts(3) by (simp add: fork_ready_def)
  qed
  moreover have "shared_in old new 0 (unat (i + PGSIZE) div 4096) Q"
    unfolding shared_in_def
  proof (intro allI impI)
    fix vb assume vb: "upage vb" "in_range 0 (unat (i + PGSIZE) div 4096) vb"
    show "pV (Q old vb) \<and> PTE2PA (Q old vb) = PTE2PA (Q new vb)"
    proof (cases "vb = i")
      case True
      then show ?thesis using Q [OF pts(1) i(1)] Q [OF pts(2) i(1)] at pts(3) child_entry(1) cow_entry_view(1,2) by simp
    next
      case False
      from in_range_before [OF i(1) vb(1) this i(2) vb(2)] show ?thesis
        using r vb(1) Q [OF pts(1) vb(1)] Q [OF pts(2) vb(1)] False by (simp add: fork_ready_def shared_in_def)
    qed
  qed
  moreover have "aligned (i + PGSIZE)" using i(1) by (intro aligned_PGSIZE) simp
  ultimately show ?thesis using r ui by (auto simp: fork_ready_def algebra_simps)
qed

lemma uvmcopy_loop_ok:
  assumes "vm_inv s \<Gamma> xs pts" and pts: "old \<in> pts" "new \<in> pts" "old \<noteq> new" and "fork_ready old new sz i n \<Gamma> (pte_at (mem s))"
  shows "\<exists>r t \<Delta> ys. uvmcopy_loop old new sz i s = Ok r t \<and> vm_inv t \<Delta> ys pts \<and> kept s \<Gamma> t \<Delta> \<and>
    (r = 0 \<and> fork_done old new i n pts (pte_at (mem s)) (pte_at (mem t)) \<or>
     r = -1 \<and> ys = [] \<and> fork_undone old new (unat i div 4096 + n) pts (pte_at (mem s)) (pte_at (mem t)))"
  using assms(1,5)
proof (induction n arbitrary: i s \<Gamma> xs)
  case 0
  then have "\<not> i < sz" by (simp add: word_less_nat_alt fork_ready_def)
  then have "uvmcopy_loop old new sz i s = Ok 0 s" by (simp add: uvmcopy_loop.simps run_simps)
  moreover have "kept s \<Gamma> s \<Gamma>" by (auto simp: kept_def)
  moreover have "fork_done old new i 0 pts P P" for P by (auto simp: fork_done_def copied_def in_range_def)
  ultimately show ?case using "0.prems"(1) by auto
next
  case (Suc n)
  note rd = Suc.prems(2)
  have i: "upage i" "i < sz" and le: "unat i + 4096 \<le> unat MAXVA" using rd by (auto simp: word_less_nat_alt fork_ready_def)
  have at: "pV (pte_at (mem s) old i)" "\<Gamma> (PTE2PA (pte_at (mem s) old i)) = User" "\<not> pV (pte_at (mem s) new i)"
    using rd i(1) by (simp_all add: fork_ready_def in_range_def)
  from Suc.prems(1) pts i refl at show ?case
  proof (cases rule: uvmcopy_step)
    case (fail t \<Delta>)
    have "\<exists>u \<Theta>. thn (uvmunmap new 0 (i div PGSIZE) True) (ret (-1)) t = Ok (-1) u \<and> vm_inv u \<Theta> [] pts \<and> kept t \<Delta> u \<Theta> \<and>
        fork_undone old new (unat i div 4096 + Suc n) pts (pte_at (mem s)) (pte_at (mem u))"
      by (rule uvmcopy_undo [OF fail(2) pts(2,3) i(1) le fail(5)]) (use rd fail(4) pts(1) in \<open>simp_all add: fork_ready_def\<close>)
    then show ?thesis using fail(1) kept_trans [OF fail(3)] by metis
  next
    case (ok t \<Delta> ys)
    have "fork_ready old new sz (i + PGSIZE) n \<Delta> (pte_at (mem t))" by (rule fork_ready_next [OF rd i(1) le pts ok(4,5)])
    from Suc.IH [OF ok(2) this] obtain r u \<Theta> zs where u: "uvmcopy_loop old new sz (i + PGSIZE) t = Ok r u" "vm_inv u \<Theta> zs pts" "kept t \<Delta> u \<Theta>"
      "r = 0 \<and> fork_done old new (i + PGSIZE) n pts (pte_at (mem t)) (pte_at (mem u)) \<or>
       r = -1 \<and> zs = [] \<and> fork_undone old new (unat (i + PGSIZE) div 4096 + n) pts (pte_at (mem t)) (pte_at (mem u))" by blast
    have dv: "unat (i + PGSIZE) div 4096 = Suc (unat i div 4096)" using unat_add_PGSIZE [OF le] by simp
    have "r = 0 \<and> fork_done old new i (Suc n) pts (pte_at (mem s)) (pte_at (mem u)) \<or>
      r = -1 \<and> zs = [] \<and> fork_undone old new (unat i div 4096 + Suc n) pts (pte_at (mem s)) (pte_at (mem u))"
      using u(4) fork_done_step [OF i(1) le pts(1,3) ok(5)] fork_undone_step [OF i(1) pts(2,3) ok(5)] unfolding dv by blast
    then show ?thesis using ok(1) u(1,2) kept_trans [OF ok(3) u(3)] by metis
  qed
qed

text \<open>What the processes see afterwards.\<close>

lemma fork_others:
  assumes t: "vm_inv t \<Delta> ys pts" "kept s \<Gamma> t \<Delta>" and p: "p \<in> pts" "p \<noteq> new"
    and f: "fork_done old new i n pts (pte_at (mem s)) (pte_at (mem t)) \<or> fork_undone old new k pts (pte_at (mem s)) (pte_at (mem t))"
  shows "uview t p va = uview s p va"
proof (rule uview_via [OF t(1) p(1) t(2)])
  assume va: "va < MAXVA"
  let ?e = "\<lambda>s. pte_at (mem s) p (PGROUNDDOWN va)"
  have "?e t = copied old new i n (pte_at (mem s)) p (PGROUNDDOWN va) \<or> ?e t = ?e s \<or> p = old \<and> ?e t = cow_entry (?e s)"
    using f upage_base [OF va] p unfolding fork_done_def fork_undone_def by blast
  then have "?e t = ?e s \<or> ?e t = cow_entry (?e s)" using p(2) by (auto simp: copied_def split: if_splits)
  then show "PTE2PA (?e t) = PTE2PA (?e s) \<and> (pV (?e t) \<longleftrightarrow> pV (?e s)) \<and> (pU (?e t) \<longleftrightarrow> pU (?e s))"
    using cow_entry_view(1-3) [of "?e s"] by auto
qed

lemma fork_child:
  assumes t: "vm_inv t \<Delta> ys pts" "new \<in> pts" "kept s \<Gamma> t \<Delta>" and f: "fork_done old new 0 n pts (pte_at (mem s)) (pte_at (mem t))"
    and src: "\<And>vb. upage vb \<Longrightarrow> in_range 0 n vb \<Longrightarrow> pV (pte_at (mem s) old vb)" and va: "unat va < 4096 * n"
  shows "uview t new va = uview s old va"
proof (rule uview_via [OF t])
  assume m: "va < MAXVA"
  have b: "in_range 0 n (PGROUNDDOWN va)" using va base_le [of va] by (simp add: in_range_def word_le_nat_alt)
  then have "pte_at (mem t) new (PGROUNDDOWN va) = child_entry (pte_at (mem s) old (PGROUNDDOWN va))"
    using f t(2) upage_base [OF m] by (simp add: fork_done_def copied_def)
  then show "PTE2PA (pte_at (mem t) new (PGROUNDDOWN va)) = PTE2PA (pte_at (mem s) old (PGROUNDDOWN va)) \<and>
    (pV (pte_at (mem t) new (PGROUNDDOWN va)) \<longleftrightarrow> pV (pte_at (mem s) old (PGROUNDDOWN va))) \<and>
    (pU (pte_at (mem t) new (PGROUNDDOWN va)) \<longleftrightarrow> pU (pte_at (mem s) old (PGROUNDDOWN va)))"
    using src [OF upage_base [OF m] b] child_entry by auto
qed

lemma fork_undone_child:
  assumes t: "vm_inv t \<Delta> ys pts" "new \<in> pts" "kept s \<Gamma> t \<Delta>" and f: "fork_undone old new n pts (pte_at (mem s)) (pte_at (mem t))"
    and dst: "\<And>vb. upage vb \<Longrightarrow> in_range 0 n vb \<Longrightarrow> \<not> pV (pte_at (mem s) new vb)"
  shows "uview t new va = uview s new va"
proof (cases "va < MAXVA \<and> in_range 0 n (PGROUNDDOWN va)")
  case True
  then have "\<not> pV (pte_at (mem t) new (PGROUNDDOWN va))" "\<not> pV (pte_at (mem s) new (PGROUNDDOWN va))"
    using f dst upage_base [of va] by (auto simp: fork_undone_def)
  then show ?thesis by (simp add: uview_def Let_def pte_at_page)
next
  case False
  show ?thesis by (rule uview_via [OF t]) (use False f upage_base [of va] in \<open>auto simp: fork_undone_def\<close>)
qed

lemma pages_below:
  assumes "sz \<le> MAXVA" and n: "n = (unat sz + 4095) div 4096"
  shows "unat (PGROUNDUP sz) = 4096 * n" "unat sz \<le> 4096 * n" "n > 0 \<Longrightarrow> 4096 * (n - 1) < unat sz" "4096 * n \<le> unat MAXVA"
    and "upage va \<Longrightarrow> in_range 0 n va \<longleftrightarrow> va < sz"
proof -
  have szn: "unat sz \<le> 2 ^ 38" using assms(1) by (simp add: word_le_nat_alt MAXVA_unat)
  show "unat (PGROUNDUP sz) = 4096 * n" "unat sz \<le> 4096 * n" "4096 * n \<le> unat MAXVA"
    using szn by (simp_all add: unat_PGROUNDUP n MAXVA_unat)
  show low: "4096 * (n - 1) < unat sz" if "n > 0" using that by (simp add: n)
  assume "upage va"
  then obtain k where k: "unat va = 4096 * k" using aligned_div [of va] by metis
  have "k < n \<longleftrightarrow> 4096 * k < unat sz" using less_eq_div_iff_mult_less_eq [of 4096 "Suc k" "unat sz + 4095"] by (auto simp: n Suc_le_eq)
  then show "in_range 0 n va \<longleftrightarrow> va < sz" by (simp add: in_range_def word_less_nat_alt k)
qed

text \<open>C1: fork by \<open>uvmcopy\<close>.  From a state in which the parent's pages below \<open>sz\<close> are mapped user pages and the child's are not mapped, it always returns.
  On success it has copied no page: parent and child map the same physical page at every address below \<open>sz\<close>, neither can write to it, and both
  entries are marked copy-on-write if the parent could write to the page (\<open>shared_cow\<close>); the child sees exactly the parent's memory, and the
  parent and every other process see what they saw before.  It returns \<open>-1\<close> only if no free page is left; then nobody's view has changed and the
  child has no page left.  Either way the reference counts still count the mappings and no shared page is writable.\<close>

theorem uvmcopy_spec:
  assumes inv: "vm_inv s \<Gamma> xs pts" and pts: "old \<in> pts" "new \<in> pts" "old \<noteq> new" and sz: "sz \<le> MAXVA"
    and src: "\<forall>va. upage va \<longrightarrow> va < sz \<longrightarrow> pV (pte_at (mem s) old va) \<and> \<Gamma> (PTE2PA (pte_at (mem s) old va)) = User"
    and dst: "\<forall>va. upage va \<longrightarrow> va < sz \<longrightarrow> \<not> pV (pte_at (mem s) new va)"
  shows "\<exists>r t \<Delta> ys. uvmcopy old new sz s = Ok r t \<and> vm_inv t \<Delta> ys pts \<and>
    (\<forall>p \<in> pts - {new}. \<forall>va. uview t p va = uview s p va) \<and>
    (if r = 0 then (\<forall>va < PGROUNDUP sz. uview t new va = uview s old va) \<and>
       (\<forall>va. upage va \<longrightarrow> va < sz \<longrightarrow> shared_cow (pte_at (mem s) old va) (pte_at (mem t) old va) (pte_at (mem t) new va))
     else r = -1 \<and> ys = [] \<and> (\<forall>va. uview t new va = uview s new va) \<and> (\<forall>va. upage va \<longrightarrow> va < sz \<longrightarrow> \<not> pV (pte_at (mem t) new va)))"
proof -
  define n where "n = (unat sz + 4095) div 4096"
  note n = pages_below [OF sz n_def]
  have "fork_ready old new sz 0 n \<Gamma> (pte_at (mem s))"
    using n(2-5) src dst by (auto simp: fork_ready_def aligned_def in_range_def shared_in_def)
  from uvmcopy_loop_ok [OF inv pts this] obtain r t \<Delta> ys where t: "uvmcopy old new sz s = Ok r t" "vm_inv t \<Delta> ys pts" "kept s \<Gamma> t \<Delta>"
    and r: "r = 0 \<and> fork_done old new 0 n pts (pte_at (mem s)) (pte_at (mem t)) \<or>
      r = -1 \<and> ys = [] \<and> fork_undone old new n pts (pte_at (mem s)) (pte_at (mem t))" by (auto simp: uvmcopy_def)
  have others: "\<forall>p \<in> pts - {new}. \<forall>va. uview t p va = uview s p va" using fork_others [OF t(2,3)] r by blast
  from r show ?thesis
  proof (elim disjE conjE)
    assume f: "r = 0" "fork_done old new 0 n pts (pte_at (mem s)) (pte_at (mem t))"
    have "uview t new va = uview s old va" if "va < PGROUNDUP sz" for va
      by (rule fork_child [OF t(2) pts(2) t(3) f(2)]) (use that n(1,5) src in \<open>auto simp: word_less_nat_alt\<close>)
    moreover have "shared_cow (pte_at (mem s) old va) (pte_at (mem t) old va) (pte_at (mem t) new va)" if va: "upage va" "va < sz" for va
      using f(2) pts va n(5) [OF va(1)] shared_cow_entry [of "pte_at (mem s) old va"] src by (simp add: fork_done_def copied_def)
    ultimately show ?thesis using t(1,2) f(1) others by (intro exI [of _ r] exI [of _ t] exI [of _ \<Delta>] exI [of _ ys]) simp
  next
    assume f: "r = -1" "ys = []" "fork_undone old new n pts (pte_at (mem s)) (pte_at (mem t))"
    have "uview t new va = uview s new va" for va by (rule fork_undone_child [OF t(2) pts(2) t(3) f(3)]) (use n(5) dst in auto)
    moreover have "\<not> pV (pte_at (mem t) new va)" if "upage va" "va < sz" for va using f(3) that n(5) [OF that(1)] by (simp add: fork_undone_def)
    ultimately show ?thesis using t(1,2) f(1,2) others by (intro exI [of _ r] exI [of _ t] exI [of _ \<Delta>] exI [of _ ys]) simp
  qed
qed

end
