(* ===== verification/UserCopy.thy ===== *)
theory UserCopy
  imports Fork
begin

text \<open>
  Copying between kernel values and user memory.  \<open>copyout_bytes\<close> is \<open>copyout\<close> for a source that is a
  kernel value (a local variable or a field of a kernel object) given by its bytes, and
  \<open>copyin_bytes\<close> is \<open>copyin\<close> into such a value.  The theorems say what they do to the views of memory
  that the address spaces have.
\<close>

function copyout_bytes :: "addr \<Rightarrow> addr \<Rightarrow> uchar list \<Rightarrow> ('z kmem_scheme, int) km" where
  "copyout_bytes pagetable dstva bs =
     (if bs = [] then ret 0
      else let va0 = PGROUNDDOWN dstva in
        bind (cowalloc pagetable va0) (\<lambda>r.
        if r < 0 then ret (-1)
        else bind (walkaddr pagetable va0) (\<lambda>pa0.
          if pa0 = 0 then ret (-1)
          else let n = unat (PGSIZE - (dstva - va0)) in
            thn (modify (\<lambda>s. s\<lparr>mem := mstore (mem s) (pa0 + (dstva - va0)) (take n bs)\<rparr>))
                (copyout_bytes pagetable (va0 + PGSIZE) (drop n bs)))))"
  by pat_completeness auto
termination
  by (relation "measure (\<lambda>(pt, d, bs). length bs)") (auto simp: word_pos_unat chunk_pos)

declare copyout_bytes.simps [simp del]

function copyin_bytes :: "addr \<Rightarrow> addr \<Rightarrow> nat \<Rightarrow> ('z kmem_scheme, uchar list option) km" where
  "copyin_bytes pagetable srcva len =
     (if len = 0 then ret (Some [])
      else let va0 = PGROUNDDOWN srcva in
        bind (walkaddr pagetable va0) (\<lambda>pa0.
        if pa0 = 0 then ret None
        else let n = min (unat (PGSIZE - (srcva - va0))) len in
          bind (gets (\<lambda>s. mload (mem s) (pa0 + (srcva - va0)) n)) (\<lambda>bs.
          bind (copyin_bytes pagetable (va0 + PGSIZE) (len - n)) (\<lambda>r.
          ret (case r of None \<Rightarrow> None | Some cs \<Rightarrow> Some (bs @ cs))))))"
  by pat_completeness auto
termination
  by (relation "measure (\<lambda>(pt, d, l). l)") (auto simp: word_pos_unat chunk_pos)

declare copyin_bytes.simps [simp del]

subsection \<open>One page\<close>

lemma walkaddr_run:
  assumes inv: "vm_inv s \<Gamma> xs pts" and pt: "pt \<in> pts"
  shows "walkaddr pt va s = Ok (let e = pte_at (mem s) pt va in
     if va < MAXVA \<and> pV e \<and> pU e then PTE2PA e else 0) s"
proof (cases "va < MAXVA")
  case True
  from vm_invD(1) [OF inv] vm_invD(2) [OF inv pt] True show ?thesis
  proof (cases rule: walk_noalloc)
    case none
    then show ?thesis using True by (simp add: walkaddr_def run_simps Let_def flip: not_le)
  next
    case (slot r)
    then show ?thesis using True by (simp add: walkaddr_def run_simps Let_def flip: not_le)
  qed
qed (simp add: walkaddr_def run_simps not_le Let_def)

lemma user_target:
  assumes inv: "vm_inv s \<Gamma> xs pts" and pt: "pt \<in> pts" and e: "va < MAXVA" "pV (pte_at (mem s) pt va)" "pU (pte_at (mem s) pt va)"
  shows "\<Gamma> (PTE2PA (pte_at (mem s) pt va)) = User" "PTE2PA (pte_at (mem s) pt va) \<noteq> 0"
    "pW (pte_at (mem s) pt va) \<Longrightarrow> refs (pte_at (mem s)) pts (PTE2PA (pte_at (mem s) pt va)) = 1"
proof -
  let ?q = "PTE2PA (pte_at (mem s) pt va)"
  have l: "leaf_ok \<Gamma> (pte_at (mem s)) pts (pte_at (mem s) pt va)"
    using share_okD(2) [OF vm_invD(5) [OF inv] pt upage_base [OF e(1)]] e by (simp add: pte_at_page)
  then show q: "\<Gamma> ?q = User" using e by blast
  show "pW (pte_at (mem s) pt va) \<Longrightarrow> refs (pte_at (mem s)) pts ?q = 1" using l q by auto
  show "?q \<noteq> 0"
    using valid_pa_nonzero [OF _ vm_invD(3) [OF inv q]] pt_invD(1) [OF vm_invD(1) [OF inv]] by (auto simp: free_inv_def)
qed

lemma base_of_range:
  assumes "aligned a" "unat a \<le> unat b" "unat b < unat a + 4096"
  shows "PGROUNDDOWN b = a"
proof -
  from aligned_div [OF assms(1)] obtain k where k: "unat a = 4096 * k" by metis
  then have "unat b div 4096 = k" using assms(2,3) by (intro div_nat_eqI) simp_all
  then show ?thesis using k by (simp add: word_unat_eq_iff unat_PGROUNDDOWN)
qed

lemma unat_base_offset: "unat b = unat (PGROUNDDOWN b) + unat (take_bit 12 b)"
proof -
  have "unat (take_bit 12 b) = unat b mod 4096" by (simp add: take_bit_eq_mod unat_mod)
  then show ?thesis by (simp add: unat_PGROUNDDOWN)
qed

text \<open>A store into a page that one entry maps writable is seen through that entry only.\<close>

lemma store_user:
  assumes inv: "vm_inv s \<Gamma> xs pts" and pt: "pt \<in> pts" and va: "va0 < MAXVA" "aligned va0"
    and e: "e = pte_at (mem s) pt va0" "pV e" "pU e" "pW e"
    and bs: "unat off + length bs \<le> 4096"
  defines "t \<equiv> s\<lparr>mem := mstore (mem s) (PTE2PA e + off) bs\<rparr>"
  shows "vm_inv t \<Gamma> xs pts" "p \<in> pts \<Longrightarrow> pte_at (mem t) p vb = pte_at (mem s) p vb"
    "p \<in> pts \<Longrightarrow> uview t p vb = (if p = pt \<and> unat va0 + unat off \<le> unat vb \<and> unat vb < unat va0 + unat off + length bs
      then Some (bs ! (unat vb - unat va0 - unat off)) else uview s p vb)"
proof -
  let ?q = "PTE2PA e"
  have q: "\<Gamma> ?q = User" "refs (pte_at (mem s)) pts ?q = 1"
    using user_target [OF inv pt va(1)] e by auto
  have m: "mstore (mem s) (?q + off) bs a = mem s a" if "PGROUNDDOWN a \<noteq> ?q" for a
    using that bs by (intro mstore_page_other) (auto simp: base_eq)
  have m': "mstore (mem s) (?q + off) bs a = mem s a" if "\<not> plain (\<Gamma> (PGROUNDDOWN a))" for a
    using that q(1) by (intro m) auto
  show "vm_inv t \<Gamma> xs pts" unfolding t_def by (rule vm_inv_mem(1) [OF inv]) (rule m')
  have pte: "pte_at (mem t) p vb = pte_at (mem s) p vb" if "p \<in> pts" for p vb
    using vm_inv_mem(2) [OF inv m' that] by (simp add: t_def)
  then show "p \<in> pts \<Longrightarrow> pte_at (mem t) p vb = pte_at (mem s) p vb" .
  assume p: "p \<in> pts"
  let ?f = "pte_at (mem s) p vb"
  have fin: "finite pts" by (rule share_okD(1) [OF vm_invD(5) [OF inv]])
  show "uview t p vb = (if p = pt \<and> unat va0 + unat off \<le> unat vb \<and> unat vb < unat va0 + unat off + length bs
      then Some (bs ! (unat vb - unat va0 - unat off)) else uview s p vb)"
  proof (cases "p = pt \<and> PGROUNDDOWN vb = va0 \<and> vb < MAXVA")
    case True
    let ?o = "take_bit 12 vb"
    have f: "?f = e" using True e(1) pte_at_page [of "mem s" pt vb] by simp
    have vb: "unat vb = unat va0 + unat ?o" using unat_base_offset [of vb] True by simp
    have "unat ?o < 4096" by (rule take_bit_12_lt)
    then have d: "unat (?o - off) =
        (if unat off \<le> unat ?o then unat ?o - unat off else unat ?o + 2 ^ 64 - unat off)"
      by (simp add: unat_sub_if')
    have lt: "unat (?o - off) < length bs \<longleftrightarrow> unat off \<le> unat ?o \<and> unat ?o < unat off + length bs"
      using bs unat_bound [of off] by (auto simp: d)
    have "mem t (?q + ?o) = (if unat off \<le> unat ?o \<and> unat ?o < unat off + length bs
        then bs ! (unat ?o - unat off) else mem s (?q + ?o))"
      unfolding t_def by (simp add: mstore_def lt) (simp add: d)
    moreover have "uview t p vb = Some (mem t (?q + ?o))"
      using True e pte [OF p, of vb] f by (simp add: uview_def Let_def)
    moreover have "uview s p vb = Some (mem s (?q + ?o))" using True e f by (simp add: uview_def Let_def)
    ultimately show ?thesis using True vb by auto
  next
    case False
    have out: "\<not> (p = pt \<and> unat va0 + unat off \<le> unat vb \<and> unat vb < unat va0 + unat off + length bs)"
    proof
      assume a: "p = pt \<and> unat va0 + unat off \<le> unat vb \<and> unat vb < unat va0 + unat off + length bs"
      then have b: "PGROUNDDOWN vb = va0" using bs va(2) by (intro base_of_range) auto
      have "unat va0 + 4096 \<le> unat MAXVA" using aligned_next [of va0 MAXVA] va by (simp add: word_less_nat_alt aligned_unat MAXVA_unat)
      then have "vb < MAXVA" using a bs by (simp add: word_less_nat_alt)
      with a b False show False by simp
    qed
    have "uview t p vb = uview s p vb"
    proof (cases "vb < MAXVA \<and> pV ?f \<and> pU ?f")
      case True
      have "PTE2PA ?f \<noteq> ?q"
      proof
        assume "PTE2PA ?f = ?q"
        then have "p = pt" "PGROUNDDOWN vb = va0"
          using refs_1D [where P = "pte_at (mem s)", OF fin q(2) pt _ _ _ p upage_base [of vb]] va e True
          by (auto simp: pte_at_page)
        with False True show False by simp
      qed
      then have "mem t (PTE2PA ?f + take_bit 12 vb) = mem s (PTE2PA ?f + take_bit 12 vb)"
        unfolding t_def using m by (simp add: in_target)
      then show ?thesis using True pte [OF p, of vb] by (simp add: uview_def Let_def)
    qed (use pte [OF p, of vb] in \<open>auto simp: uview_def Let_def\<close>)
    then show ?thesis using out by auto
  qed
qed

subsection \<open>\<open>copyout\<close>\<close>

lemma cowalloc_high: "\<not> va < MAXVA \<Longrightarrow> cowalloc pt va s = Ok (-1) s"
  by (simp add: cowalloc_def run_simps not_less)

definition wrote :: "'z kmem_scheme \<Rightarrow> roles \<Rightarrow> 'z kmem_scheme \<Rightarrow> roles \<Rightarrow> addr list \<Rightarrow> addr set \<Rightarrow>
    addr \<Rightarrow> nat \<Rightarrow> uchar list \<Rightarrow> bool" where
  "wrote s \<Gamma> t \<Delta> ys pts pt d bs \<longleftrightarrow> vm_inv t \<Delta> ys pts \<and> vm_upd s t \<and>
     (\<forall>p \<in> pts. \<forall>vb. uview t p vb = (if p = pt \<and> d \<le> unat vb \<and> unat vb < d + length bs
        then Some (bs ! (unat vb - d)) else uview s p vb)) \<and>
     (\<forall>a. \<Gamma> (PGROUNDDOWN a) = Kern \<longrightarrow> \<Delta> (PGROUNDDOWN a) = Kern \<and> mem t a = mem s a)"

lemma wrote_nil: "vm_inv s \<Gamma> xs pts \<Longrightarrow> wrote s \<Gamma> s \<Gamma> xs pts pt d []"
  by (auto simp: wrote_def)

lemma wrote_trans:
  assumes "wrote s \<Gamma> t \<Delta> ys pts pt d as" "wrote t \<Delta> u \<Theta> zs pts pt (d + length as) bs"
  shows "wrote s \<Gamma> u \<Theta> zs pts pt d (as @ bs)"
proof -
  have "uview u p vb = (if p = pt \<and> d \<le> unat vb \<and> unat vb < d + length (as @ bs)
        then Some ((as @ bs) ! (unat vb - d)) else uview s p vb)" if "p \<in> pts" for p vb
    using assms that unfolding wrote_def by (auto simp: nth_append)
  moreover have "vm_upd s u" using assms vm_upd_trans unfolding wrote_def by blast
  ultimately show ?thesis using assms unfolding wrote_def by auto
qed

lemma cow_step:
  assumes inv: "vm_inv s \<Gamma> xs pts" and pt: "pt \<in> pts" and va: "aligned va0"
  obtains (fail) "cowalloc pt va0 s = Ok (-1) s" | (panic) "cowalloc pt va0 s = Panic ''cowalloc: kalloc''"
    | (ok) t \<Delta> ys where "cowalloc pt va0 s = Ok 0 t" "va0 < MAXVA" "cow_done s \<Gamma> t \<Delta> ys pts pt va0"
proof (cases "va0 < MAXVA")
  case mx: True
  let ?e = "pte_at (mem s) pt va0"
  note run = cowalloc_run [OF inv pt mx, unfolded Let_def]
  consider (a) "\<not> pV ?e \<or> \<not> pU ?e \<or> \<not> pC ?e \<and> \<not> pW ?e" | (b) "pV ?e" "pU ?e" "pW ?e"
    | (c) "\<not> (\<not> pV ?e \<or> \<not> pU ?e \<or> \<not> pC ?e \<and> \<not> pW ?e)" "\<not> pW ?e" by blast
  then show ?thesis
  proof cases
    case a
    show ?thesis by (rule fail) (rule run [unfolded if_P [OF a]])
  next
    case b
    then have "\<not> (\<not> pV ?e \<or> \<not> pU ?e \<or> \<not> pC ?e \<and> \<not> pW ?e)" by blast
    note r = run [unfolded if_not_P [OF this] if_P [OF b(3)]]
    show ?thesis by (rule ok [OF r mx cow_done_refl [OF inv b]])
  next
    case c
    note r = run [unfolded if_not_P [OF c(1)] if_not_P [OF c(2)]]
    show ?thesis
    proof (cases "xs = [] \<and> refs (pte_at (mem s)) pts (PTE2PA ?e) > 1")
      case True
      show ?thesis by (rule panic) (rule r [unfolded if_P [OF True]])
    next
      case False
      from r [unfolded if_not_P [OF False]] ok mx show ?thesis by blast
    qed
  qed
next
  case False
  then show ?thesis using cowalloc_high fail by blast
qed

lemma chunk_write:
  assumes cd: "cow_done s \<Gamma> t \<Delta> ys pts pt va0" and pt: "pt \<in> pts" and va: "va0 < MAXVA" "va0 = PGROUNDDOWN d"
    and bs: "unat (d - va0) + length bs \<le> 4096"
  defines "pa \<equiv> PTE2PA (pte_at (mem t) pt va0)"
  shows "walkaddr pt va0 t = Ok pa t" "pa \<noteq> 0"
    "wrote s \<Gamma> (t\<lparr>mem := mstore (mem t) (pa + (d - va0)) bs\<rparr>) \<Delta> ys pts pt (unat d) bs"
proof -
  let ?e = "pte_at (mem t) pt va0" and ?u = "t\<lparr>mem := mstore (mem t) (pa + (d - va0)) bs\<rparr>"
  have inv: "vm_inv t \<Delta> ys pts" and e: "pV ?e" "pU ?e" "pW ?e" using cd by (auto simp: cow_done_def)
  show "walkaddr pt va0 t = Ok pa t" using walkaddr_run [OF inv pt, of va0] e va(1) by (simp add: pa_def)
  show "pa \<noteq> 0" using user_target(2) [OF inv pt va(1) e(1,2)] by (simp add: pa_def)
  have al: "aligned va0" using va(2) by simp
  have ud: "unat va0 + unat (d - va0) = unat d"
  proof -
    have "va0 \<le> d" using va(2) base_le by simp
    then show ?thesis by (simp add: unat_sub word_le_nat_alt)
  qed
  note st = store_user [OF inv pt va(1) al refl e bs, folded pa_def]
  have "uview ?u p vb = (if p = pt \<and> unat d \<le> unat vb \<and> unat vb < unat d + length bs
      then Some (bs ! (unat vb - unat d)) else uview s p vb)" if "p \<in> pts" for p vb
    using st(3) [OF that, of vb] ud cd that unfolding cow_done_def by (auto simp: diff_diff_left)
  moreover have "\<Delta> (PGROUNDDOWN a) = Kern \<and> mem ?u a = mem s a" if k: "\<Gamma> (PGROUNDDOWN a) = Kern" for a
  proof -
    have k': "\<Delta> (PGROUNDDOWN a) = Kern" "mem t a = mem s a" using cd k unfolding cow_done_def by blast+
    have "PGROUNDDOWN a \<noteq> pa" using k' user_target(1) [OF inv pt va(1) e(1,2)] unfolding pa_def by auto
    then have "mstore (mem t) (pa + (d - va0)) bs a = mem t a"
      using bs by (intro mstore_page_other) (auto simp: base_eq pa_def)
    then show ?thesis using k' by simp
  qed
  moreover have "vm_upd s ?u" using vm_upd_trans [OF _ vm_updI(2)] cd unfolding cow_done_def by blast
  ultimately show "wrote s \<Gamma> ?u \<Delta> ys pts pt (unat d) bs" unfolding wrote_def using st(1) by blast
qed

lemma chunk_unat: "unat (PGSIZE - (a - PGROUNDDOWN a)) = 4096 - unat (a - PGROUNDDOWN a)"
proof -
  have "unat (a - PGROUNDDOWN a) < 4096" by (simp add: in_page)
  then show ?thesis by (simp add: PGSIZE_def word_le_nat_alt unat_sub)
qed

lemma next_page_unat:
  assumes "PGROUNDDOWN a < MAXVA"
  shows "unat (PGROUNDDOWN a + PGSIZE) = unat a + unat (PGSIZE - (a - PGROUNDDOWN a))"
proof -
  have le: "PGROUNDDOWN a \<le> a" by (rule base_le)
  have b: "unat (a - PGROUNDDOWN a) < 4096" by (simp add: in_page)
  have "unat (a - PGROUNDDOWN a) = unat a - unat (PGROUNDDOWN a)" using le by (simp add: unat_sub)
  moreover have "unat (PGROUNDDOWN a + PGSIZE) = unat (PGROUNDDOWN a) + 4096"
    using assms by (subst unat_add_lem [THEN iffD1]) (simp_all add: word_less_nat_alt MAXVA_def PGSIZE_def)
  moreover have "unat (PGROUNDDOWN a) \<le> unat a" using le by (simp add: word_le_nat_alt)
  ultimately show ?thesis using b by (simp add: chunk_unat)
qed

lemma copyout_bytes_run:
  assumes "vm_inv s \<Gamma> xs pts" "pt \<in> pts"
  shows "copyout_bytes pt d bs s = Panic ''cowalloc: kalloc'' \<or>
    (\<exists>k t \<Delta> ys. k \<le> length bs \<and> copyout_bytes pt d bs s = Ok (if k = length bs then 0 else -1) t \<and>
       wrote s \<Gamma> t \<Delta> ys pts pt (unat d) (take k bs))"
  using assms
proof (induction bs arbitrary: d s \<Gamma> xs rule: length_induct)
  case (1 bs)
  let ?v = "PGROUNDDOWN d" and ?n = "unat (PGSIZE - (d - PGROUNDDOWN d))"
  note unf = copyout_bytes.simps [of pt d bs] run_simps Let_def
  show ?case
  proof (cases "bs = []")
    case True
    then show ?thesis using wrote_nil [OF 1(2), of pt "unat d"] by (auto simp: copyout_bytes.simps [of pt d "[]"] run_simps)
  next
    case ne: False
    have al: "aligned ?v" by simp
    from 1(2,3) al show ?thesis
    proof (cases rule: cow_step)
      case fail
      then have "copyout_bytes pt d bs s = Ok (-1) s" using ne by (simp add: unf)
      then show ?thesis using ne wrote_nil [OF 1(2), of pt "unat d"] by (intro disjI2 exI [of _ 0]) auto
    next
      case panic
      then show ?thesis using ne by (simp add: unf)
    next
      case (ok t \<Delta> ys)
      let ?pa = "PTE2PA (pte_at (mem t) pt ?v)"
      let ?u = "t\<lparr>mem := mstore (mem t) (?pa + (d - ?v)) (take ?n bs)\<rparr>"
      have b: "unat (d - ?v) < 4096" by (simp add: in_page)
      then have len: "unat (d - ?v) + length (take ?n bs) \<le> 4096" by (simp add: chunk_unat)
      note w = chunk_write [OF ok(3) 1(3) ok(2) refl len]
      have inv: "vm_inv ?u \<Delta> ys pts" using w(3) by (simp add: wrote_def)
      have run: "copyout_bytes pt d bs s = copyout_bytes pt (?v + PGSIZE) (drop ?n bs) ?u"
        using ne ok(1) w(1,2) by (simp add: unf)
      have npos: "0 < ?n" by (rule word_pos_unat [OF chunk_pos])
      then have sh: "length (drop ?n bs) < length bs" using ne by simp
      have nx: "unat (?v + PGSIZE) = unat d + length (take ?n bs)" if "?n < length bs"
        using next_page_unat [OF ok(2)] that by simp
      show ?thesis
      proof (cases "?n < length bs")
        case more: True
        from 1(1) [rule_format, OF sh inv 1(3), of "?v + PGSIZE"]
        consider (p) "copyout_bytes pt (?v + PGSIZE) (drop ?n bs) ?u = Panic ''cowalloc: kalloc''"
          | (q) k z \<Theta> zs where "k \<le> length (drop ?n bs)"
              "copyout_bytes pt (?v + PGSIZE) (drop ?n bs) ?u = Ok (if k = length (drop ?n bs) then 0 else -1) z"
              "wrote ?u \<Delta> z \<Theta> zs pts pt (unat (?v + PGSIZE)) (take k (drop ?n bs))" by blast
        then show ?thesis
        proof cases
          case p
          then show ?thesis using run by simp
        next
          case (q k z \<Theta> zs)
          have "wrote s \<Gamma> z \<Theta> zs pts pt (unat d) (take (?n + k) bs)"
            unfolding take_add by (rule wrote_trans [OF w(3) q(3) [unfolded nx [OF more]]])
          moreover have "(k = length (drop ?n bs)) = (?n + k = length bs)" "?n + k \<le> length bs" using q(1) more by auto
          ultimately show ?thesis using run q(2) by (intro disjI2 exI [of _ "?n + k"]) auto
        qed
      next
        case False
        then have "copyout_bytes pt d bs s = Ok 0 ?u" "take ?n bs = bs"
          using run by (simp_all add: copyout_bytes.simps [of pt _ "[]"] run_simps)
        then show ?thesis using w(3) by (intro disjI2 exI [of _ "length bs"]) auto
      qed
    qed
  qed
qed

text \<open>C3: \<open>copyout\<close> to user memory.  It ends in one of three ways: with 0 and every byte written;
  with -1 and a prefix written, when it met an address that is not writable user memory; or with
  the panic of \<open>cowalloc\<close>.  What it wrote is seen by the target address space at exactly those
  addresses, no other address space sees any of it, kernel memory is untouched, and the sharing
  invariant holds again.\<close>

theorem copyout_bytes_spec:
  assumes "vm_inv s \<Gamma> xs pts" "pt \<in> pts"
  shows "copyout_bytes pt d bs s = Panic ''cowalloc: kalloc'' \<or>
    (\<exists>k t \<Delta> ys. k \<le> length bs \<and> copyout_bytes pt d bs s = Ok (if k = length bs then 0 else -1) t \<and>
       wrote s \<Gamma> t \<Delta> ys pts pt (unat d) (take k bs))"
  by (rule copyout_bytes_run [OF assms])

end
