(* ===== verification/VmDemo.thy ===== *)
theory VmDemo
  imports UserCopy
begin

text \<open>
  A concrete machine state that satisfies the virtual-memory invariant: two address spaces, the
  first with one writable user page at address 0, the second empty, and two free pages.  The
  theorems about \<open>cowalloc\<close>, \<open>uvmcopy\<close> and the copy routines are instantiated on it.
\<close>

definition d_old :: addr where "d_old = 0x80100000"
definition d_l1 :: addr where "d_l1 = 0x80101000"
definition d_l0 :: addr where "d_l0 = 0x80102000"
definition d_user :: addr where "d_user = 0x80103000"
definition d_new :: addr where "d_new = 0x80104000"
definition d_f1 :: addr where "d_f1 = 0x80105000"
definition d_f2 :: addr where "d_f2 = 0x80106000"

lemmas d_defs = d_old_def d_l1_def d_l0_def d_user_def d_new_def d_f1_def d_f2_def

definition d_pte :: uint64 where
  "d_pte = PA2PTE d_user OR (PTE_R OR PTE_W OR PTE_U) OR PTE_V"

definition d_mem :: memory where
  "d_mem = store64 (store64 (store64 (store64 (\<lambda>_. 0) (d_old + 8 * 0) (PA2PTE d_l1 OR PTE_V))
      (d_l1 + 8 * 0) (PA2PTE d_l0 OR PTE_V)) (d_l0 + 8 * 0) d_pte) (d_f1 + 8 * 0) d_f2"

definition d_state :: kmem where
  "d_state = \<lparr>held = {}, mem = d_mem, freelist = d_f1, pageref = (\<lambda>_. 1), kend = 0x80021000\<rparr>"

definition d_roles :: roles where
  "d_roles = (\<lambda>_. Kern)(d_old := Node d_old [], d_l1 := Node d_old [0], d_l0 := Node d_old [0, 0],
     d_user := User, d_new := Node d_new [], d_f1 := Free, d_f2 := Free)"

lemma d_aligned [simp]:
  "aligned d_old" "aligned d_l1" "aligned d_l0" "aligned d_user" "aligned d_new" "aligned d_f1" "aligned d_f2"
  by (simp_all add: d_defs aligned_unat)

lemma d_neq [simp]:
  "d_old \<noteq> d_l1" "d_old \<noteq> d_l0" "d_old \<noteq> d_user" "d_old \<noteq> d_new" "d_old \<noteq> d_f1" "d_old \<noteq> d_f2"
  "d_l1 \<noteq> d_old" "d_l1 \<noteq> d_l0" "d_l1 \<noteq> d_user" "d_l1 \<noteq> d_new" "d_l1 \<noteq> d_f1" "d_l1 \<noteq> d_f2"
  "d_l0 \<noteq> d_old" "d_l0 \<noteq> d_l1" "d_l0 \<noteq> d_user" "d_l0 \<noteq> d_new" "d_l0 \<noteq> d_f1" "d_l0 \<noteq> d_f2"
  "d_user \<noteq> d_old" "d_user \<noteq> d_l1" "d_user \<noteq> d_l0" "d_user \<noteq> d_new" "d_user \<noteq> d_f1" "d_user \<noteq> d_f2"
  "d_new \<noteq> d_old" "d_new \<noteq> d_l1" "d_new \<noteq> d_l0" "d_new \<noteq> d_user" "d_new \<noteq> d_f1" "d_new \<noteq> d_f2"
  "d_f1 \<noteq> d_old" "d_f1 \<noteq> d_l1" "d_f1 \<noteq> d_l0" "d_f1 \<noteq> d_user" "d_f1 \<noteq> d_new" "d_f1 \<noteq> d_f2"
  "d_f2 \<noteq> d_old" "d_f2 \<noteq> d_l1" "d_f2 \<noteq> d_l0" "d_f2 \<noteq> d_user" "d_f2 \<noteq> d_new" "d_f2 \<noteq> d_f1"
  by (simp_all add: d_defs)

lemma load64_zero: "load64 (\<lambda>_. 0) a = 0"
  by (simp add: load64_def mload_def upt_conv_Cons)

lemma d_load:
  assumes "aligned q" "unat i < 512"
  shows "load64 d_mem (q + 8 * i) =
    (if i \<noteq> 0 then 0 else if q = d_f1 then d_f2 else if q = d_l0 then d_pte
     else if q = d_l1 then PA2PTE d_l0 OR PTE_V else if q = d_old then PA2PTE d_l1 OR PTE_V else 0)"
proof -
  have st: "load64 (store64 m (p + 8 * 0) v) (q + 8 * i) = (if q = p \<and> i = 0 then v else load64 m (q + 8 * i))"
    if "aligned p" for p m v
    using load64_store64_page [OF that assms(1) _ _ assms(2), of 0 m v] load64_store64_slot [of 0 i m p v] assms(2)
      load64_store64 [of m p v]
    by (cases "q = p"; cases "i = 0") auto
  show ?thesis unfolding d_mem_def by (simp only: st d_aligned load64_zero) auto
qed

lemma d_valid: "\<not> bad_pa d_state d_old" "\<not> bad_pa d_state d_l1" "\<not> bad_pa d_state d_l0" "\<not> bad_pa d_state d_user"
  "\<not> bad_pa d_state d_new" "\<not> bad_pa d_state d_f1" "\<not> bad_pa d_state d_f2"
  by (simp_all add: bad_pa_def d_state_def d_defs PGSIZE_def PHYSTOP_def KERNBASE_def)

lemma d_role_cases:
  "d_roles q = Free \<longleftrightarrow> q = d_f1 \<or> q = d_f2" "d_roles q = User \<longleftrightarrow> q = d_user"
  "d_roles q = Node pt is \<longleftrightarrow> q = d_old \<and> pt = d_old \<and> is = [] \<or> q = d_l1 \<and> pt = d_old \<and> is = [0] \<or>
     q = d_l0 \<and> pt = d_old \<and> is = [0, 0] \<or> q = d_new \<and> pt = d_new \<and> is = []"
  by (auto simp: d_roles_def)

lemma d_flags: "take_bit 10 (PTE_R OR PTE_W OR PTE_U) = PTE_R OR PTE_W OR PTE_U"
  by (simp add: pte_bits take_bit_eq_mod)

lemma d_link_rwx: "(PA2PTE x OR PTE_V) AND (PTE_R OR PTE_W OR PTE_X) = 0"
  by (subst PA2PTE_flags) (simp_all add: pte_bits take_bit_eq_mod)

lemma d_loads [simp]:
  "unat i < 512 \<Longrightarrow> load64 d_mem (d_old + 8 * i) = (if i = 0 then PA2PTE d_l1 OR PTE_V else 0)"
  "unat i < 512 \<Longrightarrow> load64 d_mem (d_l1 + 8 * i) = (if i = 0 then PA2PTE d_l0 OR PTE_V else 0)"
  "unat i < 512 \<Longrightarrow> load64 d_mem (d_l0 + 8 * i) = (if i = 0 then d_pte else 0)"
  "unat i < 512 \<Longrightarrow> load64 d_mem (d_new + 8 * i) = 0"
  "load64 d_mem d_old = PA2PTE d_l1 OR PTE_V" "load64 d_mem d_l1 = PA2PTE d_l0 OR PTE_V"
  "load64 d_mem d_l0 = d_pte" "load64 d_mem d_new = 0" "load64 d_mem d_f1 = d_f2" "load64 d_mem d_f2 = 0"
  using d_load [of d_old] d_load [of d_l1] d_load [of d_l0] d_load [of d_new]
    d_load [of d_old 0] d_load [of d_l1 0] d_load [of d_l0 0] d_load [of d_new 0] d_load [of d_f1 0] d_load [of d_f2 0]
  by simp_all

lemma d_sel [simp]: "mem d_state = d_mem" "freelist d_state = d_f1" "pageref d_state p = 1"
  by (simp_all add: d_state_def)

lemma d_nodes:
  "node_ok d_state d_roles d_old d_old []" "node_ok d_state d_roles d_l1 d_old [0]"
  "node_ok d_state d_roles d_l0 d_old [0, 0]" "node_ok d_state d_roles d_new d_new []"
proof -
  have r: "d_roles d_old = Node d_old []" "d_roles d_l1 = Node d_old [0]" "d_roles d_l0 = Node d_old [0, 0]"
    by (simp_all add: d_roles_def)
  show "node_ok d_state d_roles d_old d_old []" using d_valid(1) r by (simp add: node_ok_def d_link_rwx)
  show "node_ok d_state d_roles d_new d_new []" using d_valid(5) by (simp add: node_ok_def)
  have "linked d_mem d_roles d_l1 d_old [0]" using r by (auto intro!: exI [of _ d_old])
  then show "node_ok d_state d_roles d_l1 d_old [0]" using d_valid(2) r by (simp add: node_ok_def d_link_rwx del: linked.simps)
  have "linked d_mem d_roles d_l0 d_old [0, 0]" using r by (auto intro!: exI [of _ d_l1])
  then show "node_ok d_state d_roles d_l0 d_old [0, 0]" using d_valid(3) by (simp add: node_ok_def del: linked.simps)
qed

lemma d_pt_inv: "pt_inv d_state d_roles [d_f1, d_f2]"
proof -
  have "d_f1 \<noteq> 0" "d_f2 \<noteq> 0" by (simp_all add: d_defs)
  moreover have "kend d_state \<noteq> 0" by (simp add: d_state_def)
  ultimately have "free_inv d_state [d_f1, d_f2]"
    using d_valid by (simp add: free_inv_def)
  moreover have "node_ok d_state d_roles q pt is" if "d_roles q = Node pt is" for q pt "is"
    using that d_nodes unfolding d_role_cases by blast
  ultimately show ?thesis
    unfolding pt_inv_def by (simp add: d_role_cases kunlocked_def d_state_def)
qed

lemma d_pte_at: "upage va \<Longrightarrow> pte_at d_mem d_old va = (if va = 0 then d_pte else 0)" "pte_at d_mem d_new va = 0"
proof -
  assume va: "upage va"
  have d: "PTE2PA (PA2PTE d_l1 OR PTE_V) = d_l1" "PTE2PA (PA2PTE d_l0 OR PTE_V) = d_l0" by simp_all
  have z: "va = 0 \<longleftrightarrow> PX 2 va = 0 \<and> PX 1 va = 0 \<and> PX 0 va = 0"
    using PX_inj [of va 0] va by (auto simp: PX_def aligned_def MAXVA_def)
  have "pte_at d_mem d_old va = (if PX 2 va = 0 \<and> PX 1 va = 0 \<and> PX 0 va = 0 then d_pte else 0)"
    by (auto simp: pte_at_unfold Let_def PX_lt d)
  then show "pte_at d_mem d_old va = (if va = 0 then d_pte else 0)" using z by metis
next
  show "pte_at d_mem d_new va = 0" by (simp add: pte_at_unfold Let_def PX_lt)
qed

lemma d_pte_facts: "PTE2PA d_pte = d_user" "pV d_pte" "pR d_pte" "pW d_pte" "pU d_pte"
proof -
  show "PTE2PA d_pte = d_user" "pV d_pte"
    unfolding d_pte_def using leaf_value(1,2) [OF d_aligned(4) d_flags] by blast+
  have "bit d_pte 1" "bit d_pte 2" "bit d_pte 4"
    unfolding d_pte_def by (simp_all add: leaf_bit bit_or_iff)
  then show "pR d_pte" "pW d_pte" "pU d_pte" by (simp_all add: bit_flag)
qed

lemma d_vm_inv: "vm_inv d_state d_roles [d_f1, d_f2] {d_old, d_new}"
proof -
  have 0: "upage 0" by (simp add: aligned_def MAXVA_def)
  have e: "pte_at d_mem pt va = (if pt = d_old \<and> va = 0 then d_pte else 0)" if "pt \<in> {d_old, d_new}" "upage va" for pt va
    using that d_pte_at by auto
  have s: "sites (pte_at d_mem) {d_old, d_new} q = (if q = d_user then {(d_old, 0)} else {})" for q
    unfolding sites_def using e 0 d_pte_facts by (auto split: if_splits)
  have "share_ok d_roles (\<lambda>q. pageref d_state (pgof q)) (pte_at d_mem) {d_old, d_new}"
    by (rule share_okI) (use e d_pte_facts in \<open>auto simp: refs_def s d_role_cases split: if_splits\<close>)
  then show ?thesis
    unfolding vm_inv_def using d_pt_inv d_valid(4) e d_pte_facts by (auto simp: d_role_cases split: if_splits)
qed

subsection \<open>Instances\<close>

theorem cowalloc_spec_witness:
  "vm_inv d_state d_roles [d_f1, d_f2] {d_old, d_new} \<and> d_old \<in> {d_old, d_new} \<and> (5 :: addr) < MAXVA \<and>
   cowalloc d_old 5 d_state = Ok 0 d_state \<and> cowalloc d_new 5 d_state = Ok (-1) d_state"
proof -
  have 5: "(5 :: addr) < MAXVA" by (simp add: MAXVA_def)
  have "PGROUNDDOWN 5 = 0" by (simp add: PGROUNDDOWN_def PGSIZE_def)
  then have "pte_at d_mem d_old 5 = d_pte" "pte_at d_mem d_new 5 = 0"
    using d_pte_at(1) [of 0] d_pte_at(2) [of 5] pte_at_page [of d_mem d_old 5] by (simp_all add: aligned_def MAXVA_def)
  then show ?thesis
    using cowalloc_spec [OF d_vm_inv _ 5, of d_old] cowalloc_spec [OF d_vm_inv _ 5, of d_new] 5 d_vm_inv d_pte_facts
    by (simp add: Let_def)
qed

theorem uvmcopy_spec_witness:
  "vm_inv d_state d_roles [d_f1, d_f2] {d_old, d_new} \<and> pV (pte_at (mem d_state) d_old 0) \<and>
   (\<exists>r t \<Delta> ys. uvmcopy d_old d_new 4096 d_state = Ok r t \<and> vm_inv t \<Delta> ys {d_old, d_new} \<and>
      (r = 0 \<longrightarrow> (\<forall>va < PGROUNDUP 4096. uview t d_new va = uview d_state d_old va) \<and>
        shared_cow (pte_at (mem d_state) d_old 0) (pte_at (mem t) d_old 0) (pte_at (mem t) d_new 0)) \<and> (r \<noteq> 0 \<longrightarrow> ys = []))"
proof -
  have page0: "va = 0" if "upage va" "va < 4096" for va
    using that PGROUNDDOWN_id [of va] unat_PGROUNDDOWN [of va] by (simp add: word_less_nat_alt word_unat_eq_iff)
  have 0: "upage 0" by (simp add: aligned_def MAXVA_def)
  have le: "(4096 :: addr) \<le> MAXVA" by (simp add: MAXVA_def)
  have src: "\<forall>va. upage va \<longrightarrow> va < 4096 \<longrightarrow>
      pV (pte_at (mem d_state) d_old va) \<and> d_roles (PTE2PA (pte_at (mem d_state) d_old va)) = User"
  proof (intro allI impI)
    fix va assume "upage va" "va < 4096"
    then have "va = 0" by (rule page0)
    then show "pV (pte_at (mem d_state) d_old va) \<and> d_roles (PTE2PA (pte_at (mem d_state) d_old va)) = User"
      using d_pte_at(1) [OF 0] d_pte_facts by (simp add: d_role_cases)
  qed
  have dst: "\<forall>va. upage va \<longrightarrow> va < 4096 \<longrightarrow> \<not> pV (pte_at (mem d_state) d_new va)"
    using d_pte_at(2) by simp
  have "d_old \<in> {d_old, d_new}" "d_new \<in> {d_old, d_new}" "d_old \<noteq> d_new" by simp_all
  from uvmcopy_spec [OF d_vm_inv this le src dst] obtain r t \<Delta> ys where t: "uvmcopy d_old d_new 4096 d_state = Ok r t" "vm_inv t \<Delta> ys {d_old, d_new}"
    and r: "if r = 0 then (\<forall>va < PGROUNDUP 4096. uview t d_new va = uview d_state d_old va) \<and>
        (\<forall>va. upage va \<longrightarrow> va < 4096 \<longrightarrow> shared_cow (pte_at (mem d_state) d_old va) (pte_at (mem t) d_old va) (pte_at (mem t) d_new va))
      else ys = []" by (auto split: if_splits)
  have "(0 :: addr) < 4096" by simp
  then show ?thesis using t r 0 d_vm_inv d_pte_at(1) [OF 0] d_pte_facts
    by (intro conjI exI [of _ r] exI [of _ t] exI [of _ \<Delta>] exI [of _ ys]) (auto split: if_splits)
qed

theorem copyout_bytes_spec_witness:
  "vm_inv d_state d_roles [d_f1, d_f2] {d_old, d_new} \<and>
   (copyout_bytes d_old 8 [1, 2, 3] d_state = Panic ''cowalloc: kalloc'' \<or>
    (\<exists>k t \<Delta> ys. k \<le> length [1::uchar, 2, 3] \<and> copyout_bytes d_old 8 [1, 2, 3] d_state = Ok (if k = length [1::uchar, 2, 3] then 0 else -1) t \<and>
       wrote d_state d_roles t \<Delta> ys {d_old, d_new} d_old (unat (8 :: addr)) (take k [1, 2, 3])))"
  using copyout_bytes_spec [OF d_vm_inv insertI1, of 8 "[1, 2, 3]"] d_vm_inv by blast

end
