(* ===== verification/Proc.thy ===== *)
theory Proc
  imports Cow
begin

text \<open>
  \<^verbatim>\<open>kernel/proc.c\<close>, first part: the process table, process identifiers, the states a process goes
  through, sleeping and waking, killing, the scheduler's choice, and copying to either a user or a
  kernel address.  A process is an index into the table.  \<open>cur\<close> is the process of the executing CPU
  (\<^verbatim>\<open>mycpu()->proc\<close>).  A call that gives up the CPU ends in \<open>Sleep\<close>, in the state in which \<^verbatim>\<open>swtch\<close> is
  entered; \<open>sleep_resume\<close> is what \<open>sleep\<close> does once the scheduler has switched back.
\<close>

subsection \<open>The process table\<close>

datatype procstate = UNUSED | USED | SLEEPING | RUNNABLE | RUNNING | ZOMBIE

record proc =
  p_state :: procstate
  p_chan :: "chan option"
  p_killed :: int
  p_xstate :: int
  p_pid :: int
  p_parent :: "nat option"
  p_kstack :: addr
  p_sz :: uint64
  p_pagetable :: addr
  p_trapframe :: addr
  p_ra :: uint64
  p_sp :: uint64
  p_saved :: "uint64 list"
  p_ofile :: "nat \<Rightarrow> nat option"
  p_cwd :: "nat option"
  p_name :: "uchar list"
  p_rtime :: uint
  p_ctime :: uint
  p_etime :: uint

record kproc = kvm +
  procs :: "nat \<Rightarrow> proc"
  cur :: "nat option"
  initproc :: "nat option"
  nextpid :: int
  ticks :: uint
  forkret_addr :: addr
  first :: bool

definition upd_proc :: "nat \<Rightarrow> (proc \<Rightarrow> proc) \<Rightarrow> ('z kproc_scheme, unit) km" where
  "upd_proc p f = modify (\<lambda>s. s\<lparr>procs := (procs s)(p := f (procs s p))\<rparr>)"

definition get_proc :: "nat \<Rightarrow> ('z kproc_scheme, proc) km" where
  "get_proc p = gets (\<lambda>s. procs s p)"

text \<open>\<^verbatim>\<open>myproc()\<close> where the code goes on to use its result as a process; a null one would be a bad
  kernel pointer.\<close>

definition myproc :: "('z kproc_scheme, nat) km" where
  "myproc = bind (gets cur) (\<lambda>c. case c of None \<Rightarrow> panic ''kerneltrap'' | Some p \<Rightarrow> ret p)"

text \<open>\<open>for (p = proc; p < &proc[NPROC]; p++)\<close> with a body that does not leave the loop; \<open>k\<close> processes
  are still to come.\<close>

primrec for_proc :: "nat \<Rightarrow> (nat \<Rightarrow> ('s, unit) km) \<Rightarrow> ('s, unit) km" where
  "for_proc 0 f = skip"
| "for_proc (Suc k) f = thn (f (NPROC - Suc k)) (for_proc k f)"

definition procinit :: "('z kproc_scheme, unit) km" where
  "procinit =
     thn (initlock PidLock)
    (thn (initlock WaitLock)
         (for_proc NPROC (\<lambda>p.
            thn (initlock (ProcLock p))
           (thn (upd_proc p (\<lambda>q. q\<lparr>p_state := UNUSED\<rparr>))
                (upd_proc p (\<lambda>q. q\<lparr>p_kstack := KSTACK p\<rparr>))))))"

definition allocpid :: "('z kproc_scheme, int) km" where
  "allocpid =
     thn (acquire PidLock)
    (bind (gets nextpid) (\<lambda>pid.
     thn (modify (\<lambda>s. s\<lparr>nextpid := nextpid s + 1\<rparr>))
    (thn (release PidLock)
         (ret pid))))"

subsection \<open>Creating and freeing\<close>

definition proc_pagetable :: "nat \<Rightarrow> ('z kproc_scheme, addr) km" where
  "proc_pagetable p =
     bind uvmcreate (\<lambda>pagetable.
     if pagetable = 0 then ret 0
     else bind (gets trampoline) (\<lambda>tr.
       bind (mappages pagetable TRAMPOLINE PGSIZE tr (PTE_R OR PTE_X)) (\<lambda>r.
       if r < 0 then thn (uvmfree pagetable 0) (ret 0)
       else bind (get_proc p) (\<lambda>q.
         bind (mappages pagetable TRAPFRAME PGSIZE (p_trapframe q) (PTE_R OR PTE_W)) (\<lambda>r'.
         if r' < 0 then
           thn (uvmunmap pagetable TRAMPOLINE 1 False) (thn (uvmfree pagetable 0) (ret 0))
         else ret pagetable)))))"

definition proc_freepagetable :: "addr \<Rightarrow> uint64 \<Rightarrow> ('z kmem_scheme, unit) km" where
  "proc_freepagetable pagetable sz =
     thn (uvmunmap pagetable TRAMPOLINE 1 False)
    (thn (uvmunmap pagetable TRAPFRAME 1 False)
         (uvmfree pagetable sz))"

definition freeproc :: "nat \<Rightarrow> ('z kproc_scheme, unit) km" where
  "freeproc p =
     bind (get_proc p) (\<lambda>q.
     thn (if p_trapframe q \<noteq> 0 then kfree (p_trapframe q) else skip)
    (thn (upd_proc p (\<lambda>q. q\<lparr>p_trapframe := 0\<rparr>))
    (thn (if p_pagetable q \<noteq> 0 then proc_freepagetable (p_pagetable q) (p_sz q) else skip)
         (upd_proc p (\<lambda>q. q\<lparr>p_pagetable := 0, p_sz := 0, p_pid := 0, p_parent := None,
            p_name := (p_name q)[0 := 0], p_chan := None, p_killed := 0, p_xstate := 0,
            p_state := UNUSED\<rparr>)))))"

text \<open>The search for an unused slot; \<open>k\<close> slots are still to come.  The slot it finds stays locked.\<close>

primrec find_unused :: "nat \<Rightarrow> ('z kproc_scheme, nat option) km" where
  "find_unused 0 = ret None"
| "find_unused (Suc k) =
     (let p = NPROC - Suc k in
      thn (acquire (ProcLock p))
     (bind (get_proc p) (\<lambda>q.
      if p_state q = UNUSED then ret (Some p)
      else thn (release (ProcLock p)) (find_unused k))))"

definition allocproc :: "('z kproc_scheme, nat option) km" where
  "allocproc =
     bind (find_unused NPROC) (\<lambda>f. case f of
       None \<Rightarrow> ret None
     | Some p \<Rightarrow>
         bind allocpid (\<lambda>pid.
         thn (upd_proc p (\<lambda>q. q\<lparr>p_pid := pid, p_state := USED\<rparr>))
        (bind kalloc (\<lambda>tf.
         thn (upd_proc p (\<lambda>q. q\<lparr>p_trapframe := tf\<rparr>))
        (if tf = 0 then thn (freeproc p) (thn (release (ProcLock p)) (ret None))
         else bind (proc_pagetable p) (\<lambda>pt.
           thn (upd_proc p (\<lambda>q. q\<lparr>p_pagetable := pt\<rparr>))
          (if pt = 0 then thn (freeproc p) (thn (release (ProcLock p)) (ret None))
           else bind (gets ticks) (\<lambda>now.
             bind (gets forkret_addr) (\<lambda>fr.
             thn (upd_proc p (\<lambda>q. q\<lparr>p_ra := fr, p_sp := p_kstack q + PGSIZE, p_saved := replicate 12 0,
                    p_rtime := 0, p_etime := 0, p_ctime := now\<rparr>))
                 (ret (Some p)))))))))))"

definition growproc :: "int \<Rightarrow> ('z kproc_scheme, int) km" where
  "growproc n =
     bind myproc (\<lambda>p. bind (get_proc p) (\<lambda>q.
     let sz = p_sz q in
     if n > 0 then
       bind (uvmalloc (p_pagetable q) sz (sz + word_of_int n) PTE_W) (\<lambda>sz'.
       if sz' = 0 then ret (-1)
       else thn (upd_proc p (\<lambda>q. q\<lparr>p_sz := sz'\<rparr>)) (ret 0))
     else if n < 0 then
       bind (uvmdealloc (p_pagetable q) sz (sz + word_of_int n)) (\<lambda>sz'.
       thn (upd_proc p (\<lambda>q. q\<lparr>p_sz := sz'\<rparr>)) (ret 0))
     else thn (upd_proc p (\<lambda>q. q\<lparr>p_sz := sz\<rparr>)) (ret 0)))"

subsection \<open>Giving up the CPU\<close>

text \<open>\<open>sched\<close> up to \<^verbatim>\<open>swtch\<close>.  On the executing CPU \<^verbatim>\<open>noff\<close> counts the spin locks held, and holding
  one keeps interrupts off (theory \<open>Spinlock\<close>).\<close>

definition sched :: "chan \<Rightarrow> ('z kproc_scheme, unit) km" where
  "sched c =
     bind myproc (\<lambda>p.
     bind (gets held) (\<lambda>h.
     bind (get_proc p) (\<lambda>q.
     thn (panic_if (ProcLock p \<notin> h) ''sched p->lock'')
    (thn (panic_if (card h \<noteq> 1) ''sched locks'')
    (thn (panic_if (p_state q = RUNNING) ''sched running'')
         (\<lambda>s. Sleep c s))))))"

definition yield :: "('z kproc_scheme, unit) km" where
  "yield =
     bind myproc (\<lambda>p.
     thn (acquire (ProcLock p))
    (thn (upd_proc p (\<lambda>q. q\<lparr>p_state := RUNNABLE\<rparr>))
         (sched (ChanProc p))))"

definition yield_resume :: "('z kproc_scheme, unit) km" where
  "yield_resume = bind myproc (\<lambda>p. release (ProcLock p))"

definition sleep :: "chan \<Rightarrow> lock \<Rightarrow> ('z kproc_scheme, unit) km" where
  "sleep chan lk =
     bind myproc (\<lambda>p.
     thn (acquire (ProcLock p))
    (thn (release lk)
    (thn (upd_proc p (\<lambda>q. q\<lparr>p_chan := Some chan\<rparr>))
    (thn (upd_proc p (\<lambda>q. q\<lparr>p_state := SLEEPING\<rparr>))
         (sched chan)))))"

definition sleep_resume :: "lock \<Rightarrow> ('z kproc_scheme, unit) km" where
  "sleep_resume lk =
     bind myproc (\<lambda>p.
     thn (upd_proc p (\<lambda>q. q\<lparr>p_chan := None\<rparr>))
    (thn (release (ProcLock p))
         (acquire lk)))"

definition wakeup :: "chan \<Rightarrow> ('z kproc_scheme, unit) km" where
  "wakeup chan = for_proc NPROC (\<lambda>p.
     bind (gets cur) (\<lambda>me.
     if me = Some p then skip
     else thn (acquire (ProcLock p))
         (bind (get_proc p) (\<lambda>q.
          thn (if p_state q = SLEEPING \<and> p_chan q = Some chan
               then upd_proc p (\<lambda>q. q\<lparr>p_state := RUNNABLE\<rparr>) else skip)
              (release (ProcLock p))))))"



subsection \<open>Killing\<close>

primrec kill_scan :: "nat \<Rightarrow> int \<Rightarrow> ('z kproc_scheme, int) km" where
  "kill_scan 0 pid = ret (-1)"
| "kill_scan (Suc k) pid =
     (let p = NPROC - Suc k in
      thn (acquire (ProcLock p))
     (bind (get_proc p) (\<lambda>q.
      if p_pid q = pid
      then thn (upd_proc p (\<lambda>q. q\<lparr>p_killed := 1\<rparr>))
          (thn (if p_state q = SLEEPING then upd_proc p (\<lambda>q. q\<lparr>p_state := RUNNABLE\<rparr>) else skip)
          (thn (release (ProcLock p)) (ret 0)))
      else thn (release (ProcLock p)) (kill_scan k pid))))"

definition kill :: "int \<Rightarrow> ('z kproc_scheme, int) km" where
  "kill pid = kill_scan NPROC pid"

definition setkilled :: "nat \<Rightarrow> ('z kproc_scheme, unit) km" where
  "setkilled p =
     thn (acquire (ProcLock p))
    (thn (upd_proc p (\<lambda>q. q\<lparr>p_killed := 1\<rparr>))
         (release (ProcLock p)))"

definition killed :: "nat \<Rightarrow> ('z kproc_scheme, int) km" where
  "killed p =
     thn (acquire (ProcLock p))
    (bind (get_proc p) (\<lambda>q.
     thn (release (ProcLock p))
         (ret (p_killed q))))"

definition update_time :: "('z kproc_scheme, unit) km" where
  "update_time = for_proc NPROC (\<lambda>p.
     thn (acquire (ProcLock p))
    (bind (get_proc p) (\<lambda>q.
     thn (if p_state q = RUNNING then upd_proc p (\<lambda>q. q\<lparr>p_rtime := p_rtime q + 1\<rparr>) else skip)
         (release (ProcLock p)))))"

subsection \<open>Copying to a user or a kernel address\<close>

definition either_copyout :: "bool \<Rightarrow> addr \<Rightarrow> addr \<Rightarrow> uint64 \<Rightarrow> ('z kproc_scheme, int) km" where
  "either_copyout user_dst dst src len =
     (if user_dst then bind myproc (\<lambda>p. bind (get_proc p) (\<lambda>q. copyout (p_pagetable q) dst src len))
      else thn (kmemmove dst src (ucast len)) (ret 0))"

definition either_copyin :: "addr \<Rightarrow> bool \<Rightarrow> addr \<Rightarrow> uint64 \<Rightarrow> ('z kproc_scheme, int) km" where
  "either_copyin dst user_src src len =
     (if user_src then bind myproc (\<lambda>p. bind (get_proc p) (\<lambda>q. copyin (p_pagetable q) dst src len))
      else thn (kmemmove dst src (ucast len)) (ret 0))"

subsection \<open>Symbolic execution\<close>

lemma upd_proc_run [run_simps]: "upd_proc p f s = Ok () (s\<lparr>procs := (procs s)(p := f (procs s p))\<rparr>)"
  by (simp add: upd_proc_def run_simps)

lemma get_proc_run [run_simps]: "get_proc p s = Ok (procs s p) s"
  by (simp add: get_proc_def run_simps)

lemma myproc_run [run_simps]: "cur s = Some p \<Longrightarrow> myproc s = Ok p s"
  by (simp add: myproc_def run_simps)

definition no_plocks :: "'z kproc_scheme \<Rightarrow> bool" where
  "no_plocks s \<longleftrightarrow> (\<forall>p. ProcLock p \<notin> held s)"

lemma no_plocks_simps [simp]:
  "no_plocks (s\<lparr>procs := f\<rparr>) = no_plocks s" "no_plocks s \<Longrightarrow> ProcLock p \<notin> held s"
  by (simp_all add: no_plocks_def)

lemma held_restore [simp]: "ProcLock p \<notin> held s \<Longrightarrow> s\<lparr>held := insert (ProcLock p) (held s) - {ProcLock p}\<rparr> = s"
  by simp

text \<open>A pass over the table whose body changes only the process it looks at.\<close>

lemma for_proc_map:
  assumes "\<And>p s. no_plocks s \<Longrightarrow> cur s = c \<Longrightarrow> f p s = Ok () (s\<lparr>procs := (procs s)(p := g p (procs s p))\<rparr>)"
  shows "k \<le> NPROC \<Longrightarrow> no_plocks s \<Longrightarrow> cur s = c \<Longrightarrow> for_proc k f s =
    Ok () (s\<lparr>procs := (\<lambda>p. if NPROC - k \<le> p \<and> p < NPROC then g p (procs s p) else procs s p)\<rparr>)"
proof (induction k arbitrary: s)
  case 0
  have "(\<lambda>p. if NPROC - 0 \<le> p \<and> p < NPROC then g p (procs s p) else procs s p) = procs s"
    by (auto simp: fun_eq_iff)
  then show ?case by (simp add: run_simps)
next
  case (Suc k)
  let ?p = "NPROC - Suc k"
  let ?s = "s\<lparr>procs := (procs s)(?p := g ?p (procs s ?p))\<rparr>"
  have "for_proc (Suc k) f s = for_proc k f ?s" using assms Suc.prems by (simp add: run_simps)
  also have "\<dots> = Ok () (?s\<lparr>procs := (\<lambda>p. if NPROC - k \<le> p \<and> p < NPROC then g p (procs ?s p) else procs ?s p)\<rparr>)"
    using Suc.prems by (intro Suc.IH) simp_all
  also have "(\<lambda>p. if NPROC - k \<le> p \<and> p < NPROC then g p (procs ?s p) else procs ?s p) =
      (\<lambda>p. if NPROC - Suc k \<le> p \<and> p < NPROC then g p (procs s p) else procs s p)"
    using Suc.prems(1) by (auto simp: fun_eq_iff)
  finally show ?case by simp
qed

lemma proc_upd_same [simp]: "(procs s)(p := procs s p) = procs s" "s\<lparr>procs := procs s\<rparr> = s"
  by simp_all

text \<open>\<open>wakeup\<close> makes exactly the processes that sleep on the channel runnable, other than the
  caller, and changes nothing else.\<close>

lemma wakeup_run:
  assumes "no_plocks s"
  shows "wakeup c s = Ok () (s\<lparr>procs := (\<lambda>p. if p < NPROC \<and> cur s \<noteq> Some p \<and> p_state (procs s p) = SLEEPING \<and>
      p_chan (procs s p) = Some c then (procs s p)\<lparr>p_state := RUNNABLE\<rparr> else procs s p)\<rparr>)"
proof -
  let ?g = "\<lambda>p q. if cur s \<noteq> Some p \<and> p_state q = SLEEPING \<and> p_chan q = Some c then q\<lparr>p_state := RUNNABLE\<rparr> else q"
  have "wakeup c s = Ok () (s\<lparr>procs := (\<lambda>p. if NPROC - NPROC \<le> p \<and> p < NPROC then ?g p (procs s p) else procs s p)\<rparr>)"
    unfolding wakeup_def
    by (rule for_proc_map [where c = "cur s"]) (use assms in \<open>auto simp: run_simps fun_upd_idem\<close>)
  also have "(\<lambda>p. if NPROC - NPROC \<le> p \<and> p < NPROC then ?g p (procs s p) else procs s p) =
    (\<lambda>p. if p < NPROC \<and> cur s \<noteq> Some p \<and> p_state (procs s p) = SLEEPING \<and>
      p_chan (procs s p) = Some c then (procs s p)\<lparr>p_state := RUNNABLE\<rparr> else procs s p)"
    by (auto simp: fun_eq_iff)
  finally show ?thesis .
qed

lemma update_time_run:
  assumes "no_plocks s"
  shows "update_time s = Ok () (s\<lparr>procs := (\<lambda>p. if p < NPROC \<and> p_state (procs s p) = RUNNING
      then (procs s p)\<lparr>p_rtime := p_rtime (procs s p) + 1\<rparr> else procs s p)\<rparr>)"
proof -
  let ?g = "\<lambda>p q. if p_state q = RUNNING then q\<lparr>p_rtime := p_rtime q + 1\<rparr> else q"
  have "update_time s = Ok () (s\<lparr>procs := (\<lambda>p. if NPROC - NPROC \<le> p \<and> p < NPROC then ?g p (procs s p) else procs s p)\<rparr>)"
    unfolding update_time_def
    by (rule for_proc_map [where c = "cur s"]) (use assms in \<open>auto simp: run_simps fun_upd_idem\<close>)
  also have "(\<lambda>p. if NPROC - NPROC \<le> p \<and> p < NPROC then ?g p (procs s p) else procs s p) =
    (\<lambda>p. if p < NPROC \<and> p_state (procs s p) = RUNNING
      then (procs s p)\<lparr>p_rtime := p_rtime (procs s p) + 1\<rparr> else procs s p)"
    by (auto simp: fun_eq_iff)
  finally show ?thesis .
qed

text \<open>C20: the timer's accounting: one tick is added to the run time of every running process.\<close>

theorem update_time_spec:
  assumes "no_plocks s"
  shows "update_time s = Ok () (s\<lparr>procs := (\<lambda>p. if p < NPROC \<and> p_state (procs s p) = RUNNING
      then (procs s p)\<lparr>p_rtime := p_rtime (procs s p) + 1\<rparr> else procs s p)\<rparr>)"
  by (rule update_time_run [OF assms])

subsection \<open>Searches\<close>

text \<open>The first of the last \<open>k\<close> processes with a property.\<close>

primrec first_from :: "nat \<Rightarrow> (nat \<Rightarrow> bool) \<Rightarrow> nat option" where
  "first_from 0 P = None"
| "first_from (Suc k) P = (if P (NPROC - Suc k) then Some (NPROC - Suc k) else first_from k P)"

lemma first_from_Some:
  "k \<le> NPROC \<Longrightarrow> first_from k P = Some p \<longleftrightarrow> p < NPROC \<and> NPROC - k \<le> p \<and> P p \<and> (\<forall>q. NPROC - k \<le> q \<longrightarrow> q < p \<longrightarrow> \<not> P q)"
proof (induction k)
  case (Suc k)
  have e: "NPROC - Suc k \<le> q \<longleftrightarrow> q = NPROC - Suc k \<or> NPROC - k \<le> q" for q using Suc.prems by auto
  have l: "NPROC - Suc k < NPROC - k" "NPROC - Suc k < NPROC" using Suc.prems by simp_all
  show ?case
  proof (cases "P (NPROC - Suc k)")
    case True
    then show ?thesis using l by (auto simp: e)
  next
    case False
    then show ?thesis using Suc l by (auto simp: e)
  qed
qed simp

lemma first_from_None: "k \<le> NPROC \<Longrightarrow> first_from k P = None \<longleftrightarrow> (\<forall>p. NPROC - k \<le> p \<longrightarrow> p < NPROC \<longrightarrow> \<not> P p)"
proof (induction k)
  case (Suc k)
  have e: "NPROC - Suc k \<le> q \<longleftrightarrow> q = NPROC - Suc k \<or> NPROC - k \<le> q" for q using Suc.prems by auto
  show ?case using Suc by (auto simp: e)
qed auto

lemma find_unused_run:
  "no_plocks s \<Longrightarrow> find_unused k s = (case first_from k (\<lambda>p. p_state (procs s p) = UNUSED) of
     None \<Rightarrow> Ok None s | Some p \<Rightarrow> Ok (Some p) (s\<lparr>held := insert (ProcLock p) (held s)\<rparr>))"
  by (induction k) (simp_all add: run_simps Let_def)

lemma kill_scan_run:
  "no_plocks s \<Longrightarrow> kill_scan k pid s = (case first_from k (\<lambda>p. p_pid (procs s p) = pid) of
     None \<Rightarrow> Ok (-1) s
   | Some p \<Rightarrow> Ok 0 (s\<lparr>procs := (procs s)(p := (procs s p)\<lparr>p_killed := 1,
       p_state := (if p_state (procs s p) = SLEEPING then RUNNABLE else p_state (procs s p))\<rparr>)\<rparr>))"
  by (induction k) (simp_all add: run_simps Let_def)






text \<open>C19: \<open>kill\<close> sets the killed flag of the first process with the given identifier and makes it runnable if it sleeps; nothing else changes, locks
  included.  It fails, and changes nothing, only if there is no such process.\<close>

theorem kill_spec:
  assumes "no_plocks s"
  shows "(\<exists>p < NPROC. p_pid (procs s p) = pid \<and> (\<forall>q < p. p_pid (procs s q) \<noteq> pid) \<and>
      kill pid s = Ok 0 (s\<lparr>procs := (procs s)(p := (procs s p)\<lparr>p_killed := 1,
        p_state := (if p_state (procs s p) = SLEEPING then RUNNABLE else p_state (procs s p))\<rparr>)\<rparr>)) \<or>
    (\<forall>p < NPROC. p_pid (procs s p) \<noteq> pid) \<and> kill pid s = Ok (-1) s"
proof (cases "first_from NPROC (\<lambda>p. p_pid (procs s p) = pid)")
  case None
  then have "\<forall>p < NPROC. p_pid (procs s p) \<noteq> pid" using first_from_None [of NPROC] by simp
  with None show ?thesis by (simp add: kill_def kill_scan_run [OF assms])
next
  case (Some p)
  then have p: "p < NPROC" "p_pid (procs s p) = pid" "\<forall>q < p. p_pid (procs s q) \<noteq> pid"
    using first_from_Some [of NPROC _ p] by simp_all
  with Some show ?thesis by (intro disjI1 exI [of _ p]) (simp add: kill_def kill_scan_run [OF assms])
qed

subsection \<open>Sleeping and being woken\<close>

lemma sleep_run:
  assumes "cur s = Some p" "held s = {lk}" "lk \<noteq> ProcLock p"
  shows "sleep c lk s = Sleep c (s\<lparr>held := {ProcLock p},
    procs := (procs s)(p := (procs s p)\<lparr>p_chan := Some c, p_state := SLEEPING\<rparr>)\<rparr>)"
  using assms by (simp add: sleep_def sched_def run_simps insert_Diff_if)

lemma sleep_resume_run:
  assumes "cur s = Some p" "held s = {ProcLock p}"
  shows "sleep_resume lk s = Ok () (s\<lparr>held := {lk}, procs := (procs s)(p := (procs s p)\<lparr>p_chan := None\<rparr>)\<rparr>)"
  using assms by (simp add: sleep_resume_def run_simps)

text \<open>C17: the sleep and wakeup protocol.  A process that sleeps on a channel while it holds only the
  lock \<open>lk\<close> gives up the CPU asleep, with \<open>lk\<close> free and its own lock held by the CPU; a wakeup of the
  channel by another process makes it runnable; and when it runs again it holds \<open>lk\<close>, and only \<open>lk\<close>,
  and sleeps on nothing.\<close>

theorem sleep_wakeup_resume:
  assumes "cur s = Some p" "p < NPROC" "held s = {lk}" "\<forall>q. lk \<noteq> ProcLock q"
  shows "\<exists>t. sleep c lk s = Sleep c t \<and> held t = {ProcLock p} \<and> p_state (procs t p) = SLEEPING \<and>
    (\<forall>q h. q \<noteq> Some p \<longrightarrow> (\<forall>r. ProcLock r \<notin> h) \<longrightarrow>
      (\<exists>u. wakeup c (t\<lparr>cur := q, held := h\<rparr>) = Ok () u \<and> held u = h \<and> p_state (procs u p) = RUNNABLE \<and>
        (\<exists>v. sleep_resume lk (u\<lparr>cur := Some p, held := {ProcLock p}\<rparr>) = Ok () v \<and> held v = {lk} \<and>
          p_chan (procs v p) = None)))"
proof -
  let ?t = "s\<lparr>held := {ProcLock p}, procs := (procs s)(p := (procs s p)\<lparr>p_chan := Some c, p_state := SLEEPING\<rparr>)\<rparr>"
  have "sleep c lk s = Sleep c ?t" using assms by (intro sleep_run) auto
  moreover have "\<exists>u. wakeup c (?t\<lparr>cur := q, held := h\<rparr>) = Ok () u \<and> held u = h \<and> p_state (procs u p) = RUNNABLE \<and>
        (\<exists>v. sleep_resume lk (u\<lparr>cur := Some p, held := {ProcLock p}\<rparr>) = Ok () v \<and> held v = {lk} \<and>
          p_chan (procs v p) = None)" if "q \<noteq> Some p" "\<forall>r. ProcLock r \<notin> h" for q h
  proof -
    have "no_plocks (?t\<lparr>cur := q, held := h\<rparr>)" using that(2) by (simp add: no_plocks_def)
    note w = wakeup_run [OF this, of c]
    show ?thesis
      by (rule exI, rule conjI, rule w) (use that assms(2) in \<open>simp add: sleep_resume_run\<close>)
  qed
  ultimately show ?thesis by (intro exI [of _ ?t]) simp
qed

subsection \<open>A concrete process table\<close>

text \<open>Process 0 can run, process 1 sleeps, process 2 runs; the other slots are unused.\<close>

definition x_proc :: "procstate \<Rightarrow> chan option \<Rightarrow> int \<Rightarrow> proc" where
  "x_proc st c pid = \<lparr>p_state = st, p_chan = c, p_killed = 0, p_xstate = 0, p_pid = pid, p_parent = None,
     p_kstack = 0, p_sz = 0, p_pagetable = 0, p_trapframe = 0, p_ra = 0, p_sp = 0, p_saved = [],
     p_ofile = (\<lambda>_. None), p_cwd = None, p_name = [], p_rtime = 7, p_ctime = 0, p_etime = 0\<rparr>"

definition x_kproc :: "lock set \<Rightarrow> kproc" where
  "x_kproc h = \<lparr>held = h, mem = (\<lambda>_. 0), freelist = 0, pageref = (\<lambda>_. 0), kend = 0x80020000,
     kernel_pagetable = 0, satp = 0, etext = 0x80008000, trampoline = 0x80007000,
     procs = (\<lambda>_. x_proc UNUSED None 0)(0 := x_proc RUNNABLE None 1,
       1 := x_proc SLEEPING (Some ChanTicks) 2, 2 := x_proc RUNNING None 3),
     cur = Some 2, initproc = Some 0, nextpid = 4, ticks = 9, forkret_addr = 0, first = False\<rparr>"

lemmas x_defs = x_proc_def x_kproc_def NPROC_def

lemma x_no_plocks: "no_plocks (x_kproc {})"
  by (simp add: no_plocks_def x_defs)

theorem update_time_spec_witness:
  "no_plocks (x_kproc {}) \<and> (\<exists>t. update_time (x_kproc {}) = Ok () t \<and> p_rtime (procs t 2) = 8 \<and> p_rtime (procs t 0) = 7)"
  using update_time_spec [OF x_no_plocks] x_no_plocks by (simp add: x_defs)




theorem kill_spec_witness:
  "no_plocks (x_kproc {}) \<and> (\<exists>t. kill 2 (x_kproc {}) = Ok 0 t \<and> p_killed (procs t 1) = 1 \<and> p_state (procs t 1) = RUNNABLE \<and> held t = {})"
proof -
  have u: "p_pid (procs (x_kproc {}) p) = 2 \<longleftrightarrow> p = 1" for p by (simp add: x_defs)
  have n: "(1 :: nat) < NPROC" "p_state (procs (x_kproc {}) 1) = SLEEPING" "held (x_kproc {}) = {}" by (simp_all add: x_defs)
  show ?thesis using kill_spec [OF x_no_plocks, of 2] x_no_plocks n unfolding u by auto
qed

theorem sleep_wakeup_resume_witness:
  "cur (x_kproc {TicksLock}) = Some 2 \<and> (\<exists>t. sleep ChanTicks TicksLock (x_kproc {TicksLock}) = Sleep ChanTicks t \<and>
     (\<exists>u. wakeup ChanTicks (t\<lparr>cur := None, held := {}\<rparr>) = Ok () u \<and> p_state (procs u 2) = RUNNABLE))"
proof -
  have c: "cur (x_kproc {TicksLock}) = Some 2" "(2::nat) < NPROC" "held (x_kproc {TicksLock}) = {TicksLock}"
    by (simp_all add: x_defs)
  obtain t where t: "sleep ChanTicks TicksLock (x_kproc {TicksLock}) = Sleep ChanTicks t"
    and w: "\<forall>q h. q \<noteq> Some 2 \<longrightarrow> (\<forall>r. ProcLock r \<notin> h) \<longrightarrow>
      (\<exists>u. wakeup ChanTicks (t\<lparr>cur := q, held := h\<rparr>) = Ok () u \<and> held u = h \<and> p_state (procs u 2) = RUNNABLE \<and>
        (\<exists>v. sleep_resume TicksLock (u\<lparr>cur := Some 2, held := {ProcLock 2}\<rparr>) = Ok () v \<and> held v = {TicksLock} \<and>
          p_chan (procs v 2) = None))"
    using sleep_wakeup_resume [OF c, of ChanTicks] by auto
  show ?thesis using c(1) t w [rule_format, of None "{}"] by auto
qed

end
