(* ===== verification/Ring.thy ===== *)
theory Ring
  imports Prelude
begin

text \<open>
  Ring buffers indexed by free-running counters, as \<^verbatim>\<open>kernel/pipe.c\<close>, \<^verbatim>\<open>kernel/console.c\<close> and \<^verbatim>\<open>kernel/uart.c\<close>
  use them: the slot of counter \<open>c\<close> is \<open>c % N\<close>, and the counters wrap around at the width of their
  type.  Because the size of the buffer divides the number of counter values, a buffer behaves
  like a bounded queue across the wrap-around.
\<close>

definition slot :: "nat \<Rightarrow> 'w::len word \<Rightarrow> nat" where
  "slot N c = unat c mod N"

definition contents :: "nat \<Rightarrow> 'a list \<Rightarrow> 'w::len word \<Rightarrow> 'w word \<Rightarrow> 'a list" where
  "contents N buf r w = map (\<lambda>k. buf ! slot N (r + of_nat k)) [0..<unat (w - r)]"

definition ring_ok :: "nat \<Rightarrow> 'a list \<Rightarrow> 'w::len word \<Rightarrow> 'w word \<Rightarrow> bool" where
  "ring_ok N buf r w \<longleftrightarrow> 0 < N \<and> N dvd 2 ^ LENGTH('w) \<and> N < 2 ^ LENGTH('w) \<and> length buf = N \<and> unat (w - r) \<le> N"

lemma length_contents [simp]: "length (contents N buf r w) = unat (w - r)"
  by (simp add: contents_def)

lemma contents_empty [simp]: "contents N buf r r = []"
  by (simp add: contents_def)

lemma slot_add:
  fixes c :: "'w::len word"
  assumes "N dvd 2 ^ LENGTH('w)"
  shows "slot N (c + of_nat k) = (slot N c + k) mod N"
proof -
  have "unat (c + of_nat k) = (unat c + k) mod 2 ^ LENGTH('w)"
    by (simp add: unat_word_ariths unat_of_nat mod_add_right_eq)
  then have "slot N (c + of_nat k) = (unat c + k) mod N" using assms by (simp add: slot_def mod_mod_cancel)
  then show ?thesis by (simp add: slot_def mod_add_left_eq)
qed

lemma slot_less [simp]: "ring_ok N buf r w \<Longrightarrow> slot N c < length buf"
  by (simp add: ring_ok_def slot_def)

lemma counter_diff: "w = r + of_nat (unat (w - r))"
  by simp

lemma not_full:
  fixes r w :: "'w::len word"
  assumes "ring_ok N buf r w" "w \<noteq> r + of_nat N"
  shows "unat (w - r) < N"
proof (rule ccontr)
  assume "\<not> ?thesis"
  then have "unat (w - r) = N" using assms(1) by (simp add: ring_ok_def)
  then show False using assms(2) counter_diff [of w r] by simp
qed

lemma unat_step:
  fixes r w :: "'w::len word"
  assumes "unat (w - r) < 2 ^ LENGTH('w) - 1"
  shows "unat (w + 1 - r) = unat (w - r) + 1"
proof -
  have e: "w + 1 - r = (w - r) + 1" by simp
  have "unat (w - r) + 1 < 2 ^ LENGTH('w)" using assms by simp
  then show ?thesis unfolding e unat_word_ariths by (simp add: mod_less)
qed

lemma contents_push:
  fixes r w :: "'w::len word"
  assumes ok: "ring_ok N buf r w" and "w \<noteq> r + of_nat N"
  shows "contents N (buf[slot N w := x]) r (w + 1) = contents N buf r w @ [x]" "ring_ok N (buf[slot N w := x]) r (w + 1)"
proof -
  have N: "0 < N" "N dvd 2 ^ LENGTH('w)" "N < 2 ^ LENGTH('w)" "length buf = N" using ok by (auto simp: ring_ok_def)
  have lt: "unat (w - r) < N" by (rule not_full [OF assms])
  then have st: "unat (w + 1 - r) = unat (w - r) + 1" using N(3) by (intro unat_step) simp
  have w: "slot N w = (slot N r + unat (w - r)) mod N" using slot_add [OF N(2), of r "unat (w - r)"] by simp
  have "buf[slot N w := x] ! slot N (r + of_nat k) = buf ! slot N (r + of_nat k)" if "k < unat (w - r)" for k
  proof -
    have "(slot N r + k) mod N \<noteq> (slot N r + unat (w - r)) mod N"
    proof
      assume "(slot N r + k) mod N = (slot N r + unat (w - r)) mod N"
      then have "N dvd unat (w - r) - k" using that by (metis mod_eq_dvd_iff_nat add_left_cancel diff_add_inverse diff_cancel add_le_cancel_left less_imp_le)
      then show False using that lt by (auto dest: dvd_imp_le)
    qed
    then show ?thesis using w slot_add [OF N(2), of r k] by simp
  qed
  then show "contents N (buf[slot N w := x]) r (w + 1) = contents N buf r w @ [x]"
    using ok by (simp add: contents_def st)
  show "ring_ok N (buf[slot N w := x]) r (w + 1)" using ok lt st by (simp add: ring_ok_def)
qed

lemma contents_pop:
  fixes r w :: "'w::len word"
  assumes ok: "ring_ok N buf r w" and "r \<noteq> w"
  shows "contents N buf r w = buf ! slot N r # contents N buf (r + 1) w" "ring_ok N buf (r + 1) w"
proof -
  have pos: "0 < unat (w - r)" using assms(2) by (simp add: unat_gt_0)
  have e: "w - (r + 1) = (w - r) - 1" by simp
  have "unat (w - (r + 1)) = unat (w - r) - 1" unfolding e using unat_minus_one [of "w - r"] assms(2) by simp
  then obtain n where n: "unat (w - r) = Suc n" "unat (w - (r + 1)) = n" using pos by (cases "unat (w - r)") auto
  show "contents N buf r w = buf ! slot N r # contents N buf (r + 1) w"
    unfolding contents_def n by (rule nth_equalityI) (auto simp: nth_Cons' algebra_simps of_nat_diff simp del: upt_Suc)
  show "ring_ok N buf (r + 1) w" using ok n by (simp add: ring_ok_def)
qed

text \<open>Taking back the last element.\<close>

lemma contents_unpush:
  fixes r w :: "'w::len word"
  assumes ok: "ring_ok N buf r w" and "r \<noteq> w"
  shows "contents N buf r w = contents N buf r (w - 1) @ [buf ! slot N (w - 1)]" "ring_ok N buf r (w - 1)"
proof -
  have e: "w - 1 - r = (w - r) - 1" by simp
  have u: "unat (w - 1 - r) = unat (w - r) - 1" unfolding e using unat_minus_one [of "w - r"] assms(2) by simp
  have "0 < unat (w - r)" using assms(2) by (simp add: unat_gt_0)
  then have n: "unat (w - r) = Suc (unat (w - 1 - r))" using u by simp
  have "r + of_nat (unat (w - 1 - r)) = w - 1" by simp
  then show "contents N buf r w = contents N buf r (w - 1) @ [buf ! slot N (w - 1)]" unfolding contents_def n by simp
  show "ring_ok N buf r (w - 1)" using ok n by (simp add: ring_ok_def)
qed

end
