(* ===== verification/Pipe.thy ===== *)
theory Pipe
  imports Proc UserCopy Ring
begin

text \<open>
  \<^verbatim>\<open>kernel/pipe.c\<close>.  A pipe is identified by the address of its page.  The loops of \<open>pipewrite\<close> and \<open>piperead\<close>
  run up to the next sleep; \<open>pipewrite_resume\<close> and \<open>piperead_resume\<close> are what happens when the process
  runs again.  The abstract value of a pipe is the queue of bytes that are written and not yet read.
\<close>

record pipe =
  data :: "uchar list"
  nread :: uint
  nwrite :: uint
  readopen :: int
  writeopen :: int

record kpipe = kproc +
  pipes :: "addr \<Rightarrow> pipe"

definition PIPESIZE :: nat where "PIPESIZE = 512"

definition upd_pipe :: "addr \<Rightarrow> (pipe \<Rightarrow> pipe) \<Rightarrow> ('z kpipe_scheme, unit) km" where
  "upd_pipe pi f = modify (\<lambda>s. s\<lparr>pipes := (pipes s)(pi := f (pipes s pi))\<rparr>)"

definition get_pipe :: "addr \<Rightarrow> ('z kpipe_scheme, pipe) km" where
  "get_pipe pi = gets (\<lambda>s. pipes s pi)"

definition pipeclose :: "addr \<Rightarrow> bool \<Rightarrow> ('z kpipe_scheme, unit) km" where
  "pipeclose pi writable =
     thn (acquire (PipeLock pi))
    (thn (if writable
          then thn (upd_pipe pi (\<lambda>p. p\<lparr>writeopen := 0\<rparr>)) (wakeup (ChanPipeRead pi))
          else thn (upd_pipe pi (\<lambda>p. p\<lparr>readopen := 0\<rparr>)) (wakeup (ChanPipeWrite pi)))
    (bind (get_pipe pi) (\<lambda>p.
     if readopen p = 0 \<and> writeopen p = 0 then thn (release (PipeLock pi)) (kfree pi)
     else release (PipeLock pi))))"

definition pipewrite_end :: "addr \<Rightarrow> int \<Rightarrow> ('z kpipe_scheme, int) km" where
  "pipewrite_end pi i = thn (wakeup (ChanPipeRead pi)) (thn (release (PipeLock pi)) (ret i))"

function pipewrite_loop :: "addr \<Rightarrow> nat \<Rightarrow> addr \<Rightarrow> int \<Rightarrow> int \<Rightarrow> ('z kpipe_scheme, int) km" where
  "pipewrite_loop pi pr addr n i =
     (if \<not> i < n then pipewrite_end pi i
      else bind (get_pipe pi) (\<lambda>p.
        bind (if readopen p = 0 then ret 1 else killed pr) (\<lambda>k.
        if k \<noteq> 0 then thn (release (PipeLock pi)) (ret (-1))
        else if nwrite p = nread p + of_nat PIPESIZE then
          thn (wakeup (ChanPipeRead pi)) (thn (sleep (ChanPipeWrite pi) (PipeLock pi)) (ret (-1)))
        else bind (get_proc pr) (\<lambda>q.
          bind (copyin_bytes (p_pagetable q) (addr + of_int i) 1) (\<lambda>ch.
          case ch of
            None \<Rightarrow> pipewrite_end pi i
          | Some bs \<Rightarrow> thn (upd_pipe pi (\<lambda>p. p\<lparr>data := (data p)[slot PIPESIZE (nwrite p) := hd bs], nwrite := nwrite p + 1\<rparr>))
              (pipewrite_loop pi pr addr n (i + 1)))))))"
  by pat_completeness auto
termination by (relation "measure (\<lambda>(pi, pr, a, n, i). nat (n - i))") auto

declare pipewrite_loop.simps [simp del]

definition pipewrite :: "addr \<Rightarrow> addr \<Rightarrow> int \<Rightarrow> ('z kpipe_scheme, int) km" where
  "pipewrite pi addr n =
     bind myproc (\<lambda>pr. thn (acquire (PipeLock pi)) (pipewrite_loop pi pr addr n 0))"

definition pipewrite_resume :: "addr \<Rightarrow> addr \<Rightarrow> int \<Rightarrow> int \<Rightarrow> ('z kpipe_scheme, int) km" where
  "pipewrite_resume pi addr n i =
     bind myproc (\<lambda>pr. thn (sleep_resume (PipeLock pi)) (pipewrite_loop pi pr addr n i))"

function piperead_copy :: "addr \<Rightarrow> nat \<Rightarrow> addr \<Rightarrow> int \<Rightarrow> int \<Rightarrow> ('z kpipe_scheme, int) km" where
  "piperead_copy pi pr addr n i =
     (if \<not> i < n then ret i
      else bind (get_pipe pi) (\<lambda>p.
        if nread p = nwrite p then ret i
        else thn (upd_pipe pi (\<lambda>p. p\<lparr>nread := nread p + 1\<rparr>))
         (bind (get_proc pr) (\<lambda>q.
          bind (copyout_bytes (p_pagetable q) (addr + of_int i) [data p ! slot PIPESIZE (nread p)]) (\<lambda>r.
          if r = -1 then ret i else piperead_copy pi pr addr n (i + 1))))))"
  by pat_completeness auto
termination by (relation "measure (\<lambda>(pi, pr, a, n, i). nat (n - i))") auto

declare piperead_copy.simps [simp del]

definition piperead_wait :: "addr \<Rightarrow> nat \<Rightarrow> addr \<Rightarrow> int \<Rightarrow> ('z kpipe_scheme, int) km" where
  "piperead_wait pi pr addr n =
     bind (get_pipe pi) (\<lambda>p.
     if nread p = nwrite p \<and> writeopen p \<noteq> 0 then
       bind (killed pr) (\<lambda>k.
       if k \<noteq> 0 then thn (release (PipeLock pi)) (ret (-1))
       else thn (sleep (ChanPipeRead pi) (PipeLock pi)) (ret (-1)))
     else bind (piperead_copy pi pr addr n 0) (\<lambda>i.
       thn (wakeup (ChanPipeWrite pi)) (thn (release (PipeLock pi)) (ret i))))"

definition piperead :: "addr \<Rightarrow> addr \<Rightarrow> int \<Rightarrow> ('z kpipe_scheme, int) km" where
  "piperead pi addr n =
     bind myproc (\<lambda>pr. thn (acquire (PipeLock pi)) (piperead_wait pi pr addr n))"

definition piperead_resume :: "addr \<Rightarrow> addr \<Rightarrow> int \<Rightarrow> ('z kpipe_scheme, int) km" where
  "piperead_resume pi addr n =
     bind myproc (\<lambda>pr. thn (sleep_resume (PipeLock pi)) (piperead_wait pi pr addr n))"

subsection \<open>The queue of a pipe\<close>

definition pipe_ok :: "pipe \<Rightarrow> bool" where
  "pipe_ok p \<longleftrightarrow> ring_ok PIPESIZE (data p) (nread p) (nwrite p)"

definition queue :: "pipe \<Rightarrow> uchar list" where
  "queue p = contents PIPESIZE (data p) (nread p) (nwrite p)"

lemma pipe_init: "length d = PIPESIZE \<Longrightarrow> pipe_ok \<lparr>data = d, nread = 0, nwrite = 0, readopen = a, writeopen = b\<rparr> \<and>
    queue \<lparr>data = d, nread = 0, nwrite = 0, readopen = a, writeopen = b\<rparr> = []"
  by (simp add: pipe_ok_def queue_def ring_ok_def PIPESIZE_def)

lemma pipe_put:
  fixes c
  assumes "pipe_ok p" "nwrite p \<noteq> nread p + of_nat PIPESIZE"
  defines "p' \<equiv> p\<lparr>data := (data p)[slot PIPESIZE (nwrite p) := c], nwrite := nwrite p + 1\<rparr>"
  shows "pipe_ok p'" "queue p' = queue p @ [c]"
  using contents_push [OF assms(1) [unfolded pipe_ok_def] assms(2), of c] by (simp_all add: pipe_ok_def queue_def p'_def)

lemma pipe_take:
  assumes "pipe_ok p" "nread p \<noteq> nwrite p"
  defines "p' \<equiv> p\<lparr>nread := nread p + 1\<rparr>"
  shows "pipe_ok p'" "queue p = data p ! slot PIPESIZE (nread p) # queue p'"
  using contents_pop [OF assms(1) [unfolded pipe_ok_def] assms(2)] by (simp_all add: pipe_ok_def queue_def p'_def)

lemma upd_pipe_run [run_simps]: "upd_pipe pi f s = Ok () (s\<lparr>pipes := (pipes s)(pi := f (pipes s pi))\<rparr>)"
  by (simp add: upd_pipe_def run_simps)

lemma get_pipe_run [run_simps]: "get_pipe pi s = Ok (pipes s pi) s"
  by (simp add: get_pipe_def run_simps)

subsection \<open>One byte of user memory\<close>

lemma base_off: "va - PGROUNDDOWN va = take_bit 12 va"
proof -
  have "of_nat (unat va) = (of_nat (unat (PGROUNDDOWN va) + unat (take_bit 12 va)) :: addr)"
    using unat_base_offset [of va] by simp
  then have "va = PGROUNDDOWN va + take_bit 12 va" unfolding of_nat_add by simp
  then show ?thesis by (metis add_diff_cancel_left')
qed

lemma base_MAXVA: "PGROUNDDOWN va < MAXVA \<longleftrightarrow> va < MAXVA"
proof
  assume a: "PGROUNDDOWN va < MAXVA"
  have "unat (PGROUNDDOWN va) + 4096 \<le> unat MAXVA"
    using a unat_PGROUNDDOWN [of va] by (simp add: word_less_nat_alt MAXVA_unat)
  moreover have "unat (take_bit 12 va) < 4096" by (rule take_bit_12_lt)
  ultimately show "va < MAXVA" using unat_base_offset [of va] by (simp add: word_less_nat_alt)
qed (rule base_lt_MAXVA)

lemma copyin_byte:
  assumes "vm_inv s \<Gamma> xs pts" "pt \<in> pts"
  shows "copyin_bytes pt va 1 s = Ok (map_option (\<lambda>b. [b]) (uview s pt va)) s"
proof -
  let ?v = "PGROUNDDOWN va" and ?e = "pte_at (mem s) pt va"
  have w: "walkaddr pt ?v s = Ok (if va < MAXVA \<and> pV ?e \<and> pU ?e then PTE2PA ?e else 0) s"
    using walkaddr_run [OF assms, of ?v] by (simp add: Let_def pte_at_page base_MAXVA)
  have n: "min (unat (PGSIZE - (va - ?v))) 1 = 1" using word_pos_unat [OF chunk_pos, of va] by simp
  show ?thesis
  proof (cases "va < MAXVA \<and> pV ?e \<and> pU ?e")
    case True
    then have nz: "PTE2PA ?e \<noteq> 0" using user_target(2) [OF assms] by blast
    have "copyin_bytes pt va 1 s = Ok (Some [mem s (PTE2PA ?e + (va - ?v))]) s"
      unfolding copyin_bytes.simps [of pt va 1] Let_def n using True nz w
      by (simp add: run_simps copyin_bytes.simps [of pt _ 0] mload_def)
    then show ?thesis using True by (simp add: uview_def Let_def base_off)
  next
    case False
    then have "copyin_bytes pt va 1 s = Ok None s"
      unfolding copyin_bytes.simps [of pt va 1] Let_def using w by (auto simp: run_simps)
    then show ?thesis using False by (auto simp: uview_def Let_def)
  qed
qed

subsection \<open>Writing\<close>

lemma killed_run [run_simps]: "ProcLock p \<notin> held s \<Longrightarrow> killed p s = Ok (p_killed (procs s p)) s"
  by (simp add: killed_def run_simps)

lemma plock_free: "held s = {PipeLock pi} \<Longrightarrow> no_plocks s" "held s = {PipeLock pi} \<Longrightarrow> ProcLock p \<notin> held s"
  by (simp_all add: no_plocks_def)

text \<open>What a run of the writing loop from \<open>i\<close> has done when it stops at \<open>k\<close>.\<close>

definition wrote_to :: "'z kpipe_scheme \<Rightarrow> addr \<Rightarrow> addr \<Rightarrow> addr \<Rightarrow> int \<Rightarrow> int \<Rightarrow> 'z kpipe_scheme \<Rightarrow> bool" where
  "wrote_to s pi pt addr i k t \<longleftrightarrow> pipe_ok (pipes t pi) \<and> mem t = mem s \<and>
     (\<forall>q. q \<noteq> pi \<longrightarrow> pipes t q = pipes s q) \<and> (\<forall>j. i \<le> j \<longrightarrow> j < k \<longrightarrow> uview s pt (addr + of_int j) \<noteq> None) \<and>
     queue (pipes t pi) = queue (pipes s pi) @ map (\<lambda>j. the (uview s pt (addr + of_int j))) [i..k - 1]"

lemma uview_mem: "mem t = mem s \<Longrightarrow> uview t pt va = uview s pt va"
  by (simp add: uview_def Let_def)

lemma vm_inv_other:
  assumes "vm_inv s \<Gamma> xs pts" "mem t = mem s" "freelist t = freelist s" "pageref t = pageref s" "kend t = kend s" "kunlocked t"
  shows "vm_inv t \<Gamma> xs pts"
  using assms by (simp add: vm_inv_def pt_inv_def free_inv_def node_ok_def bad_pa_def)

lemma wrote_to_step:
  assumes "pipe_ok (pipes s pi)" "nwrite (pipes s pi) \<noteq> nread (pipes s pi) + of_nat PIPESIZE" "uview s pt (addr + of_int i) = Some c"
    "wrote_to (s\<lparr>pipes := (pipes s)(pi := (pipes s pi)\<lparr>data := (data (pipes s pi))[slot PIPESIZE (nwrite (pipes s pi)) := c],
       nwrite := nwrite (pipes s pi) + 1\<rparr>)\<rparr>) pi pt addr (i + 1) k t" "i + 1 \<le> k"
  shows "wrote_to s pi pt addr i k t"
proof -
  have "[i..k - 1] = i # [i + 1..k - 1]" using assms(5) by (simp add: upto_rec1)
  moreover have "j = i \<or> i + 1 \<le> j" if "i \<le> j" for j :: int using that by linarith
  ultimately show ?thesis using assms(3,4) pipe_put(2) [OF assms(1,2), of c]
    unfolding wrote_to_def by (auto simp: uview_mem [of "_\<lparr>pipes := _\<rparr>" s])
qed

lemma pipewrite_loop_run:
  assumes "vm_inv s \<Gamma> xs pts" "p_pagetable (procs s pr) \<in> pts" "pipe_ok (pipes s pi)" "cur s = Some pr" "held s = {PipeLock pi}"
  shows "\<exists>k t. i \<le> k \<and> k \<le> max i n \<and> wrote_to s pi (p_pagetable (procs s pr)) addr i k t \<and>
    (pipewrite_loop pi pr addr n i s = Ok k t \<and> held t = {} \<and>
       (k < n \<longrightarrow> uview s (p_pagetable (procs s pr)) (addr + of_int k) = None) \<or>
     pipewrite_loop pi pr addr n i s = Ok (-1) t \<and> held t = {} \<and> (readopen (pipes t pi) = 0 \<or> p_killed (procs s pr) \<noteq> 0) \<or>
     pipewrite_loop pi pr addr n i s = Sleep (ChanPipeWrite pi) t \<and> held t = {ProcLock pr} \<and> k < n \<and>
       length (queue (pipes t pi)) = PIPESIZE)"
  using assms
proof (induction "nat (n - i)" arbitrary: i s rule: less_induct)
  case 1: less
  let ?p = "pipes s pi" and ?pt = "p_pagetable (procs s pr)"
  note free = plock_free [OF 1(6)]
  note unf = pipewrite_loop.simps [of pi pr addr n i] run_simps pipewrite_end_def wakeup_run [OF free(1)] Let_def
  have refl: "wrote_to s pi ?pt addr i i t" if "mem t = mem s" "pipes t = pipes s" for t
    using that 1(4) by (simp add: wrote_to_def)
  note one = copyin_byte [OF 1(2,3), of "addr + of_int i"]
  consider (stop) "\<not> i < n" | (shut) "i < n" "readopen ?p = 0 \<or> p_killed (procs s pr) \<noteq> 0"
    | (full) "i < n" "readopen ?p \<noteq> 0" "p_killed (procs s pr) = 0" "nwrite ?p = nread ?p + of_nat PIPESIZE"
    | (bad) "i < n" "readopen ?p \<noteq> 0" "p_killed (procs s pr) = 0" "nwrite ?p \<noteq> nread ?p + of_nat PIPESIZE" "uview s ?pt (addr + of_int i) = None"
    | (go) c where "i < n" "readopen ?p \<noteq> 0" "p_killed (procs s pr) = 0" "nwrite ?p \<noteq> nread ?p + of_nat PIPESIZE" "uview s ?pt (addr + of_int i) = Some c"
    by fastforce
  then show ?case
  proof cases
    case stop
    then obtain t where "pipewrite_loop pi pr addr n i s = Ok i t" "held t = {}" "mem t = mem s" "pipes t = pipes s"
      using 1(6) by (simp add: unf)
    then show ?thesis using stop refl by (intro exI [of _ i] exI [of _ t]) auto
  next
    case shut
    then obtain t where "pipewrite_loop pi pr addr n i s = Ok (-1) t" "held t = {}" "mem t = mem s" "pipes t = pipes s"
      using 1(6) free(2) by (cases "readopen ?p = 0") (simp_all add: unf)
    then show ?thesis using shut refl by (intro exI [of _ i] exI [of _ t]) auto
  next
    case full
    let ?w = "s\<lparr>procs := (\<lambda>p. if p < NPROC \<and> cur s \<noteq> Some p \<and> p_state (procs s p) = SLEEPING \<and>
      p_chan (procs s p) = Some (ChanPipeRead pi) then (procs s p)\<lparr>p_state := RUNNABLE\<rparr> else procs s p)\<rparr>"
    obtain t where t: "sleep (ChanPipeWrite pi) (PipeLock pi) ?w = Sleep (ChanPipeWrite pi) t" "held t = {ProcLock pr}" "mem t = mem s" "pipes t = pipes s"
      using sleep_run [of ?w pr "PipeLock pi"] 1(5,6) by simp
    have "pipewrite_loop pi pr addr n i s = Sleep (ChanPipeWrite pi) t"
      using full free(2) t(1) by (simp add: unf)
    moreover have "length (queue ?p) = PIPESIZE" unfolding queue_def using full(4) by (simp add: PIPESIZE_def)
    ultimately show ?thesis using full t refl by (intro exI [of _ i] exI [of _ t]) auto
  next
    case bad
    then obtain t where "pipewrite_loop pi pr addr n i s = Ok i t" "held t = {}" "mem t = mem s" "pipes t = pipes s"
      using 1(6) free(2) one by (simp add: unf)
    then show ?thesis using bad refl by (intro exI [of _ i] exI [of _ t]) auto
  next
    case (go c)
    let ?s = "s\<lparr>pipes := (pipes s)(pi := ?p\<lparr>data := (data ?p)[slot PIPESIZE (nwrite ?p) := c], nwrite := nwrite ?p + 1\<rparr>)\<rparr>"
    have run: "pipewrite_loop pi pr addr n i s = pipewrite_loop pi pr addr n (i + 1) ?s"
      using go free(2) one by (simp add: unf)
    have vm: "vm_inv ?s \<Gamma> xs pts" using 1(6) by (intro vm_inv_other [OF 1(2)]) (simp_all add: kunlocked_def)
    have ok: "pipe_ok (pipes ?s pi)" using pipe_put(1) [OF 1(4) go(4), of c] by simp
    have uv: "uview ?s a b = uview s a b" for a b by (rule uview_mem) simp
    have m: "nat (n - (i + 1)) < nat (n - i)" using go(1) by simp
    have pt': "p_pagetable (procs ?s pr) \<in> pts" "cur ?s = Some pr" "held ?s = {PipeLock pi}" using 1(3,5,6) by simp_all
    from 1(1) [OF m vm pt'(1) ok pt'(2,3)] obtain k t where kt: "i + 1 \<le> k" "k \<le> max (i + 1) n" "wrote_to ?s pi ?pt addr (i + 1) k t"
      and r: "pipewrite_loop pi pr addr n (i + 1) ?s = Ok k t \<and> held t = {} \<and> (k < n \<longrightarrow> uview s ?pt (addr + of_int k) = None) \<or>
       pipewrite_loop pi pr addr n (i + 1) ?s = Ok (-1) t \<and> held t = {} \<and> (readopen (pipes t pi) = 0 \<or> p_killed (procs s pr) \<noteq> 0) \<or>
       pipewrite_loop pi pr addr n (i + 1) ?s = Sleep (ChanPipeWrite pi) t \<and> held t = {ProcLock pr} \<and> k < n \<and>
         length (queue (pipes t pi)) = PIPESIZE" unfolding uv by auto
    have "wrote_to s pi ?pt addr i k t" by (rule wrote_to_step [OF 1(4) go(4,5) kt(3,1)])
    moreover have "i \<le> k" "k \<le> max i n" using kt(1,2) go(1) by auto
    ultimately show ?thesis using r unfolding run by blast
  qed
qed

end
