(* ===== verification/Print.thy ===== *)
theory Print
  imports Prelude
begin

text \<open>
  Formatted output: \<^verbatim>\<open>kernel/printf.c\<close> and \<^verbatim>\<open>user/printf.c\<close>.  Both send one character at a time to the console
  or to a file; the model is the text that is sent.  A format that asks for an argument of a kind that
  is not there has undefined behaviour, and the result is \<open>None\<close>.
\<close>

definition bytes :: "string \<Rightarrow> uchar list" where
  "bytes cs = map of_char cs"

definition kernel_digits :: "uchar list" where
  "kernel_digits = bytes ''0123456789abcdef''"

definition user_digits :: "uchar list" where
  "user_digits = bytes ''0123456789ABCDEF''"

subsection \<open>Numbers\<close>

text \<open>The \<open>do\<close> loop: the digits, least significant first.  The code uses bases 10 and 16 only; the test
  of the base makes the recursion well founded.\<close>

function digit_loop :: "uchar list \<Rightarrow> uint \<Rightarrow> uint \<Rightarrow> uchar list" where
  "digit_loop digits base x =
     digits ! unat (x mod base) # (if x div base = 0 \<or> base < 2 then [] else digit_loop digits base (x div base))"
  by pat_completeness auto
termination
proof (relation "measure (\<lambda>(d, b, x). unat x)", goal_cases)
  case (2 digits base x)
  then have b: "2 \<le> unat base" by (simp add: word_less_nat_alt not_less)
  have "unat x \<noteq> 0" using 2 by (auto simp: unat_eq_zero)
  then have "unat x div unat base < unat x" using b by (intro div_less_dividend) auto
  then show ?case by (simp add: unat_div_distrib)
qed auto

declare digit_loop.simps [simp del]

definition printint :: "uchar list \<Rightarrow> uint \<Rightarrow> uint \<Rightarrow> bool \<Rightarrow> uchar list" where
  "printint digits xx base sign =
     (let neg = sign \<and> sint xx < 0; x = if neg then - xx else xx
      in rev (digit_loop digits base x @ (if neg then bytes ''-'' else [])))"

definition printptr :: "uchar list \<Rightarrow> uint64 \<Rightarrow> uchar list" where
  "printptr digits x = bytes ''0x'' @ map (\<lambda>i. digits ! unat (drop_bit 60 (push_bit (4 * i) x))) [0..<16]"

subsection \<open>The kernel's printf\<close>

datatype arg = AInt uint | AU64 uint64 | AStr "uchar list option" | AChar uint

definition str_arg :: "uchar list option \<Rightarrow> uchar list" where
  "str_arg s = (case s of None \<Rightarrow> bytes ''(null)'' | Some cs \<Rightarrow> cs)"

fun kprintf :: "uchar list \<Rightarrow> arg list \<Rightarrow> uchar list option" where
  "kprintf [] ap = Some []"
| "kprintf [c] ap = (if c \<noteq> 37 then Some [c] else Some [])"
| "kprintf (c # d # fmt) ap =
     (if c \<noteq> 37 then map_option (Cons c) (kprintf (d # fmt) ap)
      else if d = 100 then (case ap of AInt x # ap' \<Rightarrow> map_option ((@) (printint kernel_digits x 10 True)) (kprintf fmt ap') | _ \<Rightarrow> None)
      else if d = 120 then (case ap of AInt x # ap' \<Rightarrow> map_option ((@) (printint kernel_digits x 16 True)) (kprintf fmt ap') | _ \<Rightarrow> None)
      else if d = 112 then (case ap of AU64 x # ap' \<Rightarrow> map_option ((@) (printptr kernel_digits x)) (kprintf fmt ap') | _ \<Rightarrow> None)
      else if d = 115 then (case ap of AStr s # ap' \<Rightarrow> map_option ((@) (str_arg s)) (kprintf fmt ap') | _ \<Rightarrow> None)
      else if d = 37 then map_option (Cons 37) (kprintf fmt ap)
      else map_option (\<lambda>out. 37 # d # out) (kprintf fmt ap))"

subsection \<open>The user library's printf\<close>

text \<open>\<open>pending\<close> is the code's \<open>state\<close>: whether the last character was an unused percent sign.\<close>

fun vprintf :: "bool \<Rightarrow> uchar list \<Rightarrow> arg list \<Rightarrow> uchar list option" where
  "vprintf pending [] ap = Some []"
| "vprintf False (c # fmt) ap =
     (if c = 37 then vprintf True fmt ap else map_option (Cons c) (vprintf False fmt ap))"
| "vprintf True (c # fmt) ap =
     (if c = 100 then (case ap of AInt x # ap' \<Rightarrow> map_option ((@) (printint user_digits x 10 True)) (vprintf False fmt ap') | _ \<Rightarrow> None)
      else if c = 108 then (case ap of AU64 x # ap' \<Rightarrow> map_option ((@) (printint user_digits (ucast x) 10 False)) (vprintf False fmt ap') | _ \<Rightarrow> None)
      else if c = 120 then (case ap of AInt x # ap' \<Rightarrow> map_option ((@) (printint user_digits x 16 False)) (vprintf False fmt ap') | _ \<Rightarrow> None)
      else if c = 112 then (case ap of AU64 x # ap' \<Rightarrow> map_option ((@) (printptr user_digits x)) (vprintf False fmt ap') | _ \<Rightarrow> None)
      else if c = 115 then (case ap of AStr s # ap' \<Rightarrow> map_option ((@) (str_arg s)) (vprintf False fmt ap') | _ \<Rightarrow> None)
      else if c = 99 then (case ap of AChar x # ap' \<Rightarrow> map_option (Cons (ucast x)) (vprintf False fmt ap') | _ \<Rightarrow> None)
      else if c = 37 then map_option (Cons c) (vprintf False fmt ap)
      else map_option (\<lambda>out. 37 # c # out) (vprintf False fmt ap))"

definition printf :: "uchar list \<Rightarrow> arg list \<Rightarrow> uchar list option" where
  "printf fmt ap = vprintf False fmt ap"

subsection \<open>Reading a number back\<close>

text \<open>\<open>atoi\<close> of \<^verbatim>\<open>user/ulib.c\<close>; \<open>int\<close> arithmetic wraps.\<close>

primrec atoi_loop :: "uint \<Rightarrow> uchar list \<Rightarrow> uint" where
  "atoi_loop n [] = n"
| "atoi_loop n (c # cs) = (if 48 \<le> c \<and> c \<le> 57 then atoi_loop (n * 10 + ucast c - 48) cs else n)"

definition atoi :: "uchar list \<Rightarrow> uint" where
  "atoi s = atoi_loop 0 s"

subsection \<open>Digits\<close>

lemma decimal_digit:
  assumes "d < 10"
  shows "kernel_digits ! d = 48 + of_nat d" "user_digits ! d = 48 + of_nat d"
proof -
  have "d \<in> {0, 1, 2, 3, 4, 5, 6, 7, 8, 9}" using assms by auto
  then show "kernel_digits ! d = 48 + of_nat d" "user_digits ! d = 48 + of_nat d"
    by (auto simp: kernel_digits_def user_digits_def bytes_def)
qed

lemma unat_10 [simp]: "unat (10 :: uint) = 10" "unat (16 :: uint) = 16"
  by simp_all

lemma digit_loop_length:
  assumes "2 \<le> unat base" "unat x < unat base ^ Suc k"
  shows "length (digit_loop digits base x) \<le> Suc k"
  using assms
proof (induction k arbitrary: x)
  case 0
  then have "x div base = 0" by (simp add: word_unat_eq_iff unat_div_distrib)
  then show ?case by (subst digit_loop.simps) simp
next
  case (Suc k)
  have "unat (x div base) < unat base ^ Suc k"
    using Suc.prems by (simp add: unat_div_distrib less_mult_imp_div_less mult.commute)
  from Suc.IH [OF Suc.prems(1) this] show ?case by (subst digit_loop.simps) simp
qed

lemma atoi_loop_append:
  "(\<forall>c \<in> set cs. 48 \<le> c \<and> c \<le> 57) \<Longrightarrow> atoi_loop n (cs @ ds) = atoi_loop (atoi_loop n cs) ds"
  by (induction cs arbitrary: n) auto

lemma digit_code: "d < 10 \<Longrightarrow> 48 \<le> (48 + of_nat d :: uchar) \<and> (48 + of_nat d :: uchar) \<le> 57 \<and> ucast (48 + of_nat d :: uchar) - 48 = (of_nat d :: uint)"
proof -
  assume "d < 10"
  then have "d \<in> {0, 1, 2, 3, 4, 5, 6, 7, 8, 9}" by auto
  then show ?thesis by auto
qed

lemma digit_loop_decimal:
  assumes "\<And>d. d < 10 \<Longrightarrow> digits ! d = 48 + of_nat d"
  shows "(\<forall>c \<in> set (digit_loop digits 10 x). 48 \<le> c \<and> c \<le> 57) \<and> atoi_loop 0 (rev (digit_loop digits 10 x)) = x"
proof (induction "unat x" arbitrary: x rule: less_induct)
  case less
  have m: "unat (x mod 10) < 10" by (simp add: unat_mod_distrib)
  note d = assms [OF m] digit_code [OF m]
  have step: "atoi_loop n [digits ! unat (x mod 10)] = n * 10 + x mod 10" for n
    using d by (simp add: algebra_simps)
  have dm: "x div 10 * 10 + x mod 10 = x" by (rule div_mult_mod_eq)
  show ?case
  proof (cases "x div 10 = 0")
    case True
    have "digit_loop digits 10 x = [digits ! unat (x mod 10)]" using True by (subst digit_loop.simps) simp
    then show ?thesis using d step [of 0] dm True by simp
  next
    case False
    have l: "digit_loop digits 10 x = digits ! unat (x mod 10) # digit_loop digits 10 (x div 10)"
      using False by (subst digit_loop.simps) simp
    have "unat x \<noteq> 0" using False by (auto simp: unat_eq_zero)
    then have "unat (x div 10) < unat x" by (simp add: unat_div_distrib)
    note ih = less [OF this]
    then have "atoi_loop 0 (rev (digit_loop digits 10 x)) = atoi_loop (x div 10) [digits ! unat (x mod 10)]"
      by (simp add: l atoi_loop_append)
    then show ?thesis using ih d step [of "x div 10"] dm l by simp
  qed
qed

text \<open>C33: printing and reading back.  What either \<open>printint\<close> prints for a number in decimal, without its
  sign, is read back by \<open>atoi\<close> as the number, or as its negation, the most negative \<open>int\<close> included.\<close>

theorem printint_atoi:
  "printint kernel_digits xx 10 True = (if sint xx < 0 then 45 # drop 1 (printint kernel_digits xx 10 True)
      else printint kernel_digits xx 10 True) \<and>
   atoi (if sint xx < 0 then drop 1 (printint kernel_digits xx 10 True) else printint kernel_digits xx 10 True) =
     (if sint xx < 0 then - xx else xx) \<and>
   printint user_digits xx 10 True = printint kernel_digits xx 10 True"
proof -
  have dl: "digit_loop user_digits 10 x = digit_loop kernel_digits 10 x" for x
  proof (induction "unat x" arbitrary: x rule: less_induct)
    case less
    have m: "unat (x mod 10) < 10" by (simp add: unat_mod_distrib)
    have "unat (x div 10) < unat x" if "x div 10 \<noteq> 0"
    proof -
      have "unat x \<noteq> 0" using that by (auto simp: unat_eq_zero)
      then show ?thesis by (simp add: unat_div_distrib)
    qed
    then show ?case using less decimal_digit [OF m] by (subst (1 2) digit_loop.simps) auto
  qed
  note k = digit_loop_decimal [OF decimal_digit(1)]
  show ?thesis by (auto simp: printint_def Let_def bytes_def dl atoi_def k)
qed

text \<open>C34: \<open>printint\<close> stays inside its buffer of 16 characters, in both bases and for every argument.\<close>

theorem printint_bound:
  "length (printint digits xx 10 sign) \<le> 11 \<and> length (printint digits xx 16 sign) \<le> 9"
proof -
  have b: "unat x < 2 ^ 32" for x :: uint using unsigned_less [of x] by simp
  have "length (digit_loop digits 10 x) \<le> Suc 9" "length (digit_loop digits 16 x) \<le> Suc 7" for x
    using b [of x] digit_loop_length [of 10 x 9 digits] digit_loop_length [of 16 x 7 digits] by auto
  then have "length (digit_loop digits 10 x) \<le> 10" "length (digit_loop digits 16 x) \<le> 8" for x by simp_all
  from this [of xx] this [of "- xx"] show ?thesis by (auto simp: printint_def Let_def bytes_def)
qed

end
