(* ===== verification/Uart.thy ===== *)
theory Uart
  imports Pipe Print
begin

text \<open>
  \<^verbatim>\<open>kernel/uart.c\<close> and \<^verbatim>\<open>kernel/console.c\<close>.  Of the device the state has the bytes it has been given to send,
  the number of bytes its holding register takes before it stops being idle, and the bytes that have
  arrived.  The wait of \<open>uartputc_sync\<close> for an idle device is left out, as are the checks of \<open>panicked\<close>,
  which is set only when the kernel has stopped.
\<close>

record kcons = kpipe +
  uart_tx_buf :: "uchar list"
  uart_tx_w :: uint64
  uart_tx_r :: uint64
  uart_room :: nat
  uart_sent :: "uchar list"
  uart_rx :: "uchar list"
  uart_regs :: "(nat \<times> uchar) list"
  cons_buf :: "uchar list"
  cons_r :: uint
  cons_w :: uint
  cons_e :: uint

subsection \<open>The device driver\<close>

definition UART_TX_BUF_SIZE :: nat where "UART_TX_BUF_SIZE = 32"

definition IER :: nat where "IER = 1"
definition FCR :: nat where "FCR = 2"
definition LCR :: nat where "LCR = 3"

definition WriteReg :: "nat \<Rightarrow> uchar \<Rightarrow> ('z kcons_scheme, unit) km" where
  "WriteReg reg v = modify (\<lambda>s. s\<lparr>uart_regs := uart_regs s @ [(reg, v)]\<rparr>)"

definition uartinit :: "('z kcons_scheme, unit) km" where
  "uartinit =
     thn (WriteReg IER 0x00)
    (thn (WriteReg LCR 0x80)
    (thn (WriteReg 0 0x03)
    (thn (WriteReg 1 0x00)
    (thn (WriteReg LCR 0x03)
    (thn (WriteReg FCR 0x07)
    (thn (WriteReg IER 0x03)
         (initlock UartTxLock)))))))"

function uartstart :: "'z kcons_scheme \<Rightarrow> (unit, 'z kcons_scheme) res" where
  "uartstart s =
     (if uart_tx_w s = uart_tx_r s then Ok () s
      else if uart_room s = 0 then Ok () s
      else let c = uart_tx_buf s ! slot UART_TX_BUF_SIZE (uart_tx_r s) in
        case wakeup ChanUartR (s\<lparr>uart_tx_r := uart_tx_r s + 1\<rparr>) of
          Ok _ s' \<Rightarrow> uartstart (s'\<lparr>uart_sent := uart_sent s' @ [c], uart_room := uart_room s - 1\<rparr>)
        | Panic e \<Rightarrow> Panic e
        | Sleep ch s' \<Rightarrow> Sleep ch s')"
  by pat_completeness auto
termination by (relation "measure uart_room") auto

declare uartstart.simps [simp del]

text \<open>The waiting loop of \<open>uartputc\<close> from its head on; the caller comes back to it after a sleep.\<close>

definition uartputc_loop :: "uint \<Rightarrow> ('z kcons_scheme, unit) km" where
  "uartputc_loop c =
     bind (gets uart_tx_w) (\<lambda>w. bind (gets uart_tx_r) (\<lambda>r.
     if w = r + of_nat UART_TX_BUF_SIZE then sleep ChanUartR UartTxLock
     else thn (modify (\<lambda>s. s\<lparr>uart_tx_buf := (uart_tx_buf s)[slot UART_TX_BUF_SIZE w := ucast c]\<rparr>))
         (thn (modify (\<lambda>s. s\<lparr>uart_tx_w := w + 1\<rparr>))
         (thn uartstart
              (release UartTxLock)))))"

definition uartputc :: "uint \<Rightarrow> ('z kcons_scheme, unit) km" where
  "uartputc c = thn (acquire UartTxLock) (uartputc_loop c)"

definition uartputc_resume :: "uint \<Rightarrow> ('z kcons_scheme, unit) km" where
  "uartputc_resume c = thn (sleep_resume UartTxLock) (uartputc_loop c)"

definition uartputc_sync :: "uint \<Rightarrow> ('z kcons_scheme, unit) km" where
  "uartputc_sync c = modify (\<lambda>s. s\<lparr>uart_sent := uart_sent s @ [ucast c]\<rparr>)"

definition uartgetc :: "('z kcons_scheme, int) km" where
  "uartgetc = bind (gets uart_rx) (\<lambda>rx. case rx of
       [] \<Rightarrow> ret (-1)
     | c # cs \<Rightarrow> thn (modify (\<lambda>s. s\<lparr>uart_rx := cs\<rparr>)) (ret (uint c)))"

subsection \<open>The console\<close>

definition BACKSPACE :: uint where "BACKSPACE = 0x100"
definition INPUT_BUF_SIZE :: nat where "INPUT_BUF_SIZE = 128"

definition ctrl :: "uint \<Rightarrow> uint" where
  "ctrl x = x - 64"

definition consputc :: "uint \<Rightarrow> ('z kcons_scheme, unit) km" where
  "consputc c =
     (if c = BACKSPACE
      then thn (uartputc_sync 8) (thn (uartputc_sync 32) (uartputc_sync 8))
      else uartputc_sync c)"

definition print_text :: "uchar list \<Rightarrow> ('z kcons_scheme, unit) km" where
  "print_text cs = modify (\<lambda>s. s\<lparr>uart_sent := uart_sent s @ cs\<rparr>)"

definition state_name :: "procstate \<Rightarrow> uchar list" where
  "state_name st = bytes (case st of UNUSED \<Rightarrow> ''unused'' | USED \<Rightarrow> ''used'' | SLEEPING \<Rightarrow> ''sleep ''
     | RUNNABLE \<Rightarrow> ''runble'' | RUNNING \<Rightarrow> ''run   '' | ZOMBIE \<Rightarrow> ''zombie'')"

definition procdump :: "('z kcons_scheme, unit) km" where
  "procdump =
     thn (print_text [10])
         (for_proc NPROC (\<lambda>p. bind (get_proc p) (\<lambda>q.
            if p_state q = UNUSED then skip
            else thn (print_text (the (kprintf (bytes ''%d %s %s'')
                        [AInt (word_of_int (p_pid q)), AStr (Some (state_name (p_state q))),
                         AStr (Some (takeWhile (\<lambda>c. c \<noteq> 0) (p_name q)))])))
                     (print_text [10]))))"

function consolewrite :: "bool \<Rightarrow> addr \<Rightarrow> int \<Rightarrow> int \<Rightarrow> ('z kcons_scheme, int) km" where
  "consolewrite user_src src n i =
     (if \<not> i < n then ret i
      else bind (if user_src
                 then bind myproc (\<lambda>p. bind (get_proc p) (\<lambda>q. copyin_bytes (p_pagetable q) (src + of_int i) 1))
                 else bind (gets mem) (\<lambda>m. ret (Some [m (src + of_int i)]))) (\<lambda>c.
        case c of
          None \<Rightarrow> ret i
        | Some cs \<Rightarrow> thn (uartputc (ucast (hd cs))) (consolewrite user_src src n (i + 1))))"
  by pat_completeness auto
termination by (relation "measure (\<lambda>(u, a, n, i). nat (n - i))") auto

declare consolewrite.simps [simp del]

text \<open>\<open>consoleread\<close> from the head of its outer loop, with \<open>n\<close> bytes still wanted of \<open>target\<close>.\<close>

function consoleread_loop :: "bool \<Rightarrow> addr \<Rightarrow> int \<Rightarrow> int \<Rightarrow> ('z kcons_scheme, int) km" where
  "consoleread_loop user_dst dst target n =
     (if \<not> n > 0 then thn (release ConsLock) (ret (target - n))
      else bind (gets cons_r) (\<lambda>r. bind (gets cons_w) (\<lambda>w.
        if r = w then
          bind myproc (\<lambda>p. bind (killed p) (\<lambda>k.
          if k \<noteq> 0 then thn (release ConsLock) (ret (-1))
          else thn (sleep ChanConsR ConsLock) (ret (-1))))
        else bind (gets (\<lambda>s. cons_buf s ! slot INPUT_BUF_SIZE r)) (\<lambda>c.
          thn (modify (\<lambda>s. s\<lparr>cons_r := r + 1\<rparr>))
         (if ucast c = ctrl 68 then
            thn (if n < target then modify (\<lambda>s. s\<lparr>cons_r := cons_r s - 1\<rparr>) else skip)
           (thn (release ConsLock) (ret (target - n)))
          else bind (if user_dst
                     then bind myproc (\<lambda>p. bind (get_proc p) (\<lambda>q. copyout_bytes (p_pagetable q) dst [c]))
                     else thn (modify (\<lambda>s. s\<lparr>mem := (mem s)(dst := c)\<rparr>)) (ret 0)) (\<lambda>e.
            if e = -1 then thn (release ConsLock) (ret (target - n))
            else if c = 10 then thn (release ConsLock) (ret (target - (n - 1)))
            else consoleread_loop user_dst (dst + 1) target (n - 1)))))))"
  by pat_completeness auto
termination by (relation "measure (\<lambda>(u, a, t, n). nat n)") auto

declare consoleread_loop.simps [simp del]

definition consoleread :: "bool \<Rightarrow> addr \<Rightarrow> int \<Rightarrow> ('z kcons_scheme, int) km" where
  "consoleread user_dst dst n = thn (acquire ConsLock) (consoleread_loop user_dst dst n n)"

definition consoleread_resume :: "bool \<Rightarrow> addr \<Rightarrow> int \<Rightarrow> int \<Rightarrow> ('z kcons_scheme, int) km" where
  "consoleread_resume user_dst dst target n = thn (sleep_resume ConsLock) (consoleread_loop user_dst dst target n)"

text \<open>The kill-line loop; \<open>d\<close> is the number of characters that can be taken back, \<open>e - w\<close>.\<close>

primrec kill_line :: "nat \<Rightarrow> ('z kcons_scheme, unit) km" where
  "kill_line 0 = skip"
| "kill_line (Suc d) =
     bind (gets (\<lambda>s. cons_buf s ! slot INPUT_BUF_SIZE (cons_e s - 1))) (\<lambda>c.
     if c \<noteq> 10 then thn (modify (\<lambda>s. s\<lparr>cons_e := cons_e s - 1\<rparr>)) (thn (consputc BACKSPACE) (kill_line d))
     else skip)"

definition consoleintr :: "uint \<Rightarrow> ('z kcons_scheme, unit) km" where
  "consoleintr c =
     thn (acquire ConsLock)
    (thn (if c = ctrl 80 then procdump
          else if c = ctrl 85 then bind (gets (\<lambda>s. unat (cons_e s - cons_w s))) kill_line
          else if c = ctrl 72 \<or> c = 127 then
            bind (gets (\<lambda>s. cons_e s \<noteq> cons_w s)) (\<lambda>b.
            if b then thn (modify (\<lambda>s. s\<lparr>cons_e := cons_e s - 1\<rparr>)) (consputc BACKSPACE) else skip)
          else bind (gets (\<lambda>s. unat (cons_e s - cons_r s) < INPUT_BUF_SIZE)) (\<lambda>room.
            if c \<noteq> 0 \<and> room then
              let c = if c = 13 then 10 else c in
              thn (consputc c)
             (thn (modify (\<lambda>s. s\<lparr>cons_buf := (cons_buf s)[slot INPUT_BUF_SIZE (cons_e s) := ucast c], cons_e := cons_e s + 1\<rparr>))
             (bind (gets (\<lambda>s. c = 10 \<or> c = ctrl 68 \<or> unat (cons_e s - cons_r s) = INPUT_BUF_SIZE)) (\<lambda>whole.
              if whole then thn (modify (\<lambda>s. s\<lparr>cons_w := cons_e s\<rparr>)) (wakeup ChanConsR) else skip)))
            else skip))
         (release ConsLock))"

function uartintr_loop :: "'z kcons_scheme \<Rightarrow> (unit, 'z kcons_scheme) res" where
  "uartintr_loop s =
     (case uart_rx s of
        [] \<Rightarrow> Ok () s
      | c # cs \<Rightarrow> (case consoleintr (ucast c) (s\<lparr>uart_rx := cs\<rparr>) of
          Ok _ s' \<Rightarrow> uartintr_loop (s'\<lparr>uart_rx := cs\<rparr>)
        | Panic e \<Rightarrow> Panic e
        | Sleep ch s' \<Rightarrow> Sleep ch s'))"
  by pat_completeness auto
termination by (relation "measure (\<lambda>s. length (uart_rx s))") auto

declare uartintr_loop.simps [simp del]

definition uartintr :: "('z kcons_scheme, unit) km" where
  "uartintr = thn uartintr_loop (thn (acquire UartTxLock) (thn uartstart (release UartTxLock)))"

definition consoleinit :: "('z kcons_scheme, unit) km" where
  "consoleinit = thn (initlock ConsLock) uartinit"

end
