(* ===== verification/Bio.thy ===== *)
theory Bio
  imports Uart
begin

text \<open>
  Sleep locks (\<^verbatim>\<open>kernel/sleeplock.c\<close>) and the buffer cache (\<^verbatim>\<open>kernel/bio.c\<close>).  The doubly linked list of
  buffers is the list of their indices from the most to the least recently used.  \<open>disk_rw\<close> is the
  contract of the disk driver: a request is done when the call returns.  The history of the writes
  that reached the disk is kept to speak about crashes.
\<close>

definition NBUF :: nat where "NBUF = 30"
definition BSIZE :: nat where "BSIZE = 1024"

record buf =
  b_valid :: bool
  b_dev :: uint
  b_blockno :: uint
  b_refcnt :: uint
  b_data :: "uchar list"

record sleeplock =
  sl_locked :: bool
  sl_pid :: int

record kbio = kcons +
  slks :: "slk \<Rightarrow> sleeplock"
  bufs :: "nat \<Rightarrow> buf"
  lru :: "nat list"
  disk :: "uint \<Rightarrow> uchar list"
  dwrites :: "(uint \<times> uchar list) list"

subsection \<open>Sleep locks\<close>

definition initsleeplock :: "slk \<Rightarrow> ('z kbio_scheme, unit) km" where
  "initsleeplock lk =
     thn (initlock (SleepLkLock lk))
         (modify (\<lambda>s. s\<lparr>slks := (slks s)(lk := \<lparr>sl_locked = False, sl_pid = 0\<rparr>)\<rparr>))"

definition acquiresleep_loop :: "slk \<Rightarrow> ('z kbio_scheme, unit) km" where
  "acquiresleep_loop lk =
     bind (gets (\<lambda>s. sl_locked (slks s lk))) (\<lambda>l.
     if l then sleep (ChanSlk lk) (SleepLkLock lk)
     else bind myproc (\<lambda>p. bind (get_proc p) (\<lambda>q.
       thn (modify (\<lambda>s. s\<lparr>slks := (slks s)(lk := \<lparr>sl_locked = True, sl_pid = p_pid q\<rparr>)\<rparr>))
           (release (SleepLkLock lk)))))"

definition acquiresleep :: "slk \<Rightarrow> ('z kbio_scheme, unit) km" where
  "acquiresleep lk = thn (acquire (SleepLkLock lk)) (acquiresleep_loop lk)"

definition acquiresleep_resume :: "slk \<Rightarrow> ('z kbio_scheme, unit) km" where
  "acquiresleep_resume lk = thn (sleep_resume (SleepLkLock lk)) (acquiresleep_loop lk)"

definition releasesleep :: "slk \<Rightarrow> ('z kbio_scheme, unit) km" where
  "releasesleep lk =
     thn (acquire (SleepLkLock lk))
    (thn (modify (\<lambda>s. s\<lparr>slks := (slks s)(lk := \<lparr>sl_locked = False, sl_pid = 0\<rparr>)\<rparr>))
    (thn (wakeup (ChanSlk lk))
         (release (SleepLkLock lk))))"

definition holdingsleep :: "slk \<Rightarrow> ('z kbio_scheme, bool) km" where
  "holdingsleep lk =
     thn (acquire (SleepLkLock lk))
    (bind (gets (\<lambda>s. slks s lk)) (\<lambda>l. bind myproc (\<lambda>p. bind (get_proc p) (\<lambda>q.
     thn (release (SleepLkLock lk)) (ret (sl_locked l \<and> sl_pid l = p_pid q))))))"

subsection \<open>The cache\<close>

primrec forn :: "nat \<Rightarrow> nat \<Rightarrow> (nat \<Rightarrow> ('s, unit) km) \<Rightarrow> ('s, unit) km" where
  "forn i 0 f = skip"
| "forn i (Suc k) f = thn (f i) (forn (Suc i) k f)"

definition upd_buf :: "nat \<Rightarrow> (buf \<Rightarrow> buf) \<Rightarrow> ('z kbio_scheme, unit) km" where
  "upd_buf b f = modify (\<lambda>s. s\<lparr>bufs := (bufs s)(b := f (bufs s b))\<rparr>)"

definition binit :: "('z kbio_scheme, unit) km" where
  "binit =
     thn (initlock BcacheLock)
    (thn (modify (\<lambda>s. s\<lparr>lru := []\<rparr>))
         (forn 0 NBUF (\<lambda>b. thn (initsleeplock (BufLk b)) (modify (\<lambda>s. s\<lparr>lru := b # lru s\<rparr>)))))"

definition bget :: "uint \<Rightarrow> uint \<Rightarrow> ('z kbio_scheme, nat) km" where
  "bget dev blockno =
     thn (acquire BcacheLock)
    (bind (gets (\<lambda>s. find (\<lambda>b. b_dev (bufs s b) = dev \<and> b_blockno (bufs s b) = blockno) (lru s))) (\<lambda>hit.
     case hit of
       Some b \<Rightarrow>
         thn (upd_buf b (\<lambda>x. x\<lparr>b_refcnt := b_refcnt x + 1\<rparr>))
        (thn (release BcacheLock) (thn (acquiresleep (BufLk b)) (ret b)))
     | None \<Rightarrow>
         bind (gets (\<lambda>s. find (\<lambda>b. b_refcnt (bufs s b) = 0) (rev (lru s)))) (\<lambda>unused.
         case unused of
           None \<Rightarrow> panic ''bget: no buffers''
         | Some b \<Rightarrow>
             thn (upd_buf b (\<lambda>x. x\<lparr>b_dev := dev, b_blockno := blockno, b_valid := False, b_refcnt := 1\<rparr>))
            (thn (release BcacheLock) (thn (acquiresleep (BufLk b)) (ret b))))))"

definition disk_rw :: "nat \<Rightarrow> bool \<Rightarrow> ('z kbio_scheme, unit) km" where
  "disk_rw b write =
     (if write
      then modify (\<lambda>s. s\<lparr>disk := (disk s)(b_blockno (bufs s b) := b_data (bufs s b)),
             dwrites := dwrites s @ [(b_blockno (bufs s b), b_data (bufs s b))]\<rparr>)
      else modify (\<lambda>s. s\<lparr>bufs := (bufs s)(b := (bufs s b)\<lparr>b_data := disk s (b_blockno (bufs s b))\<rparr>)\<rparr>))"

definition bread :: "uint \<Rightarrow> uint \<Rightarrow> ('z kbio_scheme, nat) km" where
  "bread dev blockno =
     bind (bget dev blockno) (\<lambda>b.
     bind (gets (\<lambda>s. b_valid (bufs s b))) (\<lambda>v.
     thn (if \<not> v then thn (disk_rw b False) (upd_buf b (\<lambda>x. x\<lparr>b_valid := True\<rparr>)) else skip)
         (ret b)))"

definition bwrite :: "nat \<Rightarrow> ('z kbio_scheme, unit) km" where
  "bwrite b = bind (holdingsleep (BufLk b)) (\<lambda>h. thn (panic_if (\<not> h) ''bwrite'') (disk_rw b True))"

definition brelse :: "nat \<Rightarrow> ('z kbio_scheme, unit) km" where
  "brelse b =
     bind (holdingsleep (BufLk b)) (\<lambda>h.
     thn (panic_if (\<not> h) ''brelse'')
    (thn (releasesleep (BufLk b))
    (thn (acquire BcacheLock)
    (thn (upd_buf b (\<lambda>x. x\<lparr>b_refcnt := b_refcnt x - 1\<rparr>))
    (bind (gets (\<lambda>s. b_refcnt (bufs s b) = 0)) (\<lambda>z.
     thn (if z then modify (\<lambda>s. s\<lparr>lru := b # remove1 b (lru s)\<rparr>) else skip)
         (release BcacheLock)))))))"

definition bpin :: "nat \<Rightarrow> ('z kbio_scheme, unit) km" where
  "bpin b =
     thn (acquire BcacheLock)
    (thn (upd_buf b (\<lambda>x. x\<lparr>b_refcnt := b_refcnt x + 1\<rparr>)) (release BcacheLock))"

definition bunpin :: "nat \<Rightarrow> ('z kbio_scheme, unit) km" where
  "bunpin b =
     thn (acquire BcacheLock)
    (thn (upd_buf b (\<lambda>x. x\<lparr>b_refcnt := b_refcnt x - 1\<rparr>)) (release BcacheLock))"

end
