(* ===== verification/Log.thy ===== *)
theory Log
  imports Bio
begin

text \<open>
  The log (\<^verbatim>\<open>kernel/log.c\<close>): transactions that group the writes of file-system calls, the commit, and the
  recovery at boot.  The header block holds the number of logged blocks and their home locations as
  32-bit integers.
\<close>

definition LOGSIZE :: nat where "LOGSIZE = 30"
definition MAXOPBLOCKS :: nat where "MAXOPBLOCKS = 10"

record logrec =
  l_start :: uint
  l_size :: int
  l_outstanding :: int
  l_committing :: bool
  l_dev :: uint
  l_n :: nat
  l_block :: "uint list"

record superblock =
  s_magic :: uint
  s_size :: uint
  s_nblocks :: uint
  s_ninodes :: uint
  s_nlog :: uint
  s_logstart :: uint
  s_inodestart :: uint
  s_bmapstart :: uint

record klog = kbio +
  log :: logrec

definition upd_log :: "(logrec \<Rightarrow> logrec) \<Rightarrow> ('z klog_scheme, unit) km" where
  "upd_log f = modify (\<lambda>s. s\<lparr>log := f (log s)\<rparr>)"

text \<open>Reading and writing fields of a block.\<close>

definition get32 :: "uchar list \<Rightarrow> nat \<Rightarrow> uint" where
  "get32 d off = of_le (take 4 (drop off d))"

definition get16 :: "uchar list \<Rightarrow> nat \<Rightarrow> ushort" where
  "get16 d off = of_le (take 2 (drop off d))"

definition splice :: "uchar list \<Rightarrow> nat \<Rightarrow> uchar list \<Rightarrow> uchar list" where
  "splice d off bs = take off d @ bs @ drop (off + length bs) d"

definition put32 :: "uchar list \<Rightarrow> nat \<Rightarrow> uint \<Rightarrow> uchar list" where
  "put32 d off v = splice d off (to_le 4 v)"

definition set_data :: "nat \<Rightarrow> (uchar list \<Rightarrow> uchar list) \<Rightarrow> ('z kbio_scheme, unit) km" where
  "set_data b f = upd_buf b (\<lambda>x. x\<lparr>b_data := f (b_data x)\<rparr>)"

definition buf_data :: "nat \<Rightarrow> ('z kbio_scheme, uchar list) km" where
  "buf_data b = gets (\<lambda>s. b_data (bufs s b))"

subsection \<open>Committing and recovering\<close>

definition install_trans :: "bool \<Rightarrow> ('z klog_scheme, unit) km" where
  "install_trans recovering =
     bind (gets log) (\<lambda>l.
     forn 0 (l_n l) (\<lambda>tail.
       bind (bread (l_dev l) (l_start l + of_nat tail + 1)) (\<lambda>lbuf.
       bind (bread (l_dev l) (l_block l ! tail)) (\<lambda>dbuf.
       bind (buf_data lbuf) (\<lambda>d.
       thn (set_data dbuf (\<lambda>_. d))
      (thn (bwrite dbuf)
      (thn (if recovering then skip else bunpin dbuf)
      (thn (brelse lbuf) (brelse dbuf)))))))))"

definition read_head :: "('z klog_scheme, unit) km" where
  "read_head =
     bind (gets log) (\<lambda>l.
     bind (bread (l_dev l) (l_start l)) (\<lambda>b.
     bind (buf_data b) (\<lambda>d.
     thn (upd_log (\<lambda>x. x\<lparr>l_n := nat (sint (get32 d 0))\<rparr>))
    (bind (gets (\<lambda>s. l_n (log s))) (\<lambda>n.
     thn (forn 0 n (\<lambda>i. upd_log (\<lambda>x. x\<lparr>l_block := (l_block x)[i := get32 d (4 + 4 * i)]\<rparr>)))
         (brelse b))))))"

definition write_head :: "('z klog_scheme, unit) km" where
  "write_head =
     bind (gets log) (\<lambda>l.
     bind (bread (l_dev l) (l_start l)) (\<lambda>b.
     thn (set_data b (\<lambda>d. put32 d 0 (of_nat (l_n l))))
    (thn (forn 0 (l_n l) (\<lambda>i. set_data b (\<lambda>d. put32 d (4 + 4 * i) (l_block l ! i))))
    (thn (bwrite b) (brelse b)))))"

definition recover_from_log :: "('z klog_scheme, unit) km" where
  "recover_from_log =
     thn read_head
    (thn (install_trans True)
    (thn (upd_log (\<lambda>x. x\<lparr>l_n := 0\<rparr>))
         write_head))"

definition initlog :: "uint \<Rightarrow> superblock \<Rightarrow> ('z klog_scheme, unit) km" where
  "initlog dev sb =
     thn (panic_if (4 + 4 * LOGSIZE \<ge> BSIZE) ''initlog: too big logheader'')
    (thn (initlock LogLock)
    (thn (upd_log (\<lambda>x. x\<lparr>l_start := s_logstart sb, l_size := sint (s_nlog sb), l_dev := dev\<rparr>))
         recover_from_log))"

definition write_log :: "('z klog_scheme, unit) km" where
  "write_log =
     bind (gets log) (\<lambda>l.
     forn 0 (l_n l) (\<lambda>tail.
       bind (bread (l_dev l) (l_start l + of_nat tail + 1)) (\<lambda>to.
       bind (bread (l_dev l) (l_block l ! tail)) (\<lambda>from.
       bind (buf_data from) (\<lambda>d.
       thn (set_data to (\<lambda>_. d))
      (thn (bwrite to)
      (thn (brelse from) (brelse to))))))))"

definition commit :: "('z klog_scheme, unit) km" where
  "commit =
     bind (gets (\<lambda>s. l_n (log s))) (\<lambda>n.
     if n > 0 then
       thn write_log
      (thn write_head
      (thn (install_trans False)
      (thn (upd_log (\<lambda>x. x\<lparr>l_n := 0\<rparr>))
           write_head)))
     else skip)"

subsection \<open>Transactions\<close>

definition begin_op_loop :: "('z klog_scheme, unit) km" where
  "begin_op_loop =
     bind (gets log) (\<lambda>l.
     if l_committing l then sleep ChanLog LogLock
     else if int (l_n l) + (l_outstanding l + 1) * int MAXOPBLOCKS > int LOGSIZE then sleep ChanLog LogLock
     else thn (upd_log (\<lambda>x. x\<lparr>l_outstanding := l_outstanding x + 1\<rparr>)) (release LogLock))"

definition begin_op :: "('z klog_scheme, unit) km" where
  "begin_op = thn (acquire LogLock) begin_op_loop"

definition begin_op_resume :: "('z klog_scheme, unit) km" where
  "begin_op_resume = thn (sleep_resume LogLock) begin_op_loop"

definition end_op :: "('z klog_scheme, unit) km" where
  "end_op =
     thn (acquire LogLock)
    (thn (upd_log (\<lambda>x. x\<lparr>l_outstanding := l_outstanding x - 1\<rparr>))
    (bind (gets log) (\<lambda>l.
     thn (panic_if (l_committing l) ''log.committing'')
    (let do_commit = (l_outstanding l = 0) in
     thn (if do_commit then upd_log (\<lambda>x. x\<lparr>l_committing := True\<rparr>) else wakeup ChanLog)
    (thn (release LogLock)
    (if do_commit then
       thn commit
      (thn (acquire LogLock)
      (thn (upd_log (\<lambda>x. x\<lparr>l_committing := False\<rparr>))
      (thn (wakeup ChanLog)
           (release LogLock))))
     else skip))))))"

definition log_write :: "nat \<Rightarrow> ('z klog_scheme, unit) km" where
  "log_write b =
     thn (acquire LogLock)
    (bind (gets log) (\<lambda>l.
     thn (panic_if (l_n l \<ge> LOGSIZE \<or> int (l_n l) \<ge> l_size l - 1) ''too big a transaction'')
    (thn (panic_if (l_outstanding l < 1) ''log_write outside of trans'')
    (bind (gets (\<lambda>s. b_blockno (bufs s b))) (\<lambda>bn.
     let i = length (takeWhile (\<lambda>x. x \<noteq> bn) (take (l_n l) (l_block l))) in
     thn (upd_log (\<lambda>x. x\<lparr>l_block := (l_block x)[i := bn]\<rparr>))
    (thn (if i = l_n l then thn (bpin b) (upd_log (\<lambda>x. x\<lparr>l_n := l_n x + 1\<rparr>)) else skip)
         (release LogLock)))))))"

subsection \<open>The space reserved for transactions\<close>

text \<open>Every operation that has begun may still log \<open>MAXOPBLOCKS\<close> blocks.\<close>

definition reserved :: "logrec \<Rightarrow> bool" where
  "reserved l \<longleftrightarrow> 0 \<le> l_outstanding l \<and> int (l_n l) + l_outstanding l * int MAXOPBLOCKS \<le> int LOGSIZE"

lemma upd_log_run [run_simps]: "upd_log f s = Ok () (s\<lparr>log := f (log s)\<rparr>)"
  by (simp add: upd_log_def run_simps)

text \<open>C22: \<open>begin_op\<close> lets an operation in only when the log has room for all the blocks it may write besides those
  already logged or promised; otherwise, or during a commit, it sleeps with the log unchanged.\<close>

theorem begin_op_reserves:
  assumes "held s = {}" "cur s = Some p" "reserved (log s)"
  shows "(\<exists>t. begin_op s = Ok () t \<and> \<not> l_committing (log s) \<and> reserved (log t) \<and> held t = {} \<and>
      log t = (log s)\<lparr>l_outstanding := l_outstanding (log s) + 1\<rparr>) \<or>
    (\<exists>t. begin_op s = Sleep ChanLog t \<and> log t = log s \<and> held t = {ProcLock p} \<and> p_state (procs t p) = SLEEPING \<and>
      (l_committing (log s) \<or> \<not> reserved ((log s)\<lparr>l_outstanding := l_outstanding (log s) + 1\<rparr>)))"
proof -
  let ?l = "log s"
  have sl: "\<exists>t. sleep ChanLog LogLock (s\<lparr>held := {LogLock}\<rparr>) = Sleep ChanLog t \<and> log t = log s \<and> held t = {ProcLock p} \<and> p_state (procs t p) = SLEEPING"
    using assms(2) by (simp add: sleep_def sched_def run_simps insert_Diff_if)
  consider (busy) "l_committing ?l" | (full) "\<not> l_committing ?l" "int (l_n ?l) + (l_outstanding ?l + 1) * int MAXOPBLOCKS > int LOGSIZE"
    | (go) "\<not> l_committing ?l" "int (l_n ?l) + (l_outstanding ?l + 1) * int MAXOPBLOCKS \<le> int LOGSIZE" by linarith
  then show ?thesis
  proof cases
    case busy
    then show ?thesis using assms(1) sl by (simp add: begin_op_def begin_op_loop_def run_simps)
  next
    case full
    then show ?thesis using assms(1) sl by (simp add: begin_op_def begin_op_loop_def run_simps reserved_def)
  next
    case go
    then show ?thesis using assms(1,3) by (simp add: begin_op_def begin_op_loop_def run_simps reserved_def)
  qed
qed

end
