(* ===== verification/Fs.thy ===== *)
theory Fs
  imports Log
begin

text \<open>
  The inode layer of \<^verbatim>\<open>kernel/fs.c\<close>: the block allocator, the inode table, and the contents of inodes.
  An inode is its index in the table.  Structures on disk are read and written at their offsets in
  a block.  A transfer to or from kernel memory is a transfer of bytes, the caller keeps them.
\<close>

definition NINODE :: nat where "NINODE = 50"
definition ROOTDEV :: uint where "ROOTDEV = 1"
definition ROOTINO :: uint where "ROOTINO = 1"
definition FSMAGIC :: uint where "FSMAGIC = 0x10203040"
definition NDIRECT :: nat where "NDIRECT = 12"
definition NINDIRECT :: nat where "NINDIRECT = BSIZE div 4"
definition MAXFILE :: nat where "MAXFILE = NDIRECT + NINDIRECT"
definition IPB :: nat where "IPB = BSIZE div 64"
definition BPB :: nat where "BPB = BSIZE * 8"

definition T_DIR :: ushort where "T_DIR = 1"
definition T_FILE :: ushort where "T_FILE = 2"
definition T_DEVICE :: ushort where "T_DEVICE = 3"

record inode =
  i_dev :: uint
  i_inum :: uint
  i_ref :: int
  i_valid :: bool
  i_type :: ushort
  i_major :: ushort
  i_minor :: ushort
  i_nlink :: ushort
  i_size :: uint
  i_addrs :: "uint list"

record kfs = klog +
  sb :: superblock
  itable :: "nat \<Rightarrow> inode"

definition IBLOCK :: "uint \<Rightarrow> superblock \<Rightarrow> uint" where
  "IBLOCK i b = i div of_nat IPB + s_inodestart b"

definition BBLOCK :: "uint \<Rightarrow> superblock \<Rightarrow> uint" where
  "BBLOCK b p = b div of_nat BPB + s_bmapstart p"

definition upd_inode :: "nat \<Rightarrow> (inode \<Rightarrow> inode) \<Rightarrow> ('z kfs_scheme, unit) km" where
  "upd_inode ip f = modify (\<lambda>s. s\<lparr>itable := (itable s)(ip := f (itable s ip))\<rparr>)"

definition get_inode :: "nat \<Rightarrow> ('z kfs_scheme, inode) km" where
  "get_inode ip = gets (\<lambda>s. itable s ip)"

subsection \<open>The superblock and blocks\<close>

definition decode_sb :: "uchar list \<Rightarrow> superblock" where
  "decode_sb d = \<lparr>s_magic = get32 d 0, s_size = get32 d 4, s_nblocks = get32 d 8, s_ninodes = get32 d 12,
     s_nlog = get32 d 16, s_logstart = get32 d 20, s_inodestart = get32 d 24, s_bmapstart = get32 d 28\<rparr>"

definition readsb :: "uint \<Rightarrow> ('z kfs_scheme, unit) km" where
  "readsb dev =
     bind (bread dev 1) (\<lambda>bp.
     bind (buf_data bp) (\<lambda>d.
     thn (modify (\<lambda>s. s\<lparr>sb := decode_sb d\<rparr>)) (brelse bp)))"

definition fsinit :: "uint \<Rightarrow> ('z kfs_scheme, unit) km" where
  "fsinit dev =
     thn (readsb dev)
    (bind (gets sb) (\<lambda>b.
     thn (panic_if (s_magic b \<noteq> FSMAGIC) ''invalid file system'') (initlog dev b)))"

definition bzero :: "uint \<Rightarrow> uint \<Rightarrow> ('z kfs_scheme, unit) km" where
  "bzero dev bno =
     bind (bread dev bno) (\<lambda>bp.
     thn (set_data bp (\<lambda>_. replicate BSIZE 0)) (thn (log_write bp) (brelse bp)))"

text \<open>The bit of block \<open>bi\<close> in a bitmap block.\<close>

definition bm_mask :: "nat \<Rightarrow> uchar" where
  "bm_mask bi = push_bit (bi mod 8) 1"

definition bm_free :: "uchar list \<Rightarrow> nat \<Rightarrow> bool" where
  "bm_free d bi \<longleftrightarrow> d ! (bi div 8) AND bm_mask bi = 0"

definition bm_set :: "uchar list \<Rightarrow> nat \<Rightarrow> uchar list" where
  "bm_set d bi = d[bi div 8 := d ! (bi div 8) OR bm_mask bi]"

definition bm_clear :: "uchar list \<Rightarrow> nat \<Rightarrow> uchar list" where
  "bm_clear d bi = d[bi div 8 := d ! (bi div 8) AND NOT (bm_mask bi)]"

text \<open>The outer loop of \<open>balloc\<close>: \<open>k\<close> bitmap blocks are left, the next one covers the blocks from \<open>b\<close> on.\<close>

primrec balloc_scan :: "nat \<Rightarrow> nat \<Rightarrow> uint \<Rightarrow> ('z kfs_scheme, uint) km" where
  "balloc_scan 0 b dev = thn (print_text (bytes ''balloc: out of blocks'' @ [10])) (ret 0)"
| "balloc_scan (Suc k) b dev =
     bind (gets sb) (\<lambda>p.
     bind (bread dev (BBLOCK (of_nat b) p)) (\<lambda>bp.
     bind (buf_data bp) (\<lambda>d.
     case find (bm_free d) [0..<min BPB (unat (s_size p) - b)] of
       Some bi \<Rightarrow>
         thn (set_data bp (\<lambda>d. bm_set d bi))
        (thn (log_write bp)
        (thn (brelse bp)
        (thn (bzero dev (of_nat (b + bi)))
             (ret (of_nat (b + bi))))))
     | None \<Rightarrow> thn (brelse bp) (balloc_scan k (b + BPB) dev))))"

definition balloc :: "uint \<Rightarrow> ('z kfs_scheme, uint) km" where
  "balloc dev = bind (gets sb) (\<lambda>p. balloc_scan ((unat (s_size p) + BPB - 1) div BPB) 0 dev)"

definition bfree :: "uint \<Rightarrow> uint \<Rightarrow> ('z kfs_scheme, unit) km" where
  "bfree dev b =
     bind (gets sb) (\<lambda>p.
     bind (bread dev (BBLOCK b p)) (\<lambda>bp.
     let bi = unat b mod BPB in
     bind (buf_data bp) (\<lambda>d.
     thn (panic_if (bm_free d bi) ''freeing free block'')
    (thn (set_data bp (\<lambda>d. bm_clear d bi))
    (thn (log_write bp) (brelse bp))))))"

subsection \<open>The inode table\<close>

definition iinit :: "('z kfs_scheme, unit) km" where
  "iinit = thn (initlock ItableLock) (forn 0 NINODE (\<lambda>i. initsleeplock (InodeLk i)))"

text \<open>Inode \<open>inum\<close> on disk: its offset in its block, its fields, and their encoding.\<close>

definition dinode_off :: "uint \<Rightarrow> nat" where
  "dinode_off inum = (unat inum mod IPB) * 64"

definition encode_dinode :: "inode \<Rightarrow> uchar list" where
  "encode_dinode i = to_le 2 (i_type i) @ to_le 2 (i_major i) @ to_le 2 (i_minor i) @ to_le 2 (i_nlink i) @
     to_le 4 (i_size i) @ concat (map (to_le 4) (i_addrs i))"

definition load_dinode :: "uchar list \<Rightarrow> nat \<Rightarrow> inode \<Rightarrow> inode" where
  "load_dinode d off i = i\<lparr>i_type := get16 d off, i_major := get16 d (off + 2), i_minor := get16 d (off + 4),
     i_nlink := get16 d (off + 6), i_size := get32 d (off + 8),
     i_addrs := map (\<lambda>k. get32 d (off + 12 + 4 * k)) [0..<NDIRECT + 1]\<rparr>"

definition iget :: "uint \<Rightarrow> uint \<Rightarrow> ('z kfs_scheme, nat) km" where
  "iget dev inum =
     thn (acquire ItableLock)
    (bind (gets (\<lambda>s. find (\<lambda>ip. i_ref (itable s ip) > 0 \<and> i_dev (itable s ip) = dev \<and> i_inum (itable s ip) = inum) [0..<NINODE])) (\<lambda>hit.
     case hit of
       Some ip \<Rightarrow>
         thn (upd_inode ip (\<lambda>i. i\<lparr>i_ref := i_ref i + 1\<rparr>)) (thn (release ItableLock) (ret ip))
     | None \<Rightarrow>
         bind (gets (\<lambda>s. find (\<lambda>ip. i_ref (itable s ip) = 0) [0..<NINODE])) (\<lambda>empty.
         case empty of
           None \<Rightarrow> panic ''iget: no inodes''
         | Some ip \<Rightarrow>
             thn (upd_inode ip (\<lambda>i. i\<lparr>i_dev := dev, i_inum := inum, i_ref := 1, i_valid := False\<rparr>))
            (thn (release ItableLock) (ret ip)))))"

primrec ialloc_scan :: "nat \<Rightarrow> uint \<Rightarrow> uint \<Rightarrow> ushort \<Rightarrow> ('z kfs_scheme, nat option) km" where
  "ialloc_scan 0 inum dev type = thn (print_text (bytes ''ialloc: no inodes'' @ [10])) (ret None)"
| "ialloc_scan (Suc k) inum dev type =
     bind (gets sb) (\<lambda>p.
     bind (bread dev (IBLOCK inum p)) (\<lambda>bp.
     bind (buf_data bp) (\<lambda>d.
     if get16 d (dinode_off inum) = 0 then
       thn (set_data bp (\<lambda>d. splice d (dinode_off inum) (to_le 2 type @ replicate 62 0)))
      (thn (log_write bp)
      (thn (brelse bp)
           (bind (iget dev inum) (\<lambda>ip. ret (Some ip)))))
     else thn (brelse bp) (ialloc_scan k (inum + 1) dev type))))"

definition ialloc :: "uint \<Rightarrow> ushort \<Rightarrow> ('z kfs_scheme, nat option) km" where
  "ialloc dev type = bind (gets sb) (\<lambda>p. ialloc_scan (unat (s_ninodes p) - 1) 1 dev type)"

definition iupdate :: "nat \<Rightarrow> ('z kfs_scheme, unit) km" where
  "iupdate ip =
     bind (get_inode ip) (\<lambda>i.
     bind (gets sb) (\<lambda>p.
     bind (bread (i_dev i) (IBLOCK (i_inum i) p)) (\<lambda>bp.
     thn (set_data bp (\<lambda>d. splice d (dinode_off (i_inum i)) (encode_dinode i)))
    (thn (log_write bp) (brelse bp)))))"

definition idup :: "nat \<Rightarrow> ('z kfs_scheme, nat) km" where
  "idup ip =
     thn (acquire ItableLock)
    (thn (upd_inode ip (\<lambda>i. i\<lparr>i_ref := i_ref i + 1\<rparr>)) (thn (release ItableLock) (ret ip)))"

definition ilock :: "nat \<Rightarrow> ('z kfs_scheme, unit) km" where
  "ilock ip =
     bind (get_inode ip) (\<lambda>i.
     thn (panic_if (i_ref i < 1) ''ilock'')
    (thn (acquiresleep (InodeLk ip))
    (bind (get_inode ip) (\<lambda>i.
     if \<not> i_valid i then
       bind (gets sb) (\<lambda>p.
       bind (bread (i_dev i) (IBLOCK (i_inum i) p)) (\<lambda>bp.
       bind (buf_data bp) (\<lambda>d.
       thn (upd_inode ip (load_dinode d (dinode_off (i_inum i))))
      (thn (brelse bp)
      (thn (upd_inode ip (\<lambda>i. i\<lparr>i_valid := True\<rparr>))
      (bind (get_inode ip) (\<lambda>i. panic_if (i_type i = 0) ''ilock: no type'')))))))
     else skip))))"

definition iunlock :: "nat \<Rightarrow> ('z kfs_scheme, unit) km" where
  "iunlock ip =
     bind (holdingsleep (InodeLk ip)) (\<lambda>h.
     bind (get_inode ip) (\<lambda>i.
     thn (panic_if (\<not> h \<or> i_ref i < 1) ''iunlock'') (releasesleep (InodeLk ip))))"

subsection \<open>Contents\<close>

definition bmap :: "nat \<Rightarrow> nat \<Rightarrow> ('z kfs_scheme, uint) km" where
  "bmap ip bn =
     bind (get_inode ip) (\<lambda>i.
     if bn < NDIRECT then
       (if i_addrs i ! bn = 0 then
          bind (balloc (i_dev i)) (\<lambda>addr.
          if addr = 0 then ret 0
          else thn (upd_inode ip (\<lambda>i. i\<lparr>i_addrs := (i_addrs i)[bn := addr]\<rparr>)) (ret addr))
        else ret (i_addrs i ! bn))
     else if bn - NDIRECT < NINDIRECT then
       let bn = bn - NDIRECT in
       bind (if i_addrs i ! NDIRECT = 0 then
               bind (balloc (i_dev i)) (\<lambda>addr.
               if addr = 0 then ret 0
               else thn (upd_inode ip (\<lambda>i. i\<lparr>i_addrs := (i_addrs i)[NDIRECT := addr]\<rparr>)) (ret addr))
             else ret (i_addrs i ! NDIRECT)) (\<lambda>addr.
       if addr = 0 then ret 0
       else bind (bread (i_dev i) addr) (\<lambda>bp.
         bind (buf_data bp) (\<lambda>d.
         bind (if get32 d (4 * bn) = 0 then
                 bind (balloc (i_dev i)) (\<lambda>a.
                 thn (if a \<noteq> 0 then thn (set_data bp (\<lambda>d. put32 d (4 * bn) a)) (log_write bp) else skip) (ret a))
               else ret (get32 d (4 * bn))) (\<lambda>a.
         thn (brelse bp) (ret a)))))
     else panic ''bmap: out of range'')"

definition itrunc :: "nat \<Rightarrow> ('z kfs_scheme, unit) km" where
  "itrunc ip =
     thn (forn 0 NDIRECT (\<lambda>k.
       bind (get_inode ip) (\<lambda>i.
       if i_addrs i ! k \<noteq> 0 then
         thn (bfree (i_dev i) (i_addrs i ! k)) (upd_inode ip (\<lambda>i. i\<lparr>i_addrs := (i_addrs i)[k := 0]\<rparr>))
       else skip)))
    (thn (bind (get_inode ip) (\<lambda>i.
       if i_addrs i ! NDIRECT \<noteq> 0 then
         bind (bread (i_dev i) (i_addrs i ! NDIRECT)) (\<lambda>bp.
         thn (forn 0 NINDIRECT (\<lambda>j.
           bind (buf_data bp) (\<lambda>d. if get32 d (4 * j) \<noteq> 0 then bfree (i_dev i) (get32 d (4 * j)) else skip)))
        (thn (brelse bp)
        (thn (bfree (i_dev i) (i_addrs i ! NDIRECT))
             (upd_inode ip (\<lambda>i. i\<lparr>i_addrs := (i_addrs i)[NDIRECT := 0]\<rparr>)))))
       else skip))
    (thn (upd_inode ip (\<lambda>i. i\<lparr>i_size := 0\<rparr>))
         (iupdate ip)))"

definition iput :: "nat \<Rightarrow> ('z kfs_scheme, unit) km" where
  "iput ip =
     thn (acquire ItableLock)
    (bind (get_inode ip) (\<lambda>i.
     thn (if i_ref i = 1 \<and> i_valid i \<and> i_nlink i = 0 then
            thn (acquiresleep (InodeLk ip))
           (thn (release ItableLock)
           (thn (itrunc ip)
           (thn (upd_inode ip (\<lambda>i. i\<lparr>i_type := 0\<rparr>))
           (thn (iupdate ip)
           (thn (upd_inode ip (\<lambda>i. i\<lparr>i_valid := False\<rparr>))
           (thn (releasesleep (InodeLk ip))
                (acquire ItableLock)))))))
          else skip)
    (thn (upd_inode ip (\<lambda>i. i\<lparr>i_ref := i_ref i - 1\<rparr>))
         (release ItableLock))))"

definition iunlockput :: "nat \<Rightarrow> ('z kfs_scheme, unit) km" where
  "iunlockput ip = thn (iunlock ip) (iput ip)"

record stat =
  st_dev :: uint
  st_ino :: uint
  st_type :: ushort
  st_nlink :: ushort
  st_size :: uint64

definition stati :: "nat \<Rightarrow> ('z kfs_scheme, stat) km" where
  "stati ip = bind (get_inode ip) (\<lambda>i.
     ret \<lparr>st_dev = i_dev i, st_ino = i_inum i, st_type = i_type i, st_nlink = i_nlink i, st_size = ucast (i_size i)\<rparr>)"

text \<open>Reading: \<open>off\<close> is the position in the file, \<open>rem\<close> the number of bytes still wanted.  With a user address
  the bytes go there; without one they are returned.  The result is the number of bytes, -1 for a bad
  user address.\<close>

definition chunk :: "nat \<Rightarrow> nat \<Rightarrow> nat" where
  "chunk off rem = min rem (BSIZE - off mod BSIZE)"

lemma chunk_bounds: "0 < rem \<Longrightarrow> 0 < chunk off rem" "chunk off rem \<le> rem"
  by (auto simp: chunk_def BSIZE_def)

function readi_loop :: "nat \<Rightarrow> addr option \<Rightarrow> nat \<Rightarrow> nat \<Rightarrow> int \<Rightarrow> uchar list \<Rightarrow> ('z kfs_scheme, int \<times> uchar list) km" where
  "readi_loop ip dst off rem tot acc =
     (if rem = 0 then ret (tot, acc)
      else bind (bmap ip (off div BSIZE)) (\<lambda>addr.
        if addr = 0 then ret (tot, acc)
        else bind (get_inode ip) (\<lambda>i.
          bind (bread (i_dev i) addr) (\<lambda>bp.
          bind (buf_data bp) (\<lambda>d.
          let m = chunk off rem; bs = take m (drop (off mod BSIZE) d) in
          bind (case dst of
                  Some a \<Rightarrow> bind myproc (\<lambda>p. bind (get_proc p) (\<lambda>q. copyout_bytes (p_pagetable q) a bs))
                | None \<Rightarrow> ret 0) (\<lambda>e.
          if e = -1 then thn (brelse bp) (ret (-1, acc))
          else thn (brelse bp)
            (readi_loop ip (map_option (\<lambda>a. a + of_nat m) dst) (off + m) (rem - m) (tot + int m) (acc @ bs))))))))"
  by pat_completeness auto
termination by (relation "measure (\<lambda>(ip, d, off, rem, t, a). rem)") (auto simp: chunk_bounds)

declare readi_loop.simps [simp del]

definition readi :: "nat \<Rightarrow> addr option \<Rightarrow> uint \<Rightarrow> uint \<Rightarrow> ('z kfs_scheme, int \<times> uchar list) km" where
  "readi ip dst off n =
     bind (get_inode ip) (\<lambda>i.
     if off > i_size i \<or> off + n < off then ret (0, [])
     else readi_loop ip dst (unat off) (unat (if off + n > i_size i then i_size i - off else n)) 0 [])"

text \<open>\<open>copyin\<close> into the data of a buffer: the bytes copied, and whether all of them could be.\<close>

function copyin_part :: "addr \<Rightarrow> addr \<Rightarrow> nat \<Rightarrow> ('z kmem_scheme, bool \<times> uchar list) km" where
  "copyin_part pagetable srcva len =
     (if len = 0 then ret (True, [])
      else let va0 = PGROUNDDOWN srcva in
        bind (walkaddr pagetable va0) (\<lambda>pa0.
        if pa0 = 0 then ret (False, [])
        else let n = min (unat (PGSIZE - (srcva - va0))) len in
          bind (gets (\<lambda>s. mload (mem s) (pa0 + (srcva - va0)) n)) (\<lambda>bs.
          bind (copyin_part pagetable (va0 + PGSIZE) (len - n)) (\<lambda>(k, cs). ret (k, bs @ cs)))))"
  by pat_completeness auto
termination
  by (relation "measure (\<lambda>(pt, d, l). l)") (auto simp: word_pos_unat chunk_pos)

declare copyin_part.simps [simp del]

text \<open>Writing, from a user address (\<open>Inl\<close>) or from given bytes (\<open>Inr\<close>); the result is the number of bytes written
  and the position reached.\<close>

function writei_loop :: "nat \<Rightarrow> addr + uchar list \<Rightarrow> nat \<Rightarrow> nat \<Rightarrow> int \<Rightarrow> ('z kfs_scheme, int \<times> nat) km" where
  "writei_loop ip src off rem tot =
     (if rem = 0 then ret (tot, off)
      else bind (bmap ip (off div BSIZE)) (\<lambda>addr.
        if addr = 0 then ret (tot, off)
        else bind (get_inode ip) (\<lambda>i.
          bind (bread (i_dev i) addr) (\<lambda>bp.
          let m = chunk off rem in
          bind (case src of
                  Inl a \<Rightarrow> bind myproc (\<lambda>p. bind (get_proc p) (\<lambda>q. copyin_part (p_pagetable q) a m))
                | Inr bs \<Rightarrow> ret (True, take m bs)) (\<lambda>(k, bs).
          thn (set_data bp (\<lambda>d. splice d (off mod BSIZE) bs))
         (if \<not> k then thn (brelse bp) (ret (tot, off))
          else
            thn (log_write bp)
           (thn (brelse bp)
                (writei_loop ip (map_sum (\<lambda>a. a + of_nat m) (drop m) src) (off + m) (rem - m) (tot + int m)))))))))"
  by pat_completeness auto
termination by (relation "measure (\<lambda>(ip, d, off, rem, t). rem)") (auto simp: chunk_bounds)

declare writei_loop.simps [simp del]

definition writei :: "nat \<Rightarrow> addr + uchar list \<Rightarrow> uint \<Rightarrow> uint \<Rightarrow> ('z kfs_scheme, int) km" where
  "writei ip src off n =
     bind (get_inode ip) (\<lambda>i.
     if off > i_size i \<or> off + n < off then ret (-1)
     else if unat (off + n) > MAXFILE * BSIZE then ret (-1)
     else bind (writei_loop ip src (unat off) (unat n) 0) (\<lambda>(tot, off').
       thn (bind (get_inode ip) (\<lambda>i. if off' > unat (i_size i) then upd_inode ip (\<lambda>i. i\<lparr>i_size := of_nat off'\<rparr>) else skip))
      (thn (iupdate ip) (ret tot))))"

subsection \<open>The bitmap and the inodes on disk\<close>

lemma bm_mask_bit: "bit (bm_mask bi) k \<longleftrightarrow> k = bi mod 8"
  by (auto simp: bm_mask_def bit_simps)

lemma bm_free_bit: "bm_free d bi \<longleftrightarrow> \<not> bit (d ! (bi div 8)) (bi mod 8)"
proof -
  have "d ! (bi div 8) AND bm_mask bi = 0 \<longleftrightarrow> \<not> bit (d ! (bi div 8)) (bi mod 8)" (is "?w = 0 \<longleftrightarrow> _")
  proof
    assume "?w = 0"
    then have "\<not> bit ?w (bi mod 8)" by simp
    then show "\<not> bit (d ! (bi div 8)) (bi mod 8)" by (simp add: bit_and_iff bm_mask_bit)
  next
    assume "\<not> bit (d ! (bi div 8)) (bi mod 8)"
    then show "?w = 0" by (intro bit_word_eqI) (auto simp: bit_and_iff bm_mask_bit)
  qed
  then show ?thesis by (simp add: bm_free_def)
qed

text \<open>C30: marking a block in the bitmap and clearing it again changes the bit of that block and of no other.\<close>

theorem bitmap_bits:
  assumes "bi div 8 < length d" "bj \<noteq> bi"
  shows "\<not> bm_free (bm_set d bi) bi \<and> bm_free (bm_clear d bi) bi \<and>
    bm_free (bm_set d bi) bj = bm_free d bj \<and> bm_free (bm_clear d bi) bj = bm_free d bj"
proof -
  have ne: "bj mod 8 \<noteq> bi mod 8" if "bj div 8 = bi div 8" using that assms(2) by (metis div_mult_mod_eq)
  have lt: "bi mod 8 < LENGTH(8)" by simp
  show ?thesis using assms(1) ne lt
    by (cases "bj div 8 = bi div 8")
      (auto simp: bm_free_bit bm_set_def bm_clear_def bit_or_iff bit_and_iff bit_not_iff bm_mask_bit nth_list_update)
qed

theorem bitmap_bits_witness:
  "bm_free [5] 1 \<and> \<not> bm_free (bm_set [5] 1) 1 \<and> bm_free (bm_clear [5] 1) 1 \<and> bm_free (bm_set [5] 1) 3"
  using bitmap_bits [of 1 "[5]" 3] by (simp add: bm_free_def bm_mask_def)

lemma length_concat4: "length (concat (map (to_le 4) (xs :: uint list))) = 4 * length xs"
  by (induction xs) simp_all

lemma get32_concat: "k < length xs \<Longrightarrow> get32 (concat (map (to_le 4) (xs :: uint list)) @ r) (4 * k) = xs ! k"
proof (induction xs arbitrary: k)
  case (Cons x xs)
  show ?case
  proof (cases k)
    case (Suc j)
    then have "get32 (concat (map (to_le 4) xs) @ r) (4 * j) = xs ! j" using Cons by simp
    then show ?thesis using Suc by (simp add: get32_def)
  qed (simp add: get32_def)
qed simp

lemma take_drop_splice:
  assumes "off \<le> length d" "k + n \<le> length bs"
  shows "take n (drop (off + k) (splice d off bs)) = take n (drop k bs)"
  using assms by (simp add: splice_def min_def)

lemma get_splice:
  assumes "off \<le> length d"
  shows "k + 2 \<le> length bs \<Longrightarrow> get16 (splice d off bs) (off + k) = get16 bs k"
    "k + 4 \<le> length bs \<Longrightarrow> get32 (splice d off bs) (off + k) = get32 bs k"
  using take_drop_splice [OF assms] by (simp_all add: get16_def get32_def)

lemma length_encode_dinode: "length (encode_dinode i) = 12 + 4 * length (i_addrs i)"
  by (simp add: encode_dinode_def length_concat4)

lemma get_encode:
  "get16 (encode_dinode i) 0 = i_type i" "get16 (encode_dinode i) 2 = i_major i" "get16 (encode_dinode i) 4 = i_minor i"
  "get16 (encode_dinode i) 6 = i_nlink i" "get32 (encode_dinode i) 8 = i_size i"
  "k < length (i_addrs i) \<Longrightarrow> get32 (encode_dinode i) (12 + 4 * k) = i_addrs i ! k"
  using get32_concat [of k "i_addrs i" "[]"] by (simp_all add: encode_dinode_def get16_def get32_def)

text \<open>C28: an inode that \<open>iupdate\<close> puts into its place in a block is read back by \<open>ilock\<close> with the same fields.\<close>

theorem dinode_roundtrip:
  assumes "length (i_addrs i) = NDIRECT + 1" "off \<le> length d"
  shows "load_dinode (splice d off (encode_dinode i)) off j =
    j\<lparr>i_type := i_type i, i_major := i_major i, i_minor := i_minor i, i_nlink := i_nlink i, i_size := i_size i, i_addrs := i_addrs i\<rparr>"
proof -
  let ?d = "splice d off (encode_dinode i)"
  have l: "length (encode_dinode i) = 64" using assms(1) by (simp add: length_encode_dinode NDIRECT_def)
  have "map (\<lambda>k. get32 ?d (off + 12 + 4 * k)) [0..<NDIRECT + 1] = i_addrs i"
  proof (rule nth_equalityI)
    fix k assume "k < length (map (\<lambda>k. get32 ?d (off + 12 + 4 * k)) [0..<NDIRECT + 1])"
    then have k: "k < NDIRECT + 1" by simp
    then have "get32 ?d (off + (12 + 4 * k)) = i_addrs i ! k"
      using get_splice(2) [OF assms(2), of "12 + 4 * k" "encode_dinode i"] get_encode(6) [of k i] l assms(1) by (simp add: NDIRECT_def)
    then show "map (\<lambda>k. get32 ?d (off + 12 + 4 * k)) [0..<NDIRECT + 1] ! k = i_addrs i ! k" using k by (simp add: add.assoc del: upt_Suc)
  qed (use assms(1) in simp)
  moreover have "get16 ?d off = i_type i" using get_splice(1) [OF assms(2), of 0 "encode_dinode i"] l by (simp add: get_encode)
  moreover have "get16 ?d (off + 2) = i_major i" "get16 ?d (off + 4) = i_minor i" "get16 ?d (off + 6) = i_nlink i" "get32 ?d (off + 8) = i_size i"
    by (subst get_splice [OF assms(2)], simp_all add: l get_encode)+
  ultimately show ?thesis by (simp add: load_dinode_def)
qed

definition x_inode :: inode where
  "x_inode = \<lparr>i_dev = 1, i_inum = 3, i_ref = 1, i_valid = True, i_type = 2, i_major = 0, i_minor = 0, i_nlink = 1, i_size = 700, i_addrs = replicate 13 9\<rparr>"

theorem dinode_roundtrip_witness:
  "length (i_addrs x_inode) = NDIRECT + 1 \<and>
   i_size (load_dinode (splice (replicate 1024 0) 64 (encode_dinode x_inode)) 64 (x_inode\<lparr>i_size := 0\<rparr>)) = 700"
  using dinode_roundtrip [of x_inode 64 "replicate 1024 0" "x_inode\<lparr>i_size := 0\<rparr>"] by (simp add: x_inode_def NDIRECT_def)

end
