(* ===== verification/Dir.thy ===== *)
theory Dir
  imports Fs
begin

text \<open>
  Directories and path names, the upper part of \<^verbatim>\<open>kernel/fs.c\<close>.  A name is the list of its bytes; a directory
  entry is 16 bytes, the inode number and 14 bytes of name padded with NULs.
\<close>

definition DIRSIZ :: nat where "DIRSIZ = 14"
definition DESIZE :: nat where "DESIZE = 16"

subsection \<open>Path elements\<close>

definition ch_slash :: uchar where "ch_slash = 47"

text \<open>The C string in a name field of \<^verbatim>\<open>DIRSIZ\<close> bytes.\<close>

definition cname :: "uchar list \<Rightarrow> uchar list" where
  "cname bs = takeWhile (\<lambda>c. c \<noteq> 0) (take DIRSIZ bs)"

text \<open>Two arrays of the kernel's stack in memory, for the routines of \<open>Str\<close>; a NUL follows the bytes of each.\<close>

definition array_at :: "uchar list \<Rightarrow> nat \<Rightarrow> uchar" where
  "array_at bs i = (if i < length bs then bs ! i else 0)"

definition array2 :: addr where "array2 = 0x8000000000000000"

definition two_arrays :: "uchar list \<Rightarrow> uchar list \<Rightarrow> memory" where
  "two_arrays s t = (\<lambda>a. if a < array2 then array_at s (unat a) else array_at t (unat (a - array2)))"

definition namecmp :: "uchar list \<Rightarrow> uchar list \<Rightarrow> int" where
  "namecmp s t = strncmp (two_arrays s t) 0 array2 (of_nat DIRSIZ)"

definition skipelem :: "uchar list \<Rightarrow> (uchar list \<times> uchar list) option" where
  "skipelem path =
     (let s = dropWhile (\<lambda>c. c = ch_slash) path in
      if s = [] then None
      else let elem = takeWhile (\<lambda>c. c \<noteq> ch_slash) s; rest = dropWhile (\<lambda>c. c \<noteq> ch_slash) s
        in Some (take DIRSIZ elem, dropWhile (\<lambda>c. c = ch_slash) rest))"

lemma skipelem_shorter:
  assumes "skipelem path = Some (name, rest)"
  shows "length rest < length path"
proof -
  let ?s = "dropWhile (\<lambda>c. c = ch_slash) path"
  have ne: "?s \<noteq> []" and r: "rest = dropWhile (\<lambda>c. c = ch_slash) (dropWhile (\<lambda>c. c \<noteq> ch_slash) ?s)"
    using assms by (auto simp: skipelem_def Let_def split: if_splits)
  have hd: "hd ?s \<noteq> ch_slash" using ne hd_dropWhile by blast
  obtain x xs where x: "?s = x # xs" using ne by (cases ?s) auto
  have "length rest \<le> length (dropWhile (\<lambda>c. c \<noteq> ch_slash) ?s)" unfolding r by (rule length_dropWhile_le)
  also have "\<dots> \<le> length xs" using hd x length_dropWhile_le by simp
  also have "\<dots> < length ?s" using x by simp
  also have "\<dots> \<le> length path" by (rule length_dropWhile_le)
  finally show ?thesis .
qed

subsection \<open>Directories\<close>

definition de_inum :: "uchar list \<Rightarrow> ushort" where
  "de_inum de = get16 de 0"

definition de_name :: "uchar list \<Rightarrow> uchar list" where
  "de_name de = drop 2 de"

text \<open>\<open>strncpy(de.name, name, DIRSIZ)\<close> over the bytes \<open>old\<close> that the field held, and the inode number.  The old bytes do not matter (\<open>put_name_eq\<close>).\<close>

definition put_name :: "uchar list \<Rightarrow> uchar list \<Rightarrow> uchar list" where
  "put_name old name = mload (strncpy (two_arrays old name) 0 array2 (int DIRSIZ)) 0 DIRSIZ"

definition mk_dirent :: "uchar list \<Rightarrow> ushort \<Rightarrow> uchar list" where
  "mk_dirent name inum = to_le 2 inum @ put_name [] name"

function dirlookup_loop :: "nat \<Rightarrow> uchar list \<Rightarrow> nat \<Rightarrow> nat \<Rightarrow> ('z kfs_scheme, (nat \<times> nat) option) km" where
  "dirlookup_loop dp name sz off =
     (if \<not> off < sz then ret None
      else bind (readi dp None (of_nat off) (of_nat DESIZE)) (\<lambda>(r, de).
        thn (panic_if (r \<noteq> int DESIZE) ''dirlookup read'')
       (if de_inum de = 0 then dirlookup_loop dp name sz (off + DESIZE)
        else if namecmp name (de_name de) = 0 then
          bind (get_inode dp) (\<lambda>i.
          bind (iget (i_dev i) (ucast (de_inum de))) (\<lambda>ip. ret (Some (ip, off))))
        else dirlookup_loop dp name sz (off + DESIZE))))"
  by pat_completeness auto
termination by (relation "measure (\<lambda>(dp, n, sz, off). sz - off)") (auto simp: DESIZE_def)

declare dirlookup_loop.simps [simp del]

text \<open>The inode and the offset of the entry.\<close>

definition dirlookup :: "nat \<Rightarrow> uchar list \<Rightarrow> ('z kfs_scheme, (nat \<times> nat) option) km" where
  "dirlookup dp name =
     bind (get_inode dp) (\<lambda>i.
     thn (panic_if (i_type i \<noteq> T_DIR) ''dirlookup not DIR'')
         (dirlookup_loop dp name (unat (i_size i)) 0))"

function dirlink_slot :: "nat \<Rightarrow> nat \<Rightarrow> nat \<Rightarrow> ('z kfs_scheme, nat) km" where
  "dirlink_slot dp sz off =
     (if \<not> off < sz then ret off
      else bind (readi dp None (of_nat off) (of_nat DESIZE)) (\<lambda>(r, de).
        thn (panic_if (r \<noteq> int DESIZE) ''dirlink read'')
       (if de_inum de = 0 then ret off else dirlink_slot dp sz (off + DESIZE))))"
  by pat_completeness auto
termination by (relation "measure (\<lambda>(dp, sz, off). sz - off)") (auto simp: DESIZE_def)

declare dirlink_slot.simps [simp del]

definition dirlink :: "nat \<Rightarrow> uchar list \<Rightarrow> uint \<Rightarrow> ('z kfs_scheme, int) km" where
  "dirlink dp name inum =
     bind (dirlookup dp name) (\<lambda>f.
     case f of
       Some (ip, _) \<Rightarrow> thn (iput ip) (ret (-1))
     | None \<Rightarrow>
         bind (get_inode dp) (\<lambda>i.
         bind (dirlink_slot dp (unat (i_size i)) 0) (\<lambda>off.
         bind (writei dp (Inr (mk_dirent name (ucast inum))) (of_nat off) (of_nat DESIZE)) (\<lambda>r.
         if r \<noteq> int DESIZE then ret (-1) else ret 0))))"

subsection \<open>Path names\<close>

function namex_loop :: "nat \<Rightarrow> uchar list \<Rightarrow> bool \<Rightarrow> uchar list \<Rightarrow> ('z kfs_scheme, (nat \<times> uchar list) option) km" where
  "namex_loop ip path nameiparent name =
     (case skipelem path of
        None \<Rightarrow> if nameiparent then thn (iput ip) (ret None) else ret (Some (ip, name))
      | Some (name, rest) \<Rightarrow>
          thn (ilock ip)
         (bind (get_inode ip) (\<lambda>i.
          if i_type i \<noteq> T_DIR then thn (iunlockput ip) (ret None)
          else if nameiparent \<and> rest = [] then thn (iunlock ip) (ret (Some (ip, name)))
          else bind (dirlookup ip name) (\<lambda>f.
            case f of
              None \<Rightarrow> thn (iunlockput ip) (ret None)
            | Some (next, _) \<Rightarrow> thn (iunlockput ip) (namex_loop next rest nameiparent name)))))"
  by pat_completeness auto
termination by (relation "measure (\<lambda>(ip, path, b, n). length path)") (auto dest: skipelem_shorter)

declare namex_loop.simps [simp del]

text \<open>The current directory of a process that resolves a relative path is set; a null one would fault.\<close>

definition namex :: "uchar list \<Rightarrow> bool \<Rightarrow> ('z kfs_scheme, (nat \<times> uchar list) option) km" where
  "namex path nameiparent =
     bind (if path \<noteq> [] \<and> hd path = ch_slash then iget ROOTDEV ROOTINO
           else bind myproc (\<lambda>p. bind (get_proc p) (\<lambda>q.
             case p_cwd q of None \<Rightarrow> panic ''kerneltrap'' | Some ip \<Rightarrow> idup ip))) (\<lambda>ip.
     namex_loop ip path nameiparent [])"

definition namei :: "uchar list \<Rightarrow> ('z kfs_scheme, nat option) km" where
  "namei path = bind (namex path False) (\<lambda>r. ret (map_option fst r))"

definition nameiparent :: "uchar list \<Rightarrow> ('z kfs_scheme, (nat \<times> uchar list) option) km" where
  "nameiparent path = namex path True"

subsection \<open>Path elements, declaratively\<close>

text \<open>The elements of a path: the maximal non-empty pieces between slashes, cut to 14 bytes.\<close>

function elements :: "uchar list \<Rightarrow> uchar list list" where
  "elements path = (case skipelem path of None \<Rightarrow> [] | Some (name, rest) \<Rightarrow> name # elements rest)"
  by pat_completeness auto
termination by (relation "measure length") (auto dest: skipelem_shorter)

declare elements.simps [simp del]

definition plain_name :: "uchar list \<Rightarrow> bool" where
  "plain_name n \<longleftrightarrow> n \<noteq> [] \<and> ch_slash \<notin> set n \<and> length n \<le> DIRSIZ"

lemma takeWhile_name:
  "ch_slash \<notin> set n \<Longrightarrow> takeWhile (\<lambda>c. c \<noteq> ch_slash) (n @ ch_slash # r) = n \<and> dropWhile (\<lambda>c. c \<noteq> ch_slash) (n @ ch_slash # r) = ch_slash # r"
  by (induction n) auto

lemma dropWhile_slashes: "dropWhile (\<lambda>c. c = ch_slash) (replicate k ch_slash @ r) = dropWhile (\<lambda>c. c = ch_slash) r"
  by (induction k) auto

lemma skipelem_name:
  assumes "plain_name n" "r = [] \<or> hd r = ch_slash"
  shows "skipelem (replicate k ch_slash @ n @ r) = Some (n, dropWhile (\<lambda>c. c = ch_slash) r)"
proof -
  obtain x xs where n: "n = x # xs" "x \<noteq> ch_slash" using assms(1) by (cases n) (auto simp: plain_name_def)
  then have s: "dropWhile (\<lambda>c. c = ch_slash) (replicate k ch_slash @ n @ r) = n @ r" by (simp add: dropWhile_slashes)
  have "takeWhile (\<lambda>c. c \<noteq> ch_slash) (n @ r) = n \<and> dropWhile (\<lambda>c. c \<noteq> ch_slash) (n @ r) = r"
  proof (cases r)
    case Nil
    then show ?thesis using assms(1) by (auto simp: plain_name_def takeWhile_eq_all_conv dropWhile_eq_Nil_conv)
  next
    case (Cons y ys)
    then show ?thesis using assms takeWhile_name [of n ys] by (simp add: plain_name_def)
  qed
  moreover have "n @ r \<noteq> []" using n by simp
  ultimately show ?thesis using assms(1) s by (simp add: skipelem_def Let_def plain_name_def)
qed

text \<open>A path built from names, with any number of slashes before, between and after them.\<close>

primrec join_path :: "(nat \<times> uchar list) list \<Rightarrow> nat \<Rightarrow> uchar list" where
  "join_path [] k = replicate k ch_slash"
| "join_path (e # es) k = replicate (Suc (fst e)) ch_slash @ snd e @ join_path es k"

lemma skipelem_slashes: "skipelem (replicate k ch_slash) = None"
  by (induction k) (auto simp: skipelem_def Let_def)

lemma elements_dropWhile: "elements (dropWhile (\<lambda>c. c = ch_slash) p) = elements p"
  by (simp add: elements.simps [of p] elements.simps [of "dropWhile (\<lambda>c. c = ch_slash) p"] skipelem_def dropWhile_idem Let_def)

text \<open>C37: \<open>skipelem\<close> takes a path apart as it was put together: whatever runs of slashes separate them, the
  elements it delivers are the names of the path.\<close>

theorem elements_join:
  assumes "\<forall>e \<in> set es. plain_name (snd e)"
  shows "elements (join_path es k) = map snd es"
  using assms
proof (induction es)
  case Nil
  show ?case by (simp add: elements.simps skipelem_slashes)
next
  case (Cons e es)
  have h: "join_path es k = [] \<or> hd (join_path es k) = ch_slash" by (cases es; cases k) auto
  have "skipelem (join_path (e # es) k) = Some (snd e, dropWhile (\<lambda>c. c = ch_slash) (join_path es k))"
    using skipelem_name [OF _ h, of "snd e" "Suc (fst e)"] Cons.prems by simp
  then show ?case using Cons by (subst elements.simps) (simp add: elements_dropWhile)
qed

theorem elements_join_witness:
  "plain_name [97] \<and> plain_name [98, 98] \<and> elements (join_path [(2, [97]), (0, [98, 98])] 1) = [[97], [98, 98]]"
  using elements_join [of "[(2, [97]), (0, [98, 98])]" 1] by (simp add: plain_name_def ch_slash_def DIRSIZ_def)

lemma cname_length: "length (cname bs) \<le> DIRSIZ"
  unfolding cname_def by (rule le_trans [OF length_takeWhile_le]) simp

text \<open>The routines of \<open>Str\<close> on the arrays.\<close>

lemma length_bytes_of_string: "length (takeWhile (\<lambda>c. c \<noteq> 0) bs) \<le> length bs"
  by (rule length_takeWhile_le)

lemma array2_simps: "unat (0 + of_nat i :: addr) = i" "(0 + of_nat i :: addr) < array2" "\<not> array2 + of_nat i < array2" "array2 + of_nat i - array2 = of_nat i"
  if "i < 2 ^ 32" for i
proof -
  have i: "unat (of_nat i :: addr) = i" using that by (simp add: unsigned_of_nat take_bit_nat_eq_self)
  then show "unat (0 + of_nat i :: addr) = i" "(0 + of_nat i :: addr) < array2" "array2 + of_nat i - array2 = of_nat i"
    using that by (simp_all add: word_less_nat_alt array2_def)
  have "unat (array2 + of_nat i) = unat array2 + i" using that i by (simp add: unat_word_ariths array2_def)
  then show "\<not> array2 + of_nat i < array2" by (simp add: word_less_nat_alt)
qed

lemma array_at_end: "array_at bs (length (takeWhile (\<lambda>c. c \<noteq> 0) bs)) = 0"
proof (cases "length (takeWhile (\<lambda>c. c \<noteq> 0) bs) < length bs")
  case True
  then show ?thesis using nth_length_takeWhile [OF True] by (simp add: array_at_def)
qed (simp add: array_at_def)

lemma cstr_arrays:
  assumes "length s < 2 ^ 32" "length t < 2 ^ 32"
  shows "cstr (two_arrays s t) 0 (takeWhile (\<lambda>c. c \<noteq> 0) s)" "cstr (two_arrays s t) array2 (takeWhile (\<lambda>c. c \<noteq> 0) t)"
proof -
  have l: "two_arrays s t (0 + of_nat i) = array_at s i" "two_arrays s t (array2 + of_nat i) = array_at t i" if "i < 2 ^ 32" for i
    unfolding two_arrays_def using array2_simps [OF that] by simp_all
  have n: "array_at bs i = takeWhile (\<lambda>c. c \<noteq> 0) bs ! i" if "i < length (takeWhile (\<lambda>c. c \<noteq> 0) bs)" for bs i
    using that length_bytes_of_string [of bs] by (simp add: array_at_def takeWhile_nth)
  have b: "length (takeWhile (\<lambda>c. c \<noteq> 0) s) < 2 ^ 32" "length (takeWhile (\<lambda>c. c \<noteq> 0) t) < 2 ^ 32"
    using assms length_bytes_of_string [of s] length_bytes_of_string [of t] by linarith+
  have z: "0 \<notin> set (takeWhile (\<lambda>c. c \<noteq> 0) bs)" for bs :: "uchar list" using set_takeWhileD by fastforce
  show "cstr (two_arrays s t) 0 (takeWhile (\<lambda>c. c \<noteq> 0) s)" "cstr (two_arrays s t) array2 (takeWhile (\<lambda>c. c \<noteq> 0) t)"
    unfolding cstr_def using l b z n array_at_end by (auto intro!: nth_equalityI)
qed

lemma take_takeWhile: "take n (takeWhile P xs) = takeWhile P (take n xs)"
  by (induction xs arbitrary: n) (auto simp: take_Cons split: nat.splits)

lemma namecmp_iff: "length s < 2 ^ 32 \<Longrightarrow> length t < 2 ^ 32 \<Longrightarrow> namecmp s t = 0 \<longleftrightarrow> cname s = cname t"
  unfolding namecmp_def strncmp_def cname_def take_takeWhile [symmetric]
  by (subst strncmp_loop_0_iff [OF cstr_arrays]) (simp_all add: DIRSIZ_def)

lemma put_name_eq:
  assumes "length old < 2 ^ 32" "length name < 2 ^ 32"
  shows "put_name old name = cname name @ replicate (DIRSIZ - length (cname name)) 0"
proof -
  let ?c = "takeWhile (\<lambda>c. c \<noteq> 0) name" and ?m = "two_arrays old name"
  have c: "length ?c < 2 ^ 32" using assms(2) length_bytes_of_string [of name] by linarith
  have ne: "0 + of_nat i \<noteq> array2 + of_nat j" if "i < j" "j \<le> length ?c" for i j
    using array2_simps(2) [of i] array2_simps(3) [of j] that c by force
  have "strncpy ?m 0 array2 (int DIRSIZ) = mstore ?m 0 (take DIRSIZ (?c @ replicate DIRSIZ 0))"
    unfolding strncpy_def nat_int by (rule strncpy_loop_eq [OF _ cstr_arrays(2) [OF assms] c ne]) (simp add: DIRSIZ_def)
  moreover have l: "length (take DIRSIZ (?c @ replicate DIRSIZ 0)) = DIRSIZ" by simp
  ultimately have "put_name old name = take DIRSIZ (?c @ replicate DIRSIZ 0)"
    unfolding put_name_def by (simp only: mload_mstore [OF _ l [symmetric]]) (simp add: mload_mstore DIRSIZ_def)
  also have "\<dots> = take DIRSIZ ?c @ replicate (DIRSIZ - length (take DIRSIZ ?c)) 0" by (simp add: min_def)
  also have "take DIRSIZ ?c = cname name" by (simp add: cname_def take_takeWhile)
  finally show ?thesis .
qed

lemma cname_cname: "cname (cname bs @ replicate (DIRSIZ - length (cname bs)) 0) = cname bs"
proof -
  let ?c = "cname bs"
  have z: "\<forall>c \<in> set ?c. c \<noteq> 0" unfolding cname_def using set_takeWhileD by fastforce
  have "take DIRSIZ (?c @ replicate (DIRSIZ - length ?c) 0) = ?c @ replicate (DIRSIZ - length ?c) 0"
    using cname_length [of bs] by simp
  then show ?thesis using z by (simp add: cname_def [of "?c @ _"] takeWhile_append2 takeWhile_replicate)
qed

lemma get16_to_le: "get16 (to_le 2 (w :: ushort) @ bs) 0 = w"
  by (simp add: get16_def)

lemma mk_dirent_eq: "length name < 2 ^ 32 \<Longrightarrow> mk_dirent name inum = to_le 2 inum @ cname name @ replicate (DIRSIZ - length (cname name)) 0"
  by (simp add: mk_dirent_def put_name_eq)

lemma cname_plain: "0 \<notin> set n \<Longrightarrow> cname n = take 14 n"
  unfolding cname_def DIRSIZ_def by (auto simp: takeWhile_eq_all_conv dest: in_set_takeD)

text \<open>C38: \<open>dirlink\<close> and \<open>dirlookup\<close> agree on names, through the kernel's own \<open>strncpy\<close> and \<open>strncmp\<close>.  The entry written for a name is 16 bytes: the
  inode number and the first 14 bytes of the name, filled up with NULs.  The comparison of \<open>dirlookup\<close> finds it for exactly the names that have
  the same first 14 bytes.\<close>

theorem mk_dirent_found:
  assumes "0 \<notin> set name" "0 \<notin> set n" "length name < 2 ^ 32" "length n < 2 ^ 32"
  shows "length (mk_dirent name inum) = 16 \<and> de_inum (mk_dirent name inum) = inum \<and>
    de_name (mk_dirent name inum) = take 14 (name @ replicate 14 0) \<and>
    (namecmp n (de_name (mk_dirent name inum)) = 0 \<longleftrightarrow> take 14 n = take 14 name)"
proof -
  have c: "cname name = take 14 name" "cname n = take 14 n" using assms(1,2) by (simp_all add: cname_plain)
  have l: "length (cname name) \<le> 14" using cname_length [of name] by (simp add: DIRSIZ_def)
  note e = mk_dirent_eq [OF assms(3), of inum]
  have d: "de_name (mk_dirent name inum) = cname name @ replicate (DIRSIZ - length (cname name)) 0" by (simp add: e de_name_def)
  then have "length (de_name (mk_dirent name inum)) < 2 ^ 32" using l by (simp add: DIRSIZ_def)
  then have "namecmp n (de_name (mk_dirent name inum)) = 0 \<longleftrightarrow> cname n = cname name"
    using namecmp_iff [OF assms(4)] cname_cname [of name] by (simp add: d)
  then show ?thesis using c l d by (simp add: e de_inum_def get16_to_le DIRSIZ_def min_def)
qed

text \<open>A name of 15 bytes is cut, and found under any name that agrees with it up to the cut.\<close>

theorem mk_dirent_found_witness:
  "length (mk_dirent (replicate 15 97) 7) = 16 \<and> de_inum (mk_dirent (replicate 15 97) 7) = 7 \<and>
   namecmp (replicate 14 97) (de_name (mk_dirent (replicate 15 97) 7)) = 0 \<and> namecmp (replicate 13 97) (de_name (mk_dirent (replicate 15 97) 7)) \<noteq> 0"
  using mk_dirent_found [of "replicate 15 97" "replicate 14 97" 7] mk_dirent_found [of "replicate 15 97" "replicate 13 97" 7] by auto

end
