(* ===== verification/File.thy ===== *)
theory File
  imports Dir
begin

text \<open>
  Open files: \<^verbatim>\<open>kernel/file.c\<close> and the allocation of pipes in \<^verbatim>\<open>kernel/pipe.c\<close>.  A file is its index in the table.
  The device switch is a function of the major number; the console is the only device.
\<close>

datatype filetype = FD_NONE | FD_PIPE | FD_INODE | FD_DEVICE

record openfile =
  f_type :: filetype
  f_ref :: int
  f_readable :: bool
  f_writable :: bool
  f_pipe :: addr
  f_ip :: nat
  f_off :: uint
  f_major :: ushort

record kfile = kfs +
  ftable :: "nat \<Rightarrow> openfile"
  devsw_console :: bool
  st_pad :: "uchar list"

definition NFILE :: nat where "NFILE = 100"
definition NDEV :: int where "NDEV = 10"
definition CONSOLE :: int where "CONSOLE = 1"

definition upd_file :: "nat \<Rightarrow> (openfile \<Rightarrow> openfile) \<Rightarrow> ('z kfile_scheme, unit) km" where
  "upd_file f g = modify (\<lambda>s. s\<lparr>ftable := (ftable s)(f := g (ftable s f))\<rparr>)"

definition get_file :: "nat \<Rightarrow> ('z kfile_scheme, openfile) km" where
  "get_file f = gets (\<lambda>s. ftable s f)"

definition fileinit :: "('z kfile_scheme, unit) km" where
  "fileinit = initlock FtableLock"

definition filealloc :: "('z kfile_scheme, nat option) km" where
  "filealloc =
     thn (acquire FtableLock)
    (bind (gets (\<lambda>s. find (\<lambda>f. f_ref (ftable s f) = 0) [0..<NFILE])) (\<lambda>r.
     case r of
       Some f \<Rightarrow> thn (upd_file f (\<lambda>x. x\<lparr>f_ref := 1\<rparr>)) (thn (release FtableLock) (ret (Some f)))
     | None \<Rightarrow> thn (release FtableLock) (ret None)))"

definition filedup :: "nat \<Rightarrow> ('z kfile_scheme, nat) km" where
  "filedup f =
     thn (acquire FtableLock)
    (bind (get_file f) (\<lambda>x.
     thn (panic_if (f_ref x < 1) ''filedup'')
    (thn (upd_file f (\<lambda>x. x\<lparr>f_ref := f_ref x + 1\<rparr>))
    (thn (release FtableLock) (ret f)))))"

definition fileclose :: "nat \<Rightarrow> ('z kfile_scheme, unit) km" where
  "fileclose f =
     thn (acquire FtableLock)
    (bind (get_file f) (\<lambda>x.
     thn (panic_if (f_ref x < 1) ''fileclose'')
    (thn (upd_file f (\<lambda>x. x\<lparr>f_ref := f_ref x - 1\<rparr>))
    (bind (get_file f) (\<lambda>ff.
     if f_ref ff > 0 then release FtableLock
     else
       thn (upd_file f (\<lambda>x. x\<lparr>f_ref := 0, f_type := FD_NONE\<rparr>))
      (thn (release FtableLock)
      (if f_type ff = FD_PIPE then pipeclose (f_pipe ff) (f_writable ff)
       else if f_type ff = FD_INODE \<or> f_type ff = FD_DEVICE then
         thn begin_op (thn (iput (f_ip ff)) end_op)
       else skip)))))))"

text \<open>\<open>struct stat\<close> as it is copied out, with the 4 bytes of padding before the size, which hold whatever was
  on the stack (\<open>st_pad\<close>).\<close>

definition encode_stat :: "uchar list \<Rightarrow> stat \<Rightarrow> uchar list" where
  "encode_stat pad st = to_le 4 (st_dev st) @ to_le 4 (st_ino st) @ to_le 2 (st_type st) @ to_le 2 (st_nlink st) @
     pad @ to_le 8 (st_size st)"

definition filestat :: "nat \<Rightarrow> addr \<Rightarrow> ('z kfile_scheme, int) km" where
  "filestat f addr =
     bind myproc (\<lambda>p.
     bind (get_file f) (\<lambda>x.
     if f_type x = FD_INODE \<or> f_type x = FD_DEVICE then
       thn (ilock (f_ip x))
      (bind (stati (f_ip x)) (\<lambda>st.
       thn (iunlock (f_ip x))
      (bind (get_proc p) (\<lambda>q.
       bind (gets st_pad) (\<lambda>pad.
       bind (copyout_bytes (p_pagetable q) addr (encode_stat pad st)) (\<lambda>r.
       if r < 0 then ret (-1) else ret 0))))))
     else ret (-1)))"

definition has_dev :: "ushort \<Rightarrow> ('z kfile_scheme, bool) km" where
  "has_dev major = bind (gets devsw_console) (\<lambda>c.
     ret (0 \<le> sint major \<and> sint major < NDEV \<and> sint major = CONSOLE \<and> c))"

definition fileread :: "nat \<Rightarrow> addr \<Rightarrow> int \<Rightarrow> ('z kfile_scheme, int) km" where
  "fileread f addr n =
     bind (get_file f) (\<lambda>x.
     if \<not> f_readable x then ret (-1)
     else case f_type x of
       FD_PIPE \<Rightarrow> piperead (f_pipe x) addr n
     | FD_DEVICE \<Rightarrow>
         bind (has_dev (f_major x)) (\<lambda>d. if \<not> d then ret (-1) else consoleread True addr n)
     | FD_INODE \<Rightarrow>
         thn (ilock (f_ip x))
        (bind (readi (f_ip x) (Some addr) (f_off x) (word_of_int n)) (\<lambda>(r, _).
         thn (if r > 0 then upd_file f (\<lambda>x. x\<lparr>f_off := f_off x + word_of_int r\<rparr>) else skip)
        (thn (iunlock (f_ip x)) (ret r))))
     | FD_NONE \<Rightarrow> panic ''fileread'')"

text \<open>The loop of \<open>filewrite\<close>: at most 3 blocks in one transaction.\<close>

definition write_max :: int where
  "write_max = int ((MAXOPBLOCKS - 1 - 1 - 2) div 2 * BSIZE)"

function filewrite_loop :: "nat \<Rightarrow> addr \<Rightarrow> int \<Rightarrow> int \<Rightarrow> ('z kfile_scheme, int) km" where
  "filewrite_loop f addr n i =
     (if \<not> i < n then ret i
      else let n1 = min (n - i) write_max in
        thn begin_op
       (bind (get_file f) (\<lambda>x.
        thn (ilock (f_ip x))
       (bind (writei (f_ip x) (Inl (addr + of_int i)) (f_off x) (word_of_int n1)) (\<lambda>r.
        thn (if r > 0 then upd_file f (\<lambda>x. x\<lparr>f_off := f_off x + word_of_int r\<rparr>) else skip)
       (thn (iunlock (f_ip x))
       (thn end_op
       (if r \<noteq> n1 then ret i else filewrite_loop f addr n (i + n1)))))))))"
  by pat_completeness auto
termination
  by (relation "measure (\<lambda>(f, a, n, i). nat (n - i))") (auto simp: write_max_def MAXOPBLOCKS_def BSIZE_def)

declare filewrite_loop.simps [simp del]

definition filewrite :: "nat \<Rightarrow> addr \<Rightarrow> int \<Rightarrow> ('z kfile_scheme, int) km" where
  "filewrite f addr n =
     bind (get_file f) (\<lambda>x.
     if \<not> f_writable x then ret (-1)
     else case f_type x of
       FD_PIPE \<Rightarrow> pipewrite (f_pipe x) addr n
     | FD_DEVICE \<Rightarrow>
         bind (has_dev (f_major x)) (\<lambda>d. if \<not> d then ret (-1) else consolewrite True addr n 0)
     | FD_INODE \<Rightarrow> bind (filewrite_loop f addr n 0) (\<lambda>i. ret (if i = n then n else -1))
     | FD_NONE \<Rightarrow> panic ''filewrite'')"

text \<open>\<open>pipealloc\<close>; the bytes of a new pipe are whatever the page holds.\<close>

definition pipealloc_bad :: "nat option \<Rightarrow> nat option \<Rightarrow> ('z kfile_scheme, (nat \<times> nat) option) km" where
  "pipealloc_bad f0 f1 =
     thn (case f0 of Some f \<Rightarrow> fileclose f | None \<Rightarrow> skip)
    (thn (case f1 of Some f \<Rightarrow> fileclose f | None \<Rightarrow> skip) (ret None))"

definition pipealloc :: "('z kfile_scheme, (nat \<times> nat) option) km" where
  "pipealloc =
     bind filealloc (\<lambda>r0. case r0 of None \<Rightarrow> pipealloc_bad None None | Some f0 \<Rightarrow>
     bind filealloc (\<lambda>r1. case r1 of None \<Rightarrow> pipealloc_bad (Some f0) None | Some f1 \<Rightarrow>
     bind kalloc (\<lambda>pi.
     if pi = 0 then pipealloc_bad (Some f0) (Some f1)
     else
       bind (gets (\<lambda>s. mload (mem s) (pi + 24) PIPESIZE)) (\<lambda>d.
       thn (upd_pipe pi (\<lambda>_. \<lparr>data = d, nread = 0, nwrite = 0, readopen = 1, writeopen = 1\<rparr>))
      (thn (initlock (PipeLock pi))
      (thn (upd_file f0 (\<lambda>x. x\<lparr>f_type := FD_PIPE, f_readable := True, f_writable := False, f_pipe := pi\<rparr>))
      (thn (upd_file f1 (\<lambda>x. x\<lparr>f_type := FD_PIPE, f_readable := False, f_writable := True, f_pipe := pi\<rparr>))
           (ret (Some (f0, f1))))))))))"

subsection \<open>References to open files\<close>

lemma upd_file_run [run_simps]: "upd_file f g s = Ok () (s\<lparr>ftable := (ftable s)(f := g (ftable s f))\<rparr>)"
  by (simp add: upd_file_def run_simps)

lemma get_file_run [run_simps]: "get_file f s = Ok (ftable s f) s"
  by (simp add: get_file_def run_simps)

lemma filedup_run:
  assumes "held s = {}" "f_ref (ftable s f) \<ge> 1"
  shows "filedup f s = Ok f (s\<lparr>ftable := (ftable s)(f := (ftable s f)\<lparr>f_ref := f_ref (ftable s f) + 1\<rparr>)\<rparr>)"
  using assms by (simp add: filedup_def run_simps)

text \<open>C31: closing a duplicated file takes back what \<open>filedup\<close> did and nothing else; a file that nobody refers to can be
  neither duplicated nor closed.\<close>

theorem dup_close:
  assumes "held s = {}"
  shows "if f_ref (ftable s f) < 1 then filedup f s = Panic ''filedup'' \<and> fileclose f s = Panic ''fileclose''
    else bind (filedup f) fileclose s = Ok () s"
proof (cases "f_ref (ftable s f) < 1")
  case True
  then show ?thesis using assms by (simp add: filedup_def fileclose_def run_simps)
next
  case False
  let ?x = "ftable s f"
  have e: "(ftable s)(f := ?x\<lparr>f_ref := f_ref ?x + 1 - 1\<rparr>) = ftable s" by (simp add: fun_eq_iff)
  have "bind (filedup f) fileclose s = fileclose f (s\<lparr>ftable := (ftable s)(f := ?x\<lparr>f_ref := f_ref ?x + 1\<rparr>)\<rparr>)"
    using filedup_run [OF assms, of f] False by (simp add: bind_run)
  then show ?thesis using False assms e by (simp add: fileclose_def run_simps)
qed

text \<open>C32: \<open>filealloc\<close> hands out the first file nobody refers to, with one reference, and fails only when all
  \<open>NFILE\<close> are in use.\<close>

theorem filealloc_spec:
  assumes "held s = {}"
  shows "(case filealloc s of
      Ok (Some f) t \<Rightarrow> f < NFILE \<and> f_ref (ftable s f) = 0 \<and> (\<forall>g. g < f \<longrightarrow> f_ref (ftable s g) \<noteq> 0) \<and>
        t = s\<lparr>ftable := (ftable s)(f := (ftable s f)\<lparr>f_ref := 1\<rparr>)\<rparr>
    | Ok None t \<Rightarrow> t = s \<and> (\<forall>g. g < NFILE \<longrightarrow> f_ref (ftable s g) \<noteq> 0)
    | _ \<Rightarrow> False)"
proof (cases "find (\<lambda>f. f_ref (ftable s f) = 0) [0..<NFILE]")
  case None
  then have "\<forall>g. g < NFILE \<longrightarrow> f_ref (ftable s g) \<noteq> 0" by (auto simp: find_None_iff)
  then show ?thesis using assms None by (simp add: filealloc_def run_simps)
next
  case (Some f)
  then obtain i where "i < NFILE" "f = i" "f_ref (ftable s f) = 0" "\<forall>j<i. f_ref (ftable s j) \<noteq> 0"
    by (auto simp: find_Some_iff)
  then show ?thesis using assms Some by (simp add: filealloc_def run_simps)
qed

end
