(* ===== verification/Proc2.thy ===== *)
theory Proc2
  imports File
begin

text \<open>
  \<^verbatim>\<open>kernel/proc.c\<close>, second part: creating a process by copying another, ending one, and waiting for children.
  These use the file layer, so they come after it.
\<close>

text \<open>\<open>safestrcpy\<close> between name fields of 16 bytes.\<close>

definition copy_name :: "uchar list \<Rightarrow> uchar list \<Rightarrow> uchar list" where
  "copy_name old src = (let c = take 15 (takeWhile (\<lambda>x. x \<noteq> 0) src) in c @ [0] @ drop (length c + 1) old)"

text \<open>Fields of the trapframe, at their offsets.\<close>

definition TF_EPC :: addr where "TF_EPC = 24"
definition TF_SP :: addr where "TF_SP = 48"
definition TF_A0 :: addr where "TF_A0 = 112"
definition TF_A1 :: addr where "TF_A1 = 120"
definition TF_A7 :: addr where "TF_A7 = 168"

definition tf_get :: "nat \<Rightarrow> addr \<Rightarrow> ('z kproc_scheme, uint64) km" where
  "tf_get p off = bind (get_proc p) (\<lambda>q. ld64 (p_trapframe q + off))"

definition tf_set :: "nat \<Rightarrow> addr \<Rightarrow> uint64 \<Rightarrow> ('z kproc_scheme, unit) km" where
  "tf_set p off v = bind (get_proc p) (\<lambda>q. st64 (p_trapframe q + off) v)"

definition set_state :: "nat \<Rightarrow> procstate \<Rightarrow> ('z kproc_scheme, unit) km" where
  "set_state p st = upd_proc p (\<lambda>q. q\<lparr>p_state := st\<rparr>)"

definition proc_cwd :: "nat \<Rightarrow> ('z kproc_scheme, nat) km" where
  "proc_cwd p = bind (get_proc p) (\<lambda>q. case p_cwd q of None \<Rightarrow> panic ''kerneltrap'' | Some ip \<Rightarrow> ret ip)"

subsection \<open>Creating processes\<close>

definition userinit :: "addr \<Rightarrow> ('z kfile_scheme, unit) km" where
  "userinit initcode =
     bind allocproc (\<lambda>r. case r of None \<Rightarrow> panic ''kerneltrap'' | Some p \<Rightarrow>
     thn (modify (\<lambda>s. s\<lparr>initproc := Some p\<rparr>))
    (bind (get_proc p) (\<lambda>q.
     thn (uvmfirst (p_pagetable q) initcode 52)
    (thn (upd_proc p (\<lambda>q. q\<lparr>p_sz := PGSIZE\<rparr>))
    (thn (tf_set p TF_EPC 0)
    (thn (tf_set p TF_SP PGSIZE)
    (thn (upd_proc p (\<lambda>q. q\<lparr>p_name := copy_name (p_name q) (bytes ''initcode'')\<rparr>))
    (bind (namei [ch_slash]) (\<lambda>cwd.
     thn (upd_proc p (\<lambda>q. q\<lparr>p_cwd := cwd\<rparr>))
    (thn (set_state p RUNNABLE)
         (release (ProcLock p))))))))))))"

definition fork :: "('z kfile_scheme, int) km" where
  "fork =
     bind myproc (\<lambda>p.
     bind allocproc (\<lambda>r. case r of None \<Rightarrow> ret (-1) | Some np \<Rightarrow>
     bind (get_proc p) (\<lambda>q.
     bind (get_proc np) (\<lambda>nq.
     bind (uvmcopy (p_pagetable q) (p_pagetable nq) (p_sz q)) (\<lambda>c.
     if c < 0 then thn (freeproc np) (thn (release (ProcLock np)) (ret (-1)))
     else
       thn (upd_proc np (\<lambda>x. x\<lparr>p_sz := p_sz q\<rparr>))
      (thn (modify (\<lambda>s. s\<lparr>mem := mstore (mem s) (p_trapframe nq) (mload (mem s) (p_trapframe q) 288)\<rparr>))
      (thn (tf_set np TF_A0 0)
      (thn (forn 0 NOFILE (\<lambda>i.
             case p_ofile q i of
               None \<Rightarrow> skip
             | Some f \<Rightarrow> bind (filedup f) (\<lambda>g. upd_proc np (\<lambda>x. x\<lparr>p_ofile := (p_ofile x)(i := Some g)\<rparr>))))
      (bind (proc_cwd p) (\<lambda>cwd.
       bind (idup cwd) (\<lambda>ip.
       thn (upd_proc np (\<lambda>x. x\<lparr>p_cwd := Some ip\<rparr>))
      (thn (upd_proc np (\<lambda>x. x\<lparr>p_name := copy_name (p_name x) (p_name q)\<rparr>))
      (bind (get_proc np) (\<lambda>nq.
       let pid = p_pid nq in
       thn (release (ProcLock np))
      (thn (acquire WaitLock)
      (thn (upd_proc np (\<lambda>x. x\<lparr>p_parent := Some p\<rparr>))
      (thn (release WaitLock)
      (thn (acquire (ProcLock np))
      (thn (set_state np RUNNABLE)
      (thn (release (ProcLock np))
           (ret pid)))))))))))))))))))))"

subsection \<open>Ending processes\<close>

definition reparent :: "nat \<Rightarrow> ('z kproc_scheme, unit) km" where
  "reparent p = for_proc NPROC (\<lambda>pp.
     bind (get_proc pp) (\<lambda>q.
     if p_parent q = Some p then
       bind (gets initproc) (\<lambda>i.
       thn (upd_proc pp (\<lambda>q. q\<lparr>p_parent := i\<rparr>))
           (case i of Some ip \<Rightarrow> wakeup (ChanProc ip) | None \<Rightarrow> skip))
     else skip))"

definition exit :: "int \<Rightarrow> ('z kfile_scheme, unit) km" where
  "exit status =
     bind myproc (\<lambda>p.
     bind (gets initproc) (\<lambda>ini.
     thn (panic_if (Some p = ini) ''init exiting'')
    (thn (forn 0 NOFILE (\<lambda>fd.
       bind (get_proc p) (\<lambda>q.
       case p_ofile q fd of
         None \<Rightarrow> skip
       | Some f \<Rightarrow> thn (fileclose f) (upd_proc p (\<lambda>q. q\<lparr>p_ofile := (p_ofile q)(fd := None)\<rparr>)))))
    (thn begin_op
    (bind (proc_cwd p) (\<lambda>cwd.
     thn (iput cwd)
    (thn end_op
    (thn (upd_proc p (\<lambda>q. q\<lparr>p_cwd := None\<rparr>))
    (thn (acquire WaitLock)
    (thn (reparent p)
    (bind (get_proc p) (\<lambda>q.
     thn (case p_parent q of Some pp \<Rightarrow> wakeup (ChanProc pp) | None \<Rightarrow> skip)
    (thn (acquire (ProcLock p))
    (bind (gets ticks) (\<lambda>now.
     thn (upd_proc p (\<lambda>q. q\<lparr>p_xstate := status, p_state := ZOMBIE, p_etime := now\<rparr>))
    (thn (release WaitLock)
    (thn (sched (ChanProc p))
         (panic ''zombie exit''))))))))))))))))))"

subsection \<open>Waiting for a child\<close>

text \<open>The scan for an exited child: \<open>Inl\<close> with the result of the call, or \<open>Inr\<close> whether there are children.\<close>

primrec wait_scan :: "nat \<Rightarrow> nat \<Rightarrow> addr \<Rightarrow> bool \<Rightarrow> ('z kproc_scheme, int + bool) km" where
  "wait_scan 0 p addr havekids = ret (Inr havekids)"
| "wait_scan (Suc k) p addr havekids =
     (let pp = NPROC - Suc k in
      bind (get_proc pp) (\<lambda>q.
      if p_parent q = Some p then
        thn (acquire (ProcLock pp))
       (bind (get_proc pp) (\<lambda>q.
        if p_state q = ZOMBIE then
          bind (get_proc p) (\<lambda>me.
          bind (if addr \<noteq> 0 then copyout_bytes (p_pagetable me) addr (to_le 4 (word_of_int (p_xstate q) :: uint)) else ret 0) (\<lambda>e.
          if e < 0 then thn (release (ProcLock pp)) (thn (release WaitLock) (ret (Inl (-1))))
          else thn (freeproc pp) (thn (release (ProcLock pp)) (thn (release WaitLock) (ret (Inl (p_pid q)))))))
        else thn (release (ProcLock pp)) (wait_scan k p addr True)))
      else wait_scan k p addr havekids))"

definition wait_loop :: "nat \<Rightarrow> addr \<Rightarrow> ('z kproc_scheme, int) km" where
  "wait_loop p addr =
     bind (wait_scan NPROC p addr False) (\<lambda>r.
     case r of
       Inl pid \<Rightarrow> ret pid
     | Inr havekids \<Rightarrow>
         bind (if \<not> havekids then ret 1 else killed p) (\<lambda>k.
         if k \<noteq> 0 then thn (release WaitLock) (ret (-1))
         else thn (sleep (ChanProc p) WaitLock) (ret (-1))))"

definition wait :: "addr \<Rightarrow> ('z kproc_scheme, int) km" where
  "wait addr = bind myproc (\<lambda>p. thn (acquire WaitLock) (wait_loop p addr))"

definition wait_resume :: "addr \<Rightarrow> ('z kproc_scheme, int) km" where
  "wait_resume addr = bind myproc (\<lambda>p. thn (sleep_resume WaitLock) (wait_loop p addr))"

text \<open>\<open>waitx\<close> also reports the waiting and the running time of the child, through pointers to variables of
  the caller whose values before the call are \<open>wt\<close> and \<open>rt\<close>.\<close>

primrec waitx_scan :: "nat \<Rightarrow> nat \<Rightarrow> addr \<Rightarrow> bool \<Rightarrow> uint \<Rightarrow> uint \<Rightarrow> ('z kproc_scheme, (int \<times> uint \<times> uint) + bool) km" where
  "waitx_scan 0 p addr havekids wt rt = ret (Inr havekids)"
| "waitx_scan (Suc k) p addr havekids wt rt =
     (let np = NPROC - Suc k in
      bind (get_proc np) (\<lambda>q.
      if p_parent q = Some p then
        thn (acquire (ProcLock np))
       (bind (get_proc np) (\<lambda>q.
        if p_state q = ZOMBIE then
          let rtime = p_rtime q; wtime = p_etime q - p_ctime q - p_rtime q in
          bind (get_proc p) (\<lambda>me.
          bind (if addr \<noteq> 0 then copyout_bytes (p_pagetable me) addr (to_le 4 (word_of_int (p_xstate q) :: uint)) else ret 0) (\<lambda>e.
          if e < 0 then thn (release (ProcLock np)) (thn (release WaitLock) (ret (Inl (-1, wtime, rtime))))
          else thn (freeproc np) (thn (release (ProcLock np)) (thn (release WaitLock) (ret (Inl (p_pid q, wtime, rtime)))))))
        else thn (release (ProcLock np)) (waitx_scan k p addr True wt rt)))
      else waitx_scan k p addr havekids wt rt))"

definition waitx_loop :: "nat \<Rightarrow> addr \<Rightarrow> uint \<Rightarrow> uint \<Rightarrow> ('z kproc_scheme, int \<times> uint \<times> uint) km" where
  "waitx_loop p addr wt rt =
     bind (waitx_scan NPROC p addr False wt rt) (\<lambda>r.
     case r of
       Inl res \<Rightarrow> ret res
     | Inr havekids \<Rightarrow>
         bind (get_proc p) (\<lambda>q.
         if \<not> havekids \<or> p_killed q \<noteq> 0 then thn (release WaitLock) (ret (-1, wt, rt))
         else thn (sleep (ChanProc p) WaitLock) (ret (-1, wt, rt))))"

definition waitx :: "addr \<Rightarrow> uint \<Rightarrow> uint \<Rightarrow> ('z kproc_scheme, int \<times> uint \<times> uint) km" where
  "waitx addr wt rt = bind myproc (\<lambda>p. thn (acquire WaitLock) (waitx_loop p addr wt rt))"

definition waitx_resume :: "addr \<Rightarrow> uint \<Rightarrow> uint \<Rightarrow> ('z kproc_scheme, int \<times> uint \<times> uint) km" where
  "waitx_resume addr wt rt = bind myproc (\<lambda>p. thn (sleep_resume WaitLock) (waitx_loop p addr wt rt))"

subsection \<open>Waiting without children\<close>

lemma wait_scan_none:
  assumes "\<forall>q. q < NPROC \<longrightarrow> p_parent (procs s q) \<noteq> Some p"
  shows "k \<le> NPROC \<Longrightarrow> wait_scan k p addr b s = Ok (Inr b) s"
proof (induction k)
  case (Suc k)
  then have "p_parent (procs s (NPROC - Suc k)) \<noteq> Some p" using assms by simp
  then show ?case using Suc by (simp add: run_simps Let_def)
qed (simp add: run_simps)

lemma waitx_scan_none:
  assumes "\<forall>q. q < NPROC \<longrightarrow> p_parent (procs s q) \<noteq> Some p"
  shows "k \<le> NPROC \<Longrightarrow> waitx_scan k p addr b wt rt s = Ok (Inr b) s"
proof (induction k)
  case (Suc k)
  then have "p_parent (procs s (NPROC - Suc k)) \<noteq> Some p" using assms by simp
  then show ?case using Suc by (simp add: run_simps Let_def)
qed (simp add: run_simps)

text \<open>C25: a process without children does not wait: \<open>wait\<close> and \<open>waitx\<close> return -1 and change nothing, and \<open>waitx\<close> leaves
  the caller's two variables as they were.\<close>

theorem wait_childless:
  assumes "cur s = Some p" "held s = {}" "\<forall>q. q < NPROC \<longrightarrow> p_parent (procs s q) \<noteq> Some p"
  shows "wait addr s = Ok (-1) s \<and> waitx addr wt rt s = Ok (-1, wt, rt) s"
proof -
  let ?s = "s\<lparr>held := {WaitLock}\<rparr>"
  have a: "\<forall>q. q < NPROC \<longrightarrow> p_parent (procs ?s q) \<noteq> Some p" using assms(3) by simp
  show ?thesis using assms(1,2) wait_scan_none [OF a, of NPROC addr False] waitx_scan_none [OF a, of NPROC addr False wt rt]
    by (simp add: wait_def waitx_def wait_loop_def waitx_loop_def run_simps)
qed

end
