(* ===== verification/Syscall.thy ===== *)
theory Syscall
  imports Proc2
begin

text \<open>
  Fetching system call arguments (\<^verbatim>\<open>kernel/syscall.c\<close>) and the system calls about processes
  (\<^verbatim>\<open>kernel/sysproc.c\<close>).  A buffer on the kernel stack is a list of bytes; a string fetched into one is
  returned as its bytes up to the NUL.  A handler returns the \<open>uint64\<close> that goes into \<open>a0\<close>.
\<close>

subsection \<open>Arguments\<close>

definition get64 :: "uchar list \<Rightarrow> nat \<Rightarrow> uint64" where
  "get64 d off = of_le (take 8 (drop off d))"

definition fetchaddr :: "addr \<Rightarrow> ('z kproc_scheme, uint64 option) km" where
  "fetchaddr addr =
     bind myproc (\<lambda>p.
     bind (get_proc p) (\<lambda>q.
     if addr \<ge> p_sz q \<or> addr + 8 > p_sz q then ret None
     else bind (copyin_bytes (p_pagetable q) addr 8) (\<lambda>r. ret (map_option of_le r))))"

text \<open>\<open>copyinstr\<close> into a buffer on the stack.\<close>

function copyinstr_bytes :: "addr \<Rightarrow> addr \<Rightarrow> nat \<Rightarrow> ('z kmem_scheme, uchar list option) km" where
  "copyinstr_bytes pagetable srcva mx =
     (if \<not> mx > 0 then ret None
      else let va0 = PGROUNDDOWN srcva in
        bind (walkaddr pagetable va0) (\<lambda>pa0.
        if pa0 = 0 then ret None
        else let n = min mx (Suc (4095 - unat (srcva - va0))) in
          bind (gets (\<lambda>s. mload (mem s) (pa0 + (srcva - va0)) n)) (\<lambda>bs.
          if 0 \<in> set bs then ret (Some (takeWhile (\<lambda>c. c \<noteq> 0) bs))
          else bind (copyinstr_bytes pagetable (va0 + PGSIZE) (mx - n)) (\<lambda>r.
            ret (map_option (\<lambda>cs. bs @ cs) r)))))"
  by pat_completeness auto
termination by (relation "measure (\<lambda>(pt, va, mx). mx)") auto

declare copyinstr_bytes.simps [simp del]

text \<open>\<open>fetchstr\<close> into a page of the kernel, and into a buffer on the stack.\<close>

definition fetchstr :: "addr \<Rightarrow> addr \<Rightarrow> uint64 \<Rightarrow> ('z kproc_scheme, int) km" where
  "fetchstr addr buf mx =
     bind myproc (\<lambda>p.
     bind (get_proc p) (\<lambda>q.
     bind (copyinstr (p_pagetable q) buf addr mx) (\<lambda>r.
     if r < 0 then ret (-1)
     else bind (gets (\<lambda>s. strlen (mem s) buf)) (\<lambda>n.
       case n of Some k \<Rightarrow> ret (int k) | None \<Rightarrow> panic ''kerneltrap''))))"

definition fetchstr_buf :: "addr \<Rightarrow> nat \<Rightarrow> ('z kproc_scheme, uchar list option) km" where
  "fetchstr_buf addr mx =
     bind myproc (\<lambda>p. bind (get_proc p) (\<lambda>q. copyinstr_bytes (p_pagetable q) addr mx))"

definition argraw :: "int \<Rightarrow> ('z kproc_scheme, uint64) km" where
  "argraw n = bind myproc (\<lambda>p.
     if n = 0 then tf_get p 112
     else if n = 1 then tf_get p 120
     else if n = 2 then tf_get p 128
     else if n = 3 then tf_get p 136
     else if n = 4 then tf_get p 144
     else if n = 5 then tf_get p 152
     else panic ''argraw'')"

definition argint :: "int \<Rightarrow> ('z kproc_scheme, int) km" where
  "argint n = bind (argraw n) (\<lambda>v. ret (sint (ucast v :: uint)))"

definition argaddr :: "int \<Rightarrow> ('z kproc_scheme, uint64) km" where
  "argaddr n = argraw n"

definition argstr :: "int \<Rightarrow> nat \<Rightarrow> ('z kproc_scheme, uchar list option) km" where
  "argstr n mx = bind (argaddr n) (\<lambda>addr. fetchstr_buf addr mx)"

subsection \<open>System calls about processes\<close>

definition sys_exit :: "('z kfile_scheme, uint64) km" where
  "sys_exit = bind (argint 0) (\<lambda>n. thn (exit n) (ret 0))"

definition sys_getpid :: "('z kfile_scheme, uint64) km" where
  "sys_getpid = bind myproc (\<lambda>p. bind (get_proc p) (\<lambda>q. ret (word_of_int (p_pid q))))"

definition sys_fork :: "('z kfile_scheme, uint64) km" where
  "sys_fork = bind fork (\<lambda>r. ret (word_of_int r))"

definition sys_wait :: "('z kfile_scheme, uint64) km" where
  "sys_wait = bind (argaddr 0) (\<lambda>p. bind (wait p) (\<lambda>r. ret (word_of_int r)))"

definition sys_sbrk :: "('z kfile_scheme, uint64) km" where
  "sys_sbrk =
     bind (argint 0) (\<lambda>n.
     bind myproc (\<lambda>p.
     bind (get_proc p) (\<lambda>q.
     let addr = p_sz q in
     bind (growproc n) (\<lambda>r. if r < 0 then ret (-1) else ret addr))))"

text \<open>The test compares an unsigned number of ticks with the \<open>int\<close> argument, converted to unsigned.\<close>

definition sys_sleep_loop :: "uint \<Rightarrow> int \<Rightarrow> ('z kfile_scheme, uint64) km" where
  "sys_sleep_loop ticks0 n =
     bind (gets ticks) (\<lambda>now.
     if now - ticks0 < word_of_int n then
       bind myproc (\<lambda>p.
       bind (killed p) (\<lambda>k.
       if k \<noteq> 0 then thn (release TicksLock) (ret (-1))
       else thn (sleep ChanTicks TicksLock) (ret 0)))
     else thn (release TicksLock) (ret 0))"

definition sys_sleep :: "('z kfile_scheme, uint64) km" where
  "sys_sleep =
     bind (argint 0) (\<lambda>n.
     thn (acquire TicksLock)
    (bind (gets ticks) (\<lambda>ticks0. sys_sleep_loop ticks0 n)))"

definition sys_sleep_resume :: "uint \<Rightarrow> int \<Rightarrow> ('z kfile_scheme, uint64) km" where
  "sys_sleep_resume ticks0 n = thn (sleep_resume TicksLock) (sys_sleep_loop ticks0 n)"

definition sys_kill :: "('z kfile_scheme, uint64) km" where
  "sys_kill = bind (argint 0) (\<lambda>pid. bind (kill pid) (\<lambda>r. ret (word_of_int r)))"

definition sys_uptime :: "('z kfile_scheme, uint64) km" where
  "sys_uptime =
     thn (acquire TicksLock)
    (bind (gets ticks) (\<lambda>xticks.
     thn (release TicksLock) (ret (ucast xticks))))"

text \<open>\<open>wtime0\<close> and \<open>rtime0\<close> are what the uninitialised variables of \<open>sys_waitx\<close> hold.\<close>

definition sys_waitx :: "uint \<Rightarrow> uint \<Rightarrow> ('z kfile_scheme, uint64) km" where
  "sys_waitx wtime0 rtime0 =
     bind (argaddr 0) (\<lambda>addr.
     bind (argaddr 1) (\<lambda>addr1.
     bind (argaddr 2) (\<lambda>addr2.
     bind (waitx addr wtime0 rtime0) (\<lambda>(r, wtime, rtime).
     bind myproc (\<lambda>p.
     bind (get_proc p) (\<lambda>q.
     bind (copyout_bytes (p_pagetable q) addr1 (to_le 4 wtime)) (\<lambda>c1.
     if c1 < 0 then ret (-1)
     else bind (copyout_bytes (p_pagetable q) addr2 (to_le 4 rtime)) (\<lambda>c2.
     if c2 < 0 then ret (-1)
     else ret (word_of_int r)))))))))"

subsection \<open>Sleeping for a negative time\<close>

text \<open>C36: the comparison of \<open>sys_sleep\<close> is unsigned: with a negative argument the call goes to sleep, although no tick
  need pass.\<close>

theorem sleep_negative:
  assumes "cur s = Some p" "held s = {TicksLock}" "p_killed (procs s p) = 0" "- (2 ^ 31) \<le> n" "n < 0"
  shows "\<exists>t. sys_sleep_loop (ticks s) n s = Sleep ChanTicks t \<and> p_state (procs t p) = SLEEPING"
proof -
  have "uint (word_of_int n :: uint) = n mod 2 ^ 32" by (simp add: unsigned_of_int take_bit_eq_mod)
  moreover have "(n + 2 ^ 32) mod 2 ^ 32 = n + 2 ^ 32" using assms(4,5) by (intro mod_pos_pos_trivial) simp_all
  moreover have "(n + 2 ^ 32) mod 2 ^ 32 = n mod 2 ^ 32" by (rule mod_add_self2)
  ultimately have "(0 :: uint) < word_of_int n" using assms(4) by (simp add: word_less_def)
  then show ?thesis using assms(1-3)
    by (simp add: sys_sleep_loop_def run_simps killed_run sleep_def sched_def insert_Diff_if)
qed

end
