(* ===== verification/Exec.thy ===== *)
theory Exec
  imports Syscall
begin

text \<open>
  \<^verbatim>\<open>kernel/exec.c\<close>: replacing the image of a process by a program from the file system.  The path is the list of
  its bytes; the argument vector is the list of the kernel addresses of its strings, without the final null
  pointer.
\<close>

definition ELF_MAGIC :: uint where "ELF_MAGIC = 0x464C457F"
definition ELF_PROG_LOAD :: uint where "ELF_PROG_LOAD = 1"
definition MAXARG :: nat where "MAXARG = 32"

text \<open>\<open>struct elfhdr\<close> and \<open>struct proghdr\<close> as they lie in the file.\<close>

record elfhdr =
  eh_magic :: uint
  eh_entry :: uint64
  eh_phoff :: uint64
  eh_phnum :: ushort

record proghdr =
  ph_type :: uint
  ph_flags :: uint
  ph_off :: uint64
  ph_vaddr :: uint64
  ph_filesz :: uint64
  ph_memsz :: uint64

definition elfhdr_size :: nat where "elfhdr_size = 64"
definition proghdr_size :: nat where "proghdr_size = 56"

definition decode_elfhdr :: "uchar list \<Rightarrow> elfhdr" where
  "decode_elfhdr d = \<lparr>eh_magic = get32 d 0, eh_entry = get64 d 24, eh_phoff = get64 d 32, eh_phnum = get16 d 56\<rparr>"

definition decode_proghdr :: "uchar list \<Rightarrow> proghdr" where
  "decode_proghdr d = \<lparr>ph_type = get32 d 0, ph_flags = get32 d 4, ph_off = get64 d 8, ph_vaddr = get64 d 16,
     ph_filesz = get64 d 32, ph_memsz = get64 d 40\<rparr>"

definition flags2perm :: "uint \<Rightarrow> uint64" where
  "flags2perm flags =
     (let perm = (if flags AND 1 \<noteq> 0 then PTE_X else 0)
      in if flags AND 2 \<noteq> 0 then perm OR PTE_W else perm)"

text \<open>The segment is read page by page into the physical pages.\<close>

function loadseg :: "addr \<Rightarrow> addr \<Rightarrow> nat \<Rightarrow> uint \<Rightarrow> nat \<Rightarrow> nat \<Rightarrow> ('z kfs_scheme, int) km" where
  "loadseg pagetable va ip offset sz i =
     (if \<not> i < sz then ret 0
      else bind (walkaddr pagetable (va + of_nat i)) (\<lambda>pa.
        thn (panic_if (pa = 0) ''loadseg: address should exist'')
       (let n = if sz - i < 4096 then sz - i else 4096 in
        bind (readi ip None (offset + of_nat i) (of_nat n)) (\<lambda>(r, bs).
        thn (modify (\<lambda>s. s\<lparr>mem := mstore (mem s) pa bs\<rparr>))
       (if r \<noteq> int n then ret (-1) else loadseg pagetable va ip offset sz (i + 4096))))))"
  by pat_completeness auto
termination by (relation "measure (\<lambda>(pt, va, ip, off, sz, i). sz - i)") auto

declare loadseg.simps [simp del]

text \<open>The loop over the program headers; \<open>k\<close> are still to come.  The result says whether it ran through, and the
  size reached.\<close>

primrec exec_load :: "nat \<Rightarrow> nat \<Rightarrow> addr \<Rightarrow> uint \<Rightarrow> uint64 \<Rightarrow> ('z kfs_scheme, bool \<times> uint64) km" where
  "exec_load 0 ip pagetable off sz = ret (True, sz)"
| "exec_load (Suc k) ip pagetable off sz =
     bind (readi ip None off (of_nat proghdr_size)) (\<lambda>(r, d).
     let ph = decode_proghdr d in
     if r \<noteq> int proghdr_size then ret (False, sz)
     else if ph_type ph \<noteq> ELF_PROG_LOAD then exec_load k ip pagetable (off + of_nat proghdr_size) sz
     else if ph_memsz ph < ph_filesz ph then ret (False, sz)
     else if ph_vaddr ph + ph_memsz ph < ph_vaddr ph then ret (False, sz)
     else if ph_vaddr ph mod PGSIZE \<noteq> 0 then ret (False, sz)
     else bind (uvmalloc pagetable sz (ph_vaddr ph + ph_memsz ph) (flags2perm (ph_flags ph))) (\<lambda>sz1.
       if sz1 = 0 then ret (False, sz)
       else bind (loadseg pagetable (ph_vaddr ph) ip (ucast (ph_off ph)) (unat (ucast (ph_filesz ph) :: uint)) 0) (\<lambda>l.
         if l < 0 then ret (False, sz1)
         else exec_load k ip pagetable (off + of_nat proghdr_size) sz1)))"

text \<open>Pushing the argument strings; \<open>ustack\<close> are the addresses pushed so far.\<close>

fun exec_args :: "addr list \<Rightarrow> addr \<Rightarrow> uint64 \<Rightarrow> uint64 \<Rightarrow> uint64 list \<Rightarrow>
    ('z kmem_scheme, (uint64 \<times> uint64 list) option) km" where
  "exec_args [] pagetable stackbase sp ustack = ret (Some (sp, ustack))"
| "exec_args (a # argv) pagetable stackbase sp ustack =
     (if length ustack \<ge> MAXARG then ret None
      else bind (gets (\<lambda>s. strlen (mem s) a)) (\<lambda>l.
        case l of
          None \<Rightarrow> panic ''kerneltrap''
        | Some k \<Rightarrow>
            let sp1 = sp - of_nat (k + 1); sp2 = sp1 - sp1 mod 16 in
            if sp2 < stackbase then ret None
            else bind (copyout pagetable sp2 a (of_nat (k + 1))) (\<lambda>r.
              if r < 0 then ret None
              else exec_args argv pagetable stackbase sp2 (ustack @ [sp2]))))"

definition exec_bad :: "addr \<Rightarrow> uint64 \<Rightarrow> nat option \<Rightarrow> ('z kfs_scheme, int) km" where
  "exec_bad pagetable sz ip =
     thn (if pagetable \<noteq> 0 then proc_freepagetable pagetable sz else skip)
    (thn (case ip of Some i \<Rightarrow> thn (iunlockput i) end_op | None \<Rightarrow> skip)
         (ret (-1)))"

text \<open>The program name kept for debugging: what follows the last slash.\<close>

definition last_elem :: "uchar list \<Rightarrow> uchar list" where
  "last_elem path = rev (takeWhile (\<lambda>c. c \<noteq> ch_slash) (rev path))"

text \<open>From the loaded image to the commit.\<close>

definition exec_commit :: "uchar list \<Rightarrow> addr list \<Rightarrow> addr \<Rightarrow> uint64 \<Rightarrow> uint64 \<Rightarrow> ('z kfs_scheme, int) km" where
  "exec_commit path argv pagetable sz0 entry =
     bind myproc (\<lambda>p.
     bind (get_proc p) (\<lambda>q.
     let oldsz = p_sz q; sz = PGROUNDUP sz0 in
     bind (uvmalloc pagetable sz (sz + 2 * PGSIZE) PTE_W) (\<lambda>sz1.
     if sz1 = 0 then exec_bad pagetable sz None
     else
       thn (uvmclear pagetable (sz1 - 2 * PGSIZE))
      (let stackbase = sz1 - PGSIZE in
       bind (exec_args argv pagetable stackbase sz1 []) (\<lambda>r.
       case r of
         None \<Rightarrow> exec_bad pagetable sz1 None
       | Some (sp, ustack) \<Rightarrow>
           let argc = length ustack;
               sp1 = sp - of_nat ((argc + 1) * 8);
               sp2 = sp1 - sp1 mod 16 in
           if sp2 < stackbase then exec_bad pagetable sz1 None
           else bind (copyout_bytes pagetable sp2 (concat (map (to_le 8) (ustack @ [0])))) (\<lambda>c.
             if c < 0 then exec_bad pagetable sz1 None
             else
               thn (tf_set p TF_A1 sp2)
              (thn (upd_proc p (\<lambda>q. q\<lparr>p_name := copy_name (p_name q) (last_elem path)\<rparr>))
              (bind (get_proc p) (\<lambda>q.
               let oldpagetable = p_pagetable q in
               thn (upd_proc p (\<lambda>q. q\<lparr>p_pagetable := pagetable\<rparr>))
              (thn (upd_proc p (\<lambda>q. q\<lparr>p_sz := sz1\<rparr>))
              (thn (tf_set p TF_EPC entry)
              (thn (tf_set p TF_SP sp2)
              (thn (proc_freepagetable oldpagetable oldsz)
                   (ret (int argc))))))))))))))) "

definition exec :: "uchar list \<Rightarrow> addr list \<Rightarrow> ('z kfs_scheme, int) km" where
  "exec path argv =
     bind myproc (\<lambda>p.
     thn begin_op
    (bind (namei path) (\<lambda>n.
     case n of
       None \<Rightarrow> thn end_op (ret (-1))
     | Some ip \<Rightarrow>
         thn (ilock ip)
        (bind (readi ip None 0 (of_nat elfhdr_size)) (\<lambda>(r, d).
         let elf = decode_elfhdr d in
         if r \<noteq> int elfhdr_size then exec_bad 0 0 (Some ip)
         else if eh_magic elf \<noteq> ELF_MAGIC then exec_bad 0 0 (Some ip)
         else bind (proc_pagetable p) (\<lambda>pagetable.
           if pagetable = 0 then exec_bad 0 0 (Some ip)
           else bind (exec_load (unat (eh_phnum elf)) ip pagetable (ucast (eh_phoff elf)) 0) (\<lambda>(b, sz).
             if \<not> b then exec_bad pagetable sz (Some ip)
             else thn (iunlockput ip) (thn end_op (exec_commit path argv pagetable sz (eh_entry elf))))))))))"

end
