(* ===== verification/Sysfile.thy ===== *)
theory Sysfile
  imports Exec Fcntl
begin

text \<open>
  The system calls about files (\<^verbatim>\<open>kernel/sysfile.c\<close>) and the dispatch of system calls (\<^verbatim>\<open>kernel/syscall.c\<close>).
\<close>

definition MAXPATH :: nat where "MAXPATH = 128"

subsection \<open>Descriptors\<close>

definition argfd :: "int \<Rightarrow> ('z kproc_scheme, (nat \<times> nat) option) km" where
  "argfd n =
     bind (argint n) (\<lambda>fd.
     if fd < 0 \<or> fd \<ge> int NOFILE then ret None
     else bind myproc (\<lambda>p. bind (get_proc p) (\<lambda>q.
       case p_ofile q (nat fd) of None \<Rightarrow> ret None | Some f \<Rightarrow> ret (Some (nat fd, f)))))"

definition set_ofile :: "nat \<Rightarrow> nat \<Rightarrow> nat option \<Rightarrow> ('z kproc_scheme, unit) km" where
  "set_ofile p fd f = upd_proc p (\<lambda>q. q\<lparr>p_ofile := (p_ofile q)(fd := f)\<rparr>)"

definition fdalloc :: "nat \<Rightarrow> ('z kproc_scheme, nat option) km" where
  "fdalloc f =
     bind myproc (\<lambda>p.
     bind (get_proc p) (\<lambda>q.
     case find (\<lambda>fd. p_ofile q fd = None) [0..<NOFILE] of
       Some fd \<Rightarrow> thn (set_ofile p fd (Some f)) (ret (Some fd))
     | None \<Rightarrow> ret None))"

definition sys_dup :: "('z kfile_scheme, uint64) km" where
  "sys_dup =
     bind (argfd 0) (\<lambda>a. case a of None \<Rightarrow> ret (-1) | Some (_, f) \<Rightarrow>
     bind (fdalloc f) (\<lambda>r. case r of None \<Rightarrow> ret (-1) | Some fd \<Rightarrow>
     thn (filedup f) (ret (of_nat fd))))"

definition sys_read :: "('z kfile_scheme, uint64) km" where
  "sys_read =
     bind (argaddr 1) (\<lambda>p.
     bind (argint 2) (\<lambda>n.
     bind (argfd 0) (\<lambda>a. case a of None \<Rightarrow> ret (-1) | Some (_, f) \<Rightarrow>
     bind (fileread f p n) (\<lambda>r. ret (word_of_int r)))))"

definition sys_write :: "('z kfile_scheme, uint64) km" where
  "sys_write =
     bind (argaddr 1) (\<lambda>p.
     bind (argint 2) (\<lambda>n.
     bind (argfd 0) (\<lambda>a. case a of None \<Rightarrow> ret (-1) | Some (_, f) \<Rightarrow>
     bind (filewrite f p n) (\<lambda>r. ret (word_of_int r)))))"

definition sys_close :: "('z kfile_scheme, uint64) km" where
  "sys_close =
     bind (argfd 0) (\<lambda>a. case a of None \<Rightarrow> ret (-1) | Some (fd, f) \<Rightarrow>
     bind myproc (\<lambda>p.
     thn (set_ofile p fd None)
    (thn (fileclose f) (ret 0))))"

definition sys_fstat :: "('z kfile_scheme, uint64) km" where
  "sys_fstat =
     bind (argaddr 1) (\<lambda>st.
     bind (argfd 0) (\<lambda>a. case a of None \<Rightarrow> ret (-1) | Some (_, f) \<Rightarrow>
     bind (filestat f st) (\<lambda>r. ret (word_of_int r))))"

subsection \<open>Links and directories\<close>

definition add_nlink :: "nat \<Rightarrow> ushort \<Rightarrow> ('z kfs_scheme, unit) km" where
  "add_nlink ip d = thn (upd_inode ip (\<lambda>i. i\<lparr>i_nlink := i_nlink i + d\<rparr>)) (iupdate ip)"

definition link_bad :: "nat \<Rightarrow> ('z kfile_scheme, uint64) km" where
  "link_bad ip = thn (ilock ip) (thn (add_nlink ip (-1)) (thn (iunlockput ip) (thn end_op (ret (-1)))))"

definition sys_link :: "('z kfile_scheme, uint64) km" where
  "sys_link =
     bind (argstr 0 MAXPATH) (\<lambda>a0. case a0 of None \<Rightarrow> ret (-1) | Some old \<Rightarrow>
     bind (argstr 1 MAXPATH) (\<lambda>a1. case a1 of None \<Rightarrow> ret (-1) | Some new \<Rightarrow>
     thn begin_op
    (bind (namei old) (\<lambda>r. case r of None \<Rightarrow> thn end_op (ret (-1)) | Some ip \<Rightarrow>
     thn (ilock ip)
    (bind (get_inode ip) (\<lambda>i.
     if i_type i = T_DIR then thn (iunlockput ip) (thn end_op (ret (-1)))
     else
       thn (add_nlink ip 1)
      (thn (iunlock ip)
      (bind (nameiparent new) (\<lambda>d. case d of None \<Rightarrow> link_bad ip | Some (dp, name) \<Rightarrow>
       thn (ilock dp)
      (bind (get_inode dp) (\<lambda>di.
       bind (get_inode ip) (\<lambda>i.
       bind (if i_dev di \<noteq> i_dev i then ret (-1) else dirlink dp name (i_inum i)) (\<lambda>l.
       if l < 0 then thn (iunlockput dp) (link_bad ip)
       else thn (iunlockput dp) (thn (iput ip) (thn end_op (ret 0))))))))))))))))"

function isdirempty_loop :: "nat \<Rightarrow> nat \<Rightarrow> nat \<Rightarrow> ('z kfs_scheme, bool) km" where
  "isdirempty_loop dp sz off =
     (if \<not> off < sz then ret True
      else bind (readi dp None (of_nat off) (of_nat DESIZE)) (\<lambda>(r, de).
        thn (panic_if (r \<noteq> int DESIZE) ''isdirempty: readi'')
       (if de_inum de \<noteq> 0 then ret False else isdirempty_loop dp sz (off + DESIZE))))"
  by pat_completeness auto
termination by (relation "measure (\<lambda>(dp, sz, off). sz - off)") (auto simp: DESIZE_def)

declare isdirempty_loop.simps [simp del]

definition isdirempty :: "nat \<Rightarrow> ('z kfs_scheme, bool) km" where
  "isdirempty dp = bind (get_inode dp) (\<lambda>i. isdirempty_loop dp (unat (i_size i)) (2 * DESIZE))"

definition unlink_bad :: "nat \<Rightarrow> ('z kfile_scheme, uint64) km" where
  "unlink_bad dp = thn (iunlockput dp) (thn end_op (ret (-1)))"

definition sys_unlink :: "('z kfile_scheme, uint64) km" where
  "sys_unlink =
     bind (argstr 0 MAXPATH) (\<lambda>a. case a of None \<Rightarrow> ret (-1) | Some path \<Rightarrow>
     thn begin_op
    (bind (nameiparent path) (\<lambda>d. case d of None \<Rightarrow> thn end_op (ret (-1)) | Some (dp, name) \<Rightarrow>
     thn (ilock dp)
    (if namecmp name (bytes ''.'') = 0 \<or> namecmp name (bytes ''..'') = 0 then unlink_bad dp
     else bind (dirlookup dp name) (\<lambda>l. case l of None \<Rightarrow> unlink_bad dp | Some (ip, off) \<Rightarrow>
       thn (ilock ip)
      (bind (get_inode ip) (\<lambda>i.
       thn (panic_if (sint (i_nlink i) < 1) ''unlink: nlink < 1'')
      (bind (if i_type i = T_DIR then isdirempty ip else ret True) (\<lambda>e.
       if \<not> e then thn (iunlockput ip) (unlink_bad dp)
       else
         bind (writei dp (Inr (replicate DESIZE 0)) (of_nat off) (of_nat DESIZE)) (\<lambda>w.
         thn (panic_if (w \<noteq> int DESIZE) ''unlink: writei'')
        (thn (if i_type i = T_DIR then add_nlink dp (-1) else skip)
        (thn (iunlockput dp)
        (thn (add_nlink ip (-1))
        (thn (iunlockput ip)
        (thn end_op (ret 0))))))))))))))))"

definition create_fail :: "nat \<Rightarrow> nat \<Rightarrow> ('z kfs_scheme, nat option) km" where
  "create_fail ip dp =
     thn (upd_inode ip (\<lambda>i. i\<lparr>i_nlink := 0\<rparr>))
    (thn (iupdate ip)
    (thn (iunlockput ip)
    (thn (iunlockput dp) (ret None))))"

definition create :: "uchar list \<Rightarrow> ushort \<Rightarrow> ushort \<Rightarrow> ushort \<Rightarrow> ('z kfs_scheme, nat option) km" where
  "create path type major minor =
     bind (nameiparent path) (\<lambda>d. case d of None \<Rightarrow> ret None | Some (dp, name) \<Rightarrow>
     thn (ilock dp)
    (bind (dirlookup dp name) (\<lambda>l. case l of
       Some (ip, _) \<Rightarrow>
         thn (iunlockput dp)
        (thn (ilock ip)
        (bind (get_inode ip) (\<lambda>i.
         if type = T_FILE \<and> (i_type i = T_FILE \<or> i_type i = T_DEVICE) then ret (Some ip)
         else thn (iunlockput ip) (ret None))))
     | None \<Rightarrow>
         bind (get_inode dp) (\<lambda>di.
         bind (ialloc (i_dev di) type) (\<lambda>a. case a of None \<Rightarrow> thn (iunlockput dp) (ret None) | Some ip \<Rightarrow>
         thn (ilock ip)
        (thn (upd_inode ip (\<lambda>i. i\<lparr>i_major := major, i_minor := minor, i_nlink := 1\<rparr>))
        (thn (iupdate ip)
        (bind (get_inode ip) (\<lambda>i.
         bind (if type = T_DIR then
                 bind (dirlink ip (bytes ''.'') (i_inum i)) (\<lambda>r.
                 if r < 0 then ret r else dirlink ip (bytes ''..'') (i_inum di))
               else ret 0) (\<lambda>r1.
         if r1 < 0 then create_fail ip dp
         else bind (dirlink dp name (i_inum i)) (\<lambda>r2.
         if r2 < 0 then create_fail ip dp
         else
           thn (if type = T_DIR then add_nlink dp 1 else skip)
          (thn (iunlockput dp) (ret (Some ip))))))))))))))"

definition open_fail :: "nat \<Rightarrow> ('z kfile_scheme, uint64) km" where
  "open_fail ip = thn (iunlockput ip) (thn end_op (ret (-1)))"

text \<open>\<open>sys_open\<close> from the point where the inode is found and locked.\<close>

definition open_inode :: "nat \<Rightarrow> int \<Rightarrow> ('z kfile_scheme, uint64) km" where
  "open_inode ip omode =
     bind (get_inode ip) (\<lambda>i.
     if i_type i = T_DEVICE \<and> (sint (i_major i) < 0 \<or> sint (i_major i) \<ge> NDEV) then open_fail ip
     else bind filealloc (\<lambda>r. case r of None \<Rightarrow> open_fail ip | Some f \<Rightarrow>
       bind (fdalloc f) (\<lambda>r. case r of None \<Rightarrow> thn (fileclose f) (open_fail ip) | Some fd \<Rightarrow>
       thn (if i_type i = T_DEVICE
            then upd_file f (\<lambda>x. x\<lparr>f_type := FD_DEVICE, f_major := i_major i\<rparr>)
            else upd_file f (\<lambda>x. x\<lparr>f_type := FD_INODE, f_off := 0\<rparr>))
      (thn (upd_file f (\<lambda>x. x\<lparr>f_ip := ip, f_readable := (omode AND O_WRONLY = 0),
              f_writable := (omode AND O_WRONLY \<noteq> 0 \<or> omode AND O_RDWR \<noteq> 0)\<rparr>))
      (thn (if omode AND O_TRUNC \<noteq> 0 \<and> i_type i = T_FILE then itrunc ip else skip)
      (thn (iunlock ip)
      (thn end_op (ret (of_nat fd)))))))))"

definition sys_open :: "('z kfile_scheme, uint64) km" where
  "sys_open =
     bind (argint 1) (\<lambda>omode.
     bind (argstr 0 MAXPATH) (\<lambda>a. case a of None \<Rightarrow> ret (-1) | Some path \<Rightarrow>
     thn begin_op
    (if omode AND O_CREATE \<noteq> 0 then
       bind (create path T_FILE 0 0) (\<lambda>r. case r of
         None \<Rightarrow> thn end_op (ret (-1))
       | Some ip \<Rightarrow> open_inode ip omode)
     else
       bind (namei path) (\<lambda>r. case r of
         None \<Rightarrow> thn end_op (ret (-1))
       | Some ip \<Rightarrow>
           thn (ilock ip)
          (bind (get_inode ip) (\<lambda>i.
           if i_type i = T_DIR \<and> omode \<noteq> O_RDONLY then open_fail ip
           else open_inode ip omode))))))"

definition sys_mkdir :: "('z kfile_scheme, uint64) km" where
  "sys_mkdir =
     thn begin_op
    (bind (argstr 0 MAXPATH) (\<lambda>a.
     bind (case a of None \<Rightarrow> ret None | Some path \<Rightarrow> create path T_DIR 0 0) (\<lambda>r. case r of
       None \<Rightarrow> thn end_op (ret (-1))
     | Some ip \<Rightarrow> thn (iunlockput ip) (thn end_op (ret 0)))))"

definition sys_mknod :: "('z kfile_scheme, uint64) km" where
  "sys_mknod =
     thn begin_op
    (bind (argint 1) (\<lambda>major.
     bind (argint 2) (\<lambda>minor.
     bind (argstr 0 MAXPATH) (\<lambda>a.
     bind (case a of None \<Rightarrow> ret None
           | Some path \<Rightarrow> create path T_DEVICE (word_of_int major) (word_of_int minor)) (\<lambda>r. case r of
       None \<Rightarrow> thn end_op (ret (-1))
     | Some ip \<Rightarrow> thn (iunlockput ip) (thn end_op (ret 0)))))))"

definition sys_chdir :: "('z kfile_scheme, uint64) km" where
  "sys_chdir =
     bind myproc (\<lambda>p.
     thn begin_op
    (bind (argstr 0 MAXPATH) (\<lambda>a.
     bind (case a of None \<Rightarrow> ret None | Some path \<Rightarrow> namei path) (\<lambda>r. case r of
       None \<Rightarrow> thn end_op (ret (-1))
     | Some ip \<Rightarrow>
         thn (ilock ip)
        (bind (get_inode ip) (\<lambda>i.
         if i_type i \<noteq> T_DIR then thn (iunlockput ip) (thn end_op (ret (-1)))
         else
           thn (iunlock ip)
          (bind (proc_cwd p) (\<lambda>cwd.
           thn (iput cwd)
          (thn end_op
          (thn (upd_proc p (\<lambda>q. q\<lparr>p_cwd := Some ip\<rparr>)) (ret 0)))))))))))"

subsection \<open>Running programs\<close>

text \<open>The argument strings, each in a page of its own: \<open>k\<close> of the \<open>MAXARG\<close> places are left, \<open>argv\<close> are the pages
  filled so far.  \<open>Inl\<close> leaves the loop for the error exit with the pages to free.\<close>

primrec sys_exec_args :: "nat \<Rightarrow> addr \<Rightarrow> addr list \<Rightarrow> ('z kproc_scheme, addr list + addr list) km" where
  "sys_exec_args 0 uargv argv = ret (Inl argv)"
| "sys_exec_args (Suc k) uargv argv =
     bind (fetchaddr (uargv + 8 * of_nat (length argv))) (\<lambda>r. case r of None \<Rightarrow> ret (Inl argv) | Some uarg \<Rightarrow>
     if uarg = 0 then ret (Inr argv)
     else bind kalloc (\<lambda>pa.
       if pa = 0 then ret (Inl argv)
       else bind (fetchstr uarg pa PGSIZE) (\<lambda>n.
         if n < 0 then ret (Inl (argv @ [pa]))
         else sys_exec_args k uargv (argv @ [pa]))))"

primrec free_args :: "addr list \<Rightarrow> ('z kmem_scheme, unit) km" where
  "free_args [] = skip"
| "free_args (pa # argv) = thn (kfree pa) (free_args argv)"

definition sys_exec :: "('z kfile_scheme, uint64) km" where
  "sys_exec =
     bind (argaddr 1) (\<lambda>uargv.
     bind (argstr 0 MAXPATH) (\<lambda>a. case a of None \<Rightarrow> ret (-1) | Some path \<Rightarrow>
     bind (sys_exec_args MAXARG uargv []) (\<lambda>r. case r of
       Inl argv \<Rightarrow> thn (free_args argv) (ret (-1))
     | Inr argv \<Rightarrow>
         bind (exec path argv) (\<lambda>n.
         thn (free_args argv) (ret (word_of_int n))))))"

subsection \<open>Pipes\<close>

definition close_both :: "nat \<Rightarrow> nat \<Rightarrow> ('z kfile_scheme, uint64) km" where
  "close_both rf wrf = thn (fileclose rf) (thn (fileclose wrf) (ret (-1)))"

definition sys_pipe :: "('z kfile_scheme, uint64) km" where
  "sys_pipe =
     bind myproc (\<lambda>p.
     bind (argaddr 0) (\<lambda>fdarray.
     bind pipealloc (\<lambda>r. case r of None \<Rightarrow> ret (-1) | Some (rf, wrf) \<Rightarrow>
     bind (fdalloc rf) (\<lambda>r0. case r0 of None \<Rightarrow> close_both rf wrf | Some fd0 \<Rightarrow>
     bind (fdalloc wrf) (\<lambda>r1. case r1 of
       None \<Rightarrow> thn (set_ofile p fd0 None) (close_both rf wrf)
     | Some fd1 \<Rightarrow>
         bind (get_proc p) (\<lambda>q.
         bind (copyout_bytes (p_pagetable q) fdarray (to_le 4 (of_nat fd0 :: uint))) (\<lambda>c0.
         bind (if c0 < 0 then ret c0
               else copyout_bytes (p_pagetable q) (fdarray + 4) (to_le 4 (of_nat fd1 :: uint))) (\<lambda>c.
         if c < 0 then thn (set_ofile p fd0 None) (thn (set_ofile p fd1 None) (close_both rf wrf))
         else ret 0))))))))"

subsection \<open>Dispatch\<close>

text \<open>The table; \<open>wt\<close> and \<open>rt\<close> are the uninitialised variables of \<open>sys_waitx\<close>.\<close>

definition syscalls :: "uint \<Rightarrow> uint \<Rightarrow> int \<Rightarrow> ('z kfile_scheme, uint64) km option" where
  "syscalls wt rt num = map_of
     [(1, sys_fork), (2, sys_exit), (3, sys_wait), (4, sys_pipe), (5, sys_read), (6, sys_kill), (7, sys_exec),
      (8, sys_fstat), (9, sys_chdir), (10, sys_dup), (11, sys_getpid), (12, sys_sbrk), (13, sys_sleep),
      (14, sys_uptime), (15, sys_open), (16, sys_write), (17, sys_mknod), (18, sys_unlink), (19, sys_link),
      (20, sys_mkdir), (21, sys_close), (22, sys_waitx wt rt)] num"

definition syscall :: "uint \<Rightarrow> uint \<Rightarrow> ('z kfile_scheme, unit) km" where
  "syscall wt rt =
     bind myproc (\<lambda>p.
     bind (tf_get p TF_A7) (\<lambda>a7.
     let num = sint (ucast a7 :: uint) in
     case syscalls wt rt num of
       Some f \<Rightarrow> bind f (\<lambda>r. tf_set p TF_A0 r)
     | None \<Rightarrow>
         bind (get_proc p) (\<lambda>q.
         thn (print_text (the (kprintf (bytes ''%d %s: unknown sys call %d'' @ [10])
                [AInt (word_of_int (p_pid q)), AStr (Some (takeWhile (\<lambda>c. c \<noteq> 0) (p_name q))), AInt (word_of_int num)])))
             (tf_set p TF_A0 (-1)))))"

subsection \<open>Bad descriptors\<close>

lemma tf_get_run: "tf_get p off s = Ok (load64 (mem s) (p_trapframe (procs s p) + off)) s"
  by (simp add: tf_get_def run_simps ld64_def)

definition fd_arg :: "'z kproc_scheme \<Rightarrow> nat \<Rightarrow> int" where
  "fd_arg s p = sint (ucast (load64 (mem s) (p_trapframe (procs s p) + 112)) :: uint)"

text \<open>A number that is not an open descriptor of the process.\<close>

definition bad_fd :: "'z kproc_scheme \<Rightarrow> nat \<Rightarrow> bool" where
  "bad_fd s p \<longleftrightarrow> fd_arg s p < 0 \<or> fd_arg s p \<ge> int NOFILE \<or> p_ofile (procs s p) (nat (fd_arg s p)) = None"

lemma argfd_run:
  assumes "cur s = Some p"
  shows "argfd 0 s = Ok (if bad_fd s p then None else Some (nat (fd_arg s p), the (p_ofile (procs s p) (nat (fd_arg s p))))) s"
  using assms by (auto simp: argfd_def argint_def argraw_def run_simps tf_get_run bad_fd_def fd_arg_def split: option.splits)

lemma argaddr_run: "cur s = Some p \<Longrightarrow> argaddr 1 s = Ok (load64 (mem s) (p_trapframe (procs s p) + 120)) s"
  by (simp add: argaddr_def argraw_def run_simps tf_get_run)

lemma argint_run: "cur s = Some p \<Longrightarrow> argint 2 s = Ok (sint (ucast (load64 (mem s) (p_trapframe (procs s p) + 128)) :: uint)) s"
  by (simp add: argint_def argraw_def run_simps tf_get_run)

text \<open>C23: a system call on a number that is not an open descriptor fails with -1 and changes nothing.\<close>

theorem bad_fd_fails:
  assumes "cur s = Some p" "bad_fd s p"
  shows "sys_read s = Ok (-1) s \<and> sys_write s = Ok (-1) s \<and> sys_close s = Ok (-1) s \<and> sys_dup s = Ok (-1) s \<and> sys_fstat s = Ok (-1) s"
  using assms by (simp add: sys_read_def sys_write_def sys_close_def sys_dup_def sys_fstat_def run_simps argfd_run argaddr_run argint_run)

text \<open>C24: \<open>fdalloc\<close> gives the lowest free descriptor and enters the file there; when all are taken it fails and
  changes nothing.\<close>

theorem fdalloc_spec:
  assumes "cur s = Some p"
  shows "(case fdalloc f s of
      Ok (Some fd) t \<Rightarrow> fd < NOFILE \<and> p_ofile (procs s p) fd = None \<and> (\<forall>g. g < fd \<longrightarrow> p_ofile (procs s p) g \<noteq> None) \<and>
        t = s\<lparr>procs := (procs s)(p := (procs s p)\<lparr>p_ofile := (p_ofile (procs s p))(fd := Some f)\<rparr>)\<rparr>
    | Ok None t \<Rightarrow> t = s \<and> (\<forall>g. g < NOFILE \<longrightarrow> p_ofile (procs s p) g \<noteq> None)
    | _ \<Rightarrow> False)"
proof (cases "find (\<lambda>fd. p_ofile (procs s p) fd = None) [0..<NOFILE]")
  case None
  then have "\<forall>g. g < NOFILE \<longrightarrow> p_ofile (procs s p) g \<noteq> None" by (auto simp: find_None_iff)
  then show ?thesis using assms None by (simp add: fdalloc_def run_simps)
next
  case (Some fd)
  then have "fd < NOFILE \<and> p_ofile (procs s p) fd = None \<and> (\<forall>g<fd. p_ofile (procs s p) g \<noteq> None)"
    by (auto simp: find_Some_iff)
  then show ?thesis using assms Some by (simp add: fdalloc_def run_simps set_ofile_def)
qed

end
