(* ===== verification/Virtio.thy ===== *)
theory Virtio
  imports Sysfile
begin

text \<open>
  The disk driver (\<^verbatim>\<open>kernel/virtio_disk.c\<close>).  The rings and the descriptors are fields of the state, with the
  addresses the driver gives to the device read from \<open>ops_at\<close>, \<open>data_at\<close> and \<open>status_at\<close>, the places of the request
  headers, of the data of the buffers and of the status bytes.  Device registers are read from \<open>mmio\<close>; writes to
  them are recorded in \<open>mmio_w\<close>.
\<close>

definition NUM :: nat where "NUM = 8"
definition VRING_DESC_F_NEXT :: ushort where "VRING_DESC_F_NEXT = 1"
definition VRING_DESC_F_WRITE :: ushort where "VRING_DESC_F_WRITE = 2"
definition VIRTIO_BLK_T_IN :: uint where "VIRTIO_BLK_T_IN = 0"
definition VIRTIO_BLK_T_OUT :: uint where "VIRTIO_BLK_T_OUT = 1"

record virtq_desc =
  d_addr :: uint64
  d_len :: uint
  d_flags :: ushort
  d_next :: ushort

record virtio_blk_req =
  r_type :: uint
  r_reserved :: uint
  r_sector :: uint64

record kvirtio = kfile +
  vdesc :: "nat \<Rightarrow> virtq_desc"
  avail_idx :: ushort
  avail_ring :: "nat \<Rightarrow> ushort"
  used_dev_idx :: ushort
  used_ring :: "nat \<Rightarrow> uint"
  vfree :: "nat \<Rightarrow> bool"
  used_idx :: ushort
  info_b :: "nat \<Rightarrow> nat option"
  info_status :: "nat \<Rightarrow> uchar"
  vops :: "nat \<Rightarrow> virtio_blk_req"
  b_disk :: "nat \<Rightarrow> bool"
  ops_at :: "nat \<Rightarrow> addr"
  data_at :: "nat \<Rightarrow> addr"
  status_at :: "nat \<Rightarrow> addr"
  mmio :: "addr \<Rightarrow> uint"
  mmio_w :: "(addr \<times> uint) list"

definition mmio_set :: "addr \<Rightarrow> uint \<Rightarrow> ('z kvirtio_scheme, unit) km" where
  "mmio_set a v = modify (\<lambda>s. s\<lparr>mmio_w := mmio_w s @ [(a, v)]\<rparr>)"

definition R :: "addr \<Rightarrow> addr" where
  "R r = VIRTIO0 + r"

subsection \<open>Initialisation\<close>

text \<open>The features the driver turns down.\<close>

definition no_features :: "nat list" where
  "no_features = [5, 7, 11, 12, 27, 29, 28]"

definition virtio_disk_init :: "('z kvirtio_scheme, unit) km" where
  "virtio_disk_init =
     thn (initlock VdiskLock)
    (bind (gets mmio) (\<lambda>m.
     thn (panic_if (m (R 0) \<noteq> 0x74726976 \<or> m (R 4) \<noteq> 2 \<or> m (R 8) \<noteq> 2 \<or> m (R 12) \<noteq> 0x554d4551) ''could not find virtio disk'')
    (thn (mmio_set (R 0x70) 0)
    (thn (mmio_set (R 0x70) 1)
    (thn (mmio_set (R 0x70) 3)
    (thn (mmio_set (R 0x20) (foldl (\<lambda>f k. f AND NOT (push_bit k 1)) (m (R 0x10)) no_features))
    (thn (mmio_set (R 0x70) 11)
    (bind (gets (\<lambda>s. mmio s (R 0x70))) (\<lambda>status.
     thn (panic_if (status AND 8 = 0) ''virtio disk FEATURES_OK unset'')
    (thn (mmio_set (R 0x30) 0)
    (thn (panic_if (m (R 0x44) \<noteq> 0) ''virtio disk should not be ready'')
    (thn (panic_if (m (R 0x34) = 0) ''virtio disk has no queue 0'')
    (thn (panic_if (m (R 0x34) < of_nat NUM) ''virtio disk max queue too short'')
    (bind kalloc (\<lambda>desc.
     bind kalloc (\<lambda>avail.
     bind kalloc (\<lambda>used.
     thn (panic_if (desc = 0 \<or> avail = 0 \<or> used = 0) ''virtio disk kalloc'')
    (thn (kmemset desc 0 4096)
    (thn (kmemset avail 0 4096)
    (thn (kmemset used 0 4096)
    (thn (modify (\<lambda>s. s\<lparr>vdesc := (\<lambda>_. \<lparr>d_addr = 0, d_len = 0, d_flags = 0, d_next = 0\<rparr>),
            avail_idx := 0, avail_ring := (\<lambda>_. 0), used_dev_idx := 0, used_ring := (\<lambda>_. 0)\<rparr>))
    (thn (mmio_set (R 0x38) (of_nat NUM))
    (thn (mmio_set (R 0x80) (ucast desc))
    (thn (mmio_set (R 0x84) (ucast (drop_bit 32 desc)))
    (thn (mmio_set (R 0x90) (ucast avail))
    (thn (mmio_set (R 0x94) (ucast (drop_bit 32 avail)))
    (thn (mmio_set (R 0xa0) (ucast used))
    (thn (mmio_set (R 0xa4) (ucast (drop_bit 32 used)))
    (thn (mmio_set (R 0x44) 1)
    (thn (modify (\<lambda>s. s\<lparr>vfree := (\<lambda>i. i < NUM \<or> vfree s i)\<rparr>))
         (mmio_set (R 0x70) (status OR 4))))))))))))))))))))))))))))))))"

subsection \<open>Descriptors\<close>

definition alloc_desc :: "('z kvirtio_scheme, nat option) km" where
  "alloc_desc =
     bind (gets (\<lambda>s. find (vfree s) [0..<NUM])) (\<lambda>r. case r of
       None \<Rightarrow> ret None
     | Some i \<Rightarrow> thn (modify (\<lambda>s. s\<lparr>vfree := (vfree s)(i := False)\<rparr>)) (ret (Some i)))"

definition free_desc :: "nat \<Rightarrow> ('z kvirtio_scheme, unit) km" where
  "free_desc i =
     thn (panic_if (i \<ge> NUM) ''free_desc 1'')
    (bind (gets (\<lambda>s. vfree s i)) (\<lambda>f.
     thn (panic_if f ''free_desc 2'')
    (thn (modify (\<lambda>s. s\<lparr>vdesc := (vdesc s)(i := \<lparr>d_addr = 0, d_len = 0, d_flags = 0, d_next = 0\<rparr>),
            vfree := (vfree s)(i := True)\<rparr>))
         (wakeup ChanVdiskFree))))"

text \<open>Each round frees a descriptor that was not free, so after \<open>NUM\<close> rounds the next one panics.\<close>

primrec free_chain_loop :: "nat \<Rightarrow> nat \<Rightarrow> ('z kvirtio_scheme, unit) km" where
  "free_chain_loop 0 i = free_desc i"
| "free_chain_loop (Suc k) i =
     bind (gets (\<lambda>s. vdesc s i)) (\<lambda>d.
     thn (free_desc i)
         (if d_flags d AND VRING_DESC_F_NEXT \<noteq> 0 then free_chain_loop k (unat (d_next d)) else skip))"

definition free_chain :: "nat \<Rightarrow> ('z kvirtio_scheme, unit) km" where
  "free_chain i = free_chain_loop NUM i"

definition alloc3_desc :: "('z kvirtio_scheme, (nat \<times> nat \<times> nat) option) km" where
  "alloc3_desc =
     bind alloc_desc (\<lambda>r0. case r0 of None \<Rightarrow> ret None | Some i0 \<Rightarrow>
     bind alloc_desc (\<lambda>r1. case r1 of None \<Rightarrow> thn (free_desc i0) (ret None) | Some i1 \<Rightarrow>
     bind alloc_desc (\<lambda>r2. case r2 of None \<Rightarrow> thn (free_desc i0) (thn (free_desc i1) (ret None)) | Some i2 \<Rightarrow>
     ret (Some (i0, i1, i2)))))"

subsection \<open>Requests\<close>

text \<open>Formatting the three descriptors and handing the chain to the device.\<close>

definition submit :: "nat \<Rightarrow> bool \<Rightarrow> nat \<Rightarrow> nat \<Rightarrow> nat \<Rightarrow> ('z kvirtio_scheme, unit) km" where
  "submit b write i0 i1 i2 =
     thn (modify (\<lambda>s. s\<lparr>vops := (vops s)(i0 := \<lparr>r_type = (if write then VIRTIO_BLK_T_OUT else VIRTIO_BLK_T_IN),
            r_reserved = 0, r_sector = ucast (b_blockno (bufs s b) * of_nat (BSIZE div 512))\<rparr>)\<rparr>))
    (thn (modify (\<lambda>s. s\<lparr>vdesc := (vdesc s)(
            i0 := \<lparr>d_addr = ops_at s i0, d_len = 16, d_flags = VRING_DESC_F_NEXT, d_next = of_nat i1\<rparr>,
            i1 := \<lparr>d_addr = data_at s b, d_len = of_nat BSIZE,
                   d_flags = (if write then 0 else VRING_DESC_F_WRITE) OR VRING_DESC_F_NEXT, d_next = of_nat i2\<rparr>,
            i2 := \<lparr>d_addr = status_at s i0, d_len = 1, d_flags = VRING_DESC_F_WRITE, d_next = 0\<rparr>),
            info_status := (info_status s)(i0 := 0xff)\<rparr>))
    (thn (modify (\<lambda>s. s\<lparr>b_disk := (b_disk s)(b := True), info_b := (info_b s)(i0 := Some b)\<rparr>))
    (thn (modify (\<lambda>s. s\<lparr>avail_ring := (avail_ring s)(unat (avail_idx s) mod NUM := of_nat i0)\<rparr>))
    (thn (modify (\<lambda>s. s\<lparr>avail_idx := avail_idx s + 1\<rparr>))
         (mmio_set (R 0x50) 0)))))"

definition finish :: "nat \<Rightarrow> ('z kvirtio_scheme, unit) km" where
  "finish i0 =
     thn (modify (\<lambda>s. s\<lparr>info_b := (info_b s)(i0 := None)\<rparr>))
    (thn (free_chain i0)
         (release VdiskLock))"

definition wait_loop_disk :: "nat \<Rightarrow> nat \<Rightarrow> ('z kvirtio_scheme, unit) km" where
  "wait_loop_disk b i0 =
     bind (gets (\<lambda>s. b_disk s b)) (\<lambda>d.
     if d then sleep (ChanBuf b) VdiskLock else finish i0)"

definition alloc_loop :: "nat \<Rightarrow> bool \<Rightarrow> ('z kvirtio_scheme, unit) km" where
  "alloc_loop b write =
     bind alloc3_desc (\<lambda>r. case r of
       None \<Rightarrow> sleep ChanVdiskFree VdiskLock
     | Some (i0, i1, i2) \<Rightarrow> thn (submit b write i0 i1 i2) (wait_loop_disk b i0))"

definition virtio_disk_rw :: "nat \<Rightarrow> bool \<Rightarrow> ('z kvirtio_scheme, unit) km" where
  "virtio_disk_rw b write = thn (acquire VdiskLock) (alloc_loop b write)"

definition alloc_resume :: "nat \<Rightarrow> bool \<Rightarrow> ('z kvirtio_scheme, unit) km" where
  "alloc_resume b write = thn (sleep_resume VdiskLock) (alloc_loop b write)"

definition disk_resume :: "nat \<Rightarrow> nat \<Rightarrow> ('z kvirtio_scheme, unit) km" where
  "disk_resume b i0 = thn (sleep_resume VdiskLock) (wait_loop_disk b i0)"

text \<open>The completions the device has put into the used ring; \<open>k\<close> are to come.\<close>

primrec intr_loop :: "nat \<Rightarrow> ('z kvirtio_scheme, unit) km" where
  "intr_loop 0 = skip"
| "intr_loop (Suc k) =
     bind (gets (\<lambda>s. unat (used_ring s (unat (used_idx s) mod NUM)))) (\<lambda>id.
     bind (gets (\<lambda>s. info_status s id)) (\<lambda>st.
     thn (panic_if (st \<noteq> 0) ''virtio_disk_intr status'')
    (bind (gets (\<lambda>s. info_b s id)) (\<lambda>b. case b of
       None \<Rightarrow> panic ''kerneltrap''
     | Some b \<Rightarrow>
         thn (modify (\<lambda>s. s\<lparr>b_disk := (b_disk s)(b := False)\<rparr>))
        (thn (wakeup (ChanBuf b))
        (thn (modify (\<lambda>s. s\<lparr>used_idx := used_idx s + 1\<rparr>))
             (intr_loop k)))))))"

definition virtio_disk_intr :: "('z kvirtio_scheme, unit) km" where
  "virtio_disk_intr =
     thn (acquire VdiskLock)
    (bind (gets (\<lambda>s. mmio s (R 0x60))) (\<lambda>st.
     thn (mmio_set (R 0x64) (st AND 3))
    (bind (gets (\<lambda>s. unat (used_dev_idx s - used_idx s))) (\<lambda>k.
     thn (intr_loop k)
         (release VdiskLock)))))"

end
