(* ===== verification/Trap.thy ===== *)
theory Trap
  imports Virtio
begin

text \<open>
  Traps (\<^verbatim>\<open>kernel/trap.c\<close>), the interrupt controller (\<^verbatim>\<open>kernel/plic.c\<close>), the first return of a process to user space and the
  boot sequence (\<^verbatim>\<open>kernel/main.c\<close>).  The control and status registers of the hart are fields of the state;
  \<open>entered\<close> is the page table register with which \<^verbatim>\<open>userret\<close> was last entered.
\<close>

record ktrap = kvirtio +
  stvec :: uint64
  sepc :: uint64
  sstatus :: uint64
  scause :: uint64
  stval :: uint64
  sip :: uint64
  tp :: uint64
  kernelvec :: addr
  usertrap_addr :: addr
  uservec_off :: addr
  userret_off :: addr
  entered :: "uint64 option"
  started :: bool

definition SSTATUS_SPP :: uint64 where "SSTATUS_SPP = push_bit 8 1"
definition SSTATUS_SPIE :: uint64 where "SSTATUS_SPIE = push_bit 5 1"
definition SSTATUS_SIE :: uint64 where "SSTATUS_SIE = push_bit 1 1"

definition intr_on :: "('z ktrap_scheme, unit) km" where
  "intr_on = modify (\<lambda>s. s\<lparr>sstatus := sstatus s OR SSTATUS_SIE\<rparr>)"

definition intr_off :: "('z ktrap_scheme, unit) km" where
  "intr_off = modify (\<lambda>s. s\<lparr>sstatus := sstatus s AND NOT SSTATUS_SIE\<rparr>)"

definition intr_get :: "('z ktrap_scheme, bool) km" where
  "intr_get = gets (\<lambda>s. sstatus s AND SSTATUS_SIE \<noteq> 0)"

definition cpuid :: "('z ktrap_scheme, int) km" where
  "cpuid = gets (\<lambda>s. sint (ucast (tp s) :: uint))"

subsection \<open>The interrupt controller\<close>

definition UART0_IRQ :: int where "UART0_IRQ = 10"
definition VIRTIO0_IRQ :: int where "VIRTIO0_IRQ = 1"

definition PLIC_SENABLE :: "int \<Rightarrow> addr" where
  "PLIC_SENABLE hart = PLIC + 0x2080 + word_of_int (hart * 0x100)"

definition PLIC_SPRIORITY :: "int \<Rightarrow> addr" where
  "PLIC_SPRIORITY hart = PLIC + 0x201000 + word_of_int (hart * 0x2000)"

definition PLIC_SCLAIM :: "int \<Rightarrow> addr" where
  "PLIC_SCLAIM hart = PLIC + 0x201004 + word_of_int (hart * 0x2000)"

definition plicinit :: "('z ktrap_scheme, unit) km" where
  "plicinit = thn (mmio_set (PLIC + word_of_int (UART0_IRQ * 4)) 1) (mmio_set (PLIC + word_of_int (VIRTIO0_IRQ * 4)) 1)"

definition plicinithart :: "('z ktrap_scheme, unit) km" where
  "plicinithart = bind cpuid (\<lambda>hart.
     thn (mmio_set (PLIC_SENABLE hart) (push_bit (nat UART0_IRQ) 1 OR push_bit (nat VIRTIO0_IRQ) 1))
         (mmio_set (PLIC_SPRIORITY hart) 0))"

definition plic_claim :: "('z ktrap_scheme, int) km" where
  "plic_claim = bind cpuid (\<lambda>hart. gets (\<lambda>s. sint (mmio s (PLIC_SCLAIM hart))))"

definition plic_complete :: "int \<Rightarrow> ('z ktrap_scheme, unit) km" where
  "plic_complete irq = bind cpuid (\<lambda>hart. mmio_set (PLIC_SCLAIM hart) (word_of_int irq))"

subsection \<open>Interrupts\<close>

definition trapinit :: "('z ktrap_scheme, unit) km" where
  "trapinit = initlock TicksLock"

definition trapinithart :: "('z ktrap_scheme, unit) km" where
  "trapinithart = modify (\<lambda>s. s\<lparr>stvec := kernelvec s\<rparr>)"

definition clockintr :: "('z ktrap_scheme, unit) km" where
  "clockintr =
     thn (acquire TicksLock)
    (thn (modify (\<lambda>s. s\<lparr>ticks := ticks s + 1\<rparr>))
    (thn update_time
    (thn (wakeup ChanTicks)
         (release TicksLock))))"

definition devintr :: "('z ktrap_scheme, int) km" where
  "devintr =
     bind (gets scause) (\<lambda>sc.
     if sc AND 0x8000000000000000 \<noteq> 0 \<and> sc AND 0xff = 9 then
       bind plic_claim (\<lambda>irq.
       thn (if irq = UART0_IRQ then uartintr
            else if irq = VIRTIO0_IRQ then virtio_disk_intr
            else if irq \<noteq> 0 then
              print_text (the (kprintf (bytes ''unexpected interrupt irq=%d'' @ [10]) [AInt (word_of_int irq)]))
            else skip)
      (thn (if irq \<noteq> 0 then plic_complete irq else skip)
           (ret 1)))
     else if sc = 0x8000000000000001 then
       bind cpuid (\<lambda>c.
       thn (if c = 0 then clockintr else skip)
      (thn (modify (\<lambda>s. s\<lparr>sip := sip s AND NOT 2\<rparr>))
           (ret 2)))
     else ret 0)"

subsection \<open>Traps from and to user space\<close>

definition usertrapret :: "('z ktrap_scheme, unit) km" where
  "usertrapret =
     bind myproc (\<lambda>p.
     thn intr_off
    (thn (modify (\<lambda>s. s\<lparr>stvec := TRAMPOLINE + uservec_off s\<rparr>))
    (bind (gets satp) (\<lambda>ksatp.
     thn (tf_set p 0 ksatp)
    (bind (get_proc p) (\<lambda>q.
     thn (tf_set p 8 (p_kstack q + PGSIZE))
    (bind (gets usertrap_addr) (\<lambda>ut.
     thn (tf_set p 16 ut)
    (bind (gets tp) (\<lambda>h.
     thn (tf_set p 32 h)
    (thn (modify (\<lambda>s. s\<lparr>sstatus := sstatus s AND NOT SSTATUS_SPP OR SSTATUS_SPIE\<rparr>))
    (bind (tf_get p TF_EPC) (\<lambda>epc.
     thn (modify (\<lambda>s. s\<lparr>sepc := epc\<rparr>))
         (modify (\<lambda>s. s\<lparr>entered := Some (MAKE_SATP (p_pagetable q))\<rparr>)))))))))))))))"

text \<open>The end of \<open>usertrap\<close>: a killed process exits, and after a timer interrupt the process yields.\<close>

definition usertrap_end :: "nat \<Rightarrow> int \<Rightarrow> ('z ktrap_scheme, unit) km" where
  "usertrap_end p which_dev =
     bind (killed p) (\<lambda>k.
     thn (if k \<noteq> 0 then exit (-1) else skip)
    (thn (if which_dev = 2 then yield else skip)
         usertrapret))"

definition usertrap :: "uint \<Rightarrow> uint \<Rightarrow> ('z ktrap_scheme, unit) km" where
  "usertrap wt rt =
     bind (gets sstatus) (\<lambda>st.
     thn (panic_if (st AND SSTATUS_SPP \<noteq> 0) ''usertrap: not from user mode'')
    (thn (modify (\<lambda>s. s\<lparr>stvec := kernelvec s\<rparr>))
    (bind myproc (\<lambda>p.
     bind (gets sepc) (\<lambda>pc.
     thn (tf_set p TF_EPC pc)
    (bind (gets scause) (\<lambda>sc.
     if sc = 8 then
       bind (killed p) (\<lambda>k.
       thn (if k \<noteq> 0 then exit (-1) else skip)
      (bind (tf_get p TF_EPC) (\<lambda>epc.
       thn (tf_set p TF_EPC (epc + 4))
      (thn intr_on
      (thn (syscall wt rt)
           (usertrap_end p 0))))))
     else bind devintr (\<lambda>which_dev.
       if which_dev \<noteq> 0 then usertrap_end p which_dev
       else if sc = 15 then
         bind (gets stval) (\<lambda>addr.
         bind (get_proc p) (\<lambda>q.
         bind (cowalloc (p_pagetable q) addr) (\<lambda>r.
         thn (if r < 0 then
                thn (print_text (the (kprintf (bytes ''alloc user page fault addr=%p'' @ [10]) [AU64 addr])))
                    (setkilled p)
              else skip)
             (usertrap_end p 0))))
       else
         bind (gets sepc) (\<lambda>pc.
         bind (gets stval) (\<lambda>sv.
         bind (get_proc p) (\<lambda>q.
         thn (print_text (the (kprintf (bytes ''usertrap(): unexpected scause %p pid=%d'' @ [10])
                [AU64 sc, AInt (word_of_int (p_pid q))])))
        (thn (print_text (the (kprintf (bytes ''            sepc=%p stval=%p'' @ [10]) [AU64 pc, AU64 sv])))
        (thn (setkilled p)
             (usertrap_end p 0))))))))))))))"

text \<open>What follows when a process that yielded in \<open>usertrap\<close> runs again.\<close>

definition usertrap_resume :: "('z ktrap_scheme, unit) km" where
  "usertrap_resume = thn yield_resume usertrapret"

text \<open>The end of \<open>kerneltrap\<close>: the registers saved at its start are put back, since a trap taken while the process was away has changed them.\<close>

definition restore_trap :: "uint64 \<Rightarrow> uint64 \<Rightarrow> ('z ktrap_scheme, unit) km" where
  "restore_trap pc st = modify (\<lambda>s. s\<lparr>sepc := pc, sstatus := st\<rparr>)"

definition kerneltrap :: "('z ktrap_scheme, unit) km" where
  "kerneltrap =
     bind (gets sepc) (\<lambda>pc.
     bind (gets sstatus) (\<lambda>st.
     bind (gets scause) (\<lambda>sc.
     thn (panic_if (st AND SSTATUS_SPP = 0) ''kerneltrap: not from supervisor mode'')
    (bind intr_get (\<lambda>i.
     thn (panic_if i ''kerneltrap: interrupts enabled'')
    (bind devintr (\<lambda>which_dev.
     thn (if which_dev = 0 then
            bind (gets sepc) (\<lambda>pc.
            bind (gets stval) (\<lambda>sv.
            thn (print_text (the (kprintf (bytes ''scause %p'' @ [10]) [AU64 sc])))
           (thn (print_text (the (kprintf (bytes ''sepc=%p stval=%p'' @ [10]) [AU64 pc, AU64 sv])))
                (panic ''kerneltrap''))))
          else skip)
    (thn (bind (gets cur) (\<lambda>c. case c of
            None \<Rightarrow> skip
          | Some p \<Rightarrow> bind (get_proc p) (\<lambda>q.
              if which_dev = 2 \<and> p_state q = RUNNING then yield else skip)))
         (restore_trap pc st)))))))))"

text \<open>What follows when a process that yielded in \<open>kerneltrap\<close> runs again, with the values saved in the local variables of the call.\<close>

definition kerneltrap_resume :: "uint64 \<Rightarrow> uint64 \<Rightarrow> ('z ktrap_scheme, unit) km" where
  "kerneltrap_resume pc st = thn yield_resume (restore_trap pc st)"

definition forkret :: "('z ktrap_scheme, unit) km" where
  "forkret =
     bind myproc (\<lambda>p.
     thn (release (ProcLock p))
    (bind (gets first) (\<lambda>f.
     thn (if f then thn (modify (\<lambda>s. s\<lparr>first := False\<rparr>)) (fsinit ROOTDEV) else skip)
         usertrapret)))"

subsection \<open>Booting\<close>

text \<open>\<open>main\<close> up to the scheduler; \<open>consoleinit\<close> also enters the console in the device switch.  \<open>None\<close> stands for
  a hart that is still spinning on \<open>started\<close>.\<close>

definition main :: "addr \<Rightarrow> ('z ktrap_scheme, unit option) km" where
  "main initcode =
     bind cpuid (\<lambda>c.
     if c = 0 then
       thn consoleinit
      (thn (modify (\<lambda>s. s\<lparr>devsw_console := True\<rparr>))
      (thn (print_text [10])
      (thn (print_text (bytes ''xv6 kernel is booting'' @ [10]))
      (thn (print_text [10])
      (thn kinit
      (thn kvminit
      (thn kvminithart
      (thn procinit
      (thn trapinit
      (thn trapinithart
      (thn plicinit
      (thn plicinithart
      (thn binit
      (thn iinit
      (thn fileinit
      (thn virtio_disk_init
      (thn (userinit initcode)
      (thn (modify (\<lambda>s. s\<lparr>started := True\<rparr>))
           (ret (Some ()))))))))))))))))))))
     else
       bind (gets started) (\<lambda>st.
       if \<not> st then ret None
       else
         thn (print_text (the (kprintf (bytes ''hart %d starting'' @ [10]) [AInt (word_of_int c)])))
        (thn kvminithart
        (thn trapinithart
        (thn plicinithart (ret (Some ())))))))"

subsection \<open>What a trap leaves behind\<close>

text \<open>Interrupt handlers do not give up the CPU.\<close>

definition no_sleep :: "('s, 'a) km \<Rightarrow> bool" where
  "no_sleep m \<longleftrightarrow> (\<forall>s c t. m s \<noteq> Sleep c t)"

lemma no_sleepD: "no_sleep m \<Longrightarrow> m s \<noteq> Sleep c t"
  by (simp add: no_sleep_def)

lemma no_sleep_basic:
  "no_sleep (ret a)" "no_sleep (gets f)" "no_sleep (modify g)" "no_sleep (panic e)" "no_sleep (panic_if b e)"
  "no_sleep (acquire lk)" "no_sleep (release lk)"
  by (auto simp: no_sleep_def run_simps acquire_def release_def)

lemma no_sleep_bind: "no_sleep m \<Longrightarrow> (\<And>a. no_sleep (f a)) \<Longrightarrow> no_sleep (bind m f)"
  by (auto simp: no_sleep_def run_simps split: res.splits)

lemma no_sleep_thn: "no_sleep m \<Longrightarrow> no_sleep k \<Longrightarrow> no_sleep (thn m k)"
  unfolding thn_def by (rule no_sleep_bind)

lemma no_sleep_if: "(b \<Longrightarrow> no_sleep m) \<Longrightarrow> (\<not> b \<Longrightarrow> no_sleep k) \<Longrightarrow> no_sleep (if b then m else k)"
  by simp

lemma no_sleep_option: "no_sleep m \<Longrightarrow> (\<And>a. no_sleep (f a)) \<Longrightarrow> no_sleep (case x of None \<Rightarrow> m | Some a \<Rightarrow> f a)"
  by (cases x) simp_all

lemma no_sleep_for_proc: "(\<And>p. no_sleep (f p)) \<Longrightarrow> no_sleep (for_proc k f)"
  by (induction k) (simp_all add: no_sleep_basic no_sleep_thn)

lemmas no_sleep_rules = no_sleep_basic no_sleep_bind no_sleep_thn no_sleep_if no_sleep_option no_sleep_for_proc

lemma no_sleep_procs: "no_sleep (wakeup ch)" "no_sleep update_time" "no_sleep procdump" "no_sleep (consputc x)" "no_sleep (kill_line d)"
proof -
  show "no_sleep (wakeup ch)" "no_sleep update_time" unfolding wakeup_def update_time_def get_proc_def upd_proc_def by (intro no_sleep_rules)+
  show "no_sleep procdump" unfolding procdump_def print_text_def get_proc_def by (intro no_sleep_rules)
  show c: "no_sleep (consputc x)" for x :: uint and y :: "'z kcons_scheme" unfolding consputc_def uartputc_sync_def by (intro no_sleep_rules)
  show "no_sleep (kill_line d)" by (induction d) (simp_all add: no_sleep_rules c)
qed

lemma no_sleep_uartstart: "uartstart s \<noteq> Sleep c t"
proof (induction s rule: uartstart.induct)
  case (1 s)
  then show ?case by (subst uartstart.simps) (auto simp: no_sleepD [OF no_sleep_procs(1)] Let_def split: res.splits)
qed

lemma no_sleep_consoleintr: "no_sleep (consoleintr c)"
  unfolding consoleintr_def Let_def by (intro no_sleep_rules no_sleep_procs)

lemma no_sleep_uartintr_loop: "uartintr_loop s \<noteq> Sleep c t"
proof (induction s rule: uartintr_loop.induct)
  case (1 s)
  then show ?case by (subst uartintr_loop.simps) (auto simp: no_sleepD [OF no_sleep_consoleintr] split: res.splits list.splits)
qed

lemma no_sleep_uartintr: "no_sleep uartintr"
  unfolding uartintr_def by (intro no_sleep_rules) (simp_all add: no_sleep_def no_sleep_uartstart no_sleep_uartintr_loop)

lemma no_sleep_disk: "no_sleep virtio_disk_intr"
proof -
  have "no_sleep (intr_loop k)" for k by (induction k) (simp_all add: no_sleep_rules no_sleep_procs)
  then show ?thesis unfolding virtio_disk_intr_def mmio_set_def by (intro no_sleep_rules)
qed

lemma no_sleep_devintr: "no_sleep devintr"
  unfolding devintr_def clockintr_def plic_claim_def plic_complete_def cpuid_def mmio_set_def print_text_def
  by (intro no_sleep_rules no_sleep_procs no_sleep_uartintr no_sleep_disk)

lemma devintr_timer: "devintr s = Ok 2 t \<Longrightarrow> scause s = 0x8000000000000001"
  by (auto simp: devintr_def run_simps split: res.splits if_splits)

lemma yield_Sleep:
  assumes "yield s = Sleep c t"
  obtains p where "c = ChanProc p" "cur t = Some p" "held t = {ProcLock p}" "p_state (procs t p) = RUNNABLE"
proof -
  obtain p where p: "cur s = Some p" using assms by (cases "cur s") (auto simp: yield_def myproc_def run_simps)
  then have "c = ChanProc p" "cur t = Some p" "ProcLock p \<in> held t" "card (held t) = 1" "p_state (procs t p) = RUNNABLE"
    using assms by (auto simp: yield_def sched_def run_simps acquire_def split: if_splits)
  then show thesis using that [of p] by (auto simp: card_1_singleton_iff)
qed

text \<open>A timer interrupt taken while the hart holds no lock.\<close>

lemma clockintr_run:
  assumes "held s = {}"
  shows "\<exists>P. clockintr s = Ok () (s\<lparr>procs := P, ticks := ticks s + 1\<rparr>) \<and> (\<forall>p. p_state (P p) = RUNNING \<longleftrightarrow> p_state (procs s p) = RUNNING)"
proof -
  let ?s = "s\<lparr>held := {TicksLock}, ticks := ticks s + 1\<rparr>"
  have "no_plocks ?s" by (simp add: no_plocks_def)
  from update_time_run [OF this] obtain P where u: "update_time ?s = Ok () (?s\<lparr>procs := P\<rparr>)" "\<forall>p. p_state (P p) = p_state (procs s p)"
    by (auto split: if_splits)
  have "no_plocks (?s\<lparr>procs := P\<rparr>)" by (simp add: no_plocks_def)
  from wakeup_run [OF this, of ChanTicks] obtain Q where w: "wakeup ChanTicks (?s\<lparr>procs := P\<rparr>) = Ok () (?s\<lparr>procs := Q\<rparr>)"
    "\<forall>p. p_state (Q p) = RUNNING \<longleftrightarrow> p_state (P p) = RUNNING" by (auto split: if_splits)
  show ?thesis using assms u w by (intro exI [where x = Q]) (simp add: clockintr_def run_simps)
qed

lemma devintr_run:
  assumes "held s = {}" "scause s = 0x8000000000000001"
  shows "\<exists>t. devintr s = Ok 2 t \<and> held t = {} \<and> cur t = cur s \<and> (\<forall>p. p_state (procs t p) = RUNNING \<longleftrightarrow> p_state (procs s p) = RUNNING)"
proof -
  obtain P where "clockintr s = Ok () (s\<lparr>procs := P, ticks := ticks s + 1\<rparr>)" "\<forall>p. p_state (P p) = RUNNING \<longleftrightarrow> p_state (procs s p) = RUNNING"
    using clockintr_run [OF assms(1)] by blast
  then show ?thesis using assms by (simp add: devintr_def cpuid_def run_simps)
qed

lemma kerneltrap_timer:
  assumes "sstatus s AND SSTATUS_SPP \<noteq> 0" "sstatus s AND SSTATUS_SIE = 0" "scause s = 0x8000000000000001" "held s = {}"
  shows "case kerneltrap s of
    Ok _ t \<Rightarrow> \<nexists>p. cur s = Some p \<and> p_state (procs s p) = RUNNING
  | Sleep c t \<Rightarrow> \<exists>p. cur s = Some p \<and> p_state (procs s p) = RUNNING
  | Panic e \<Rightarrow> False"
proof -
  obtain t where t: "devintr s = Ok 2 t" "held t = {}" "cur t = cur s" "\<forall>p. p_state (procs t p) = RUNNING \<longleftrightarrow> p_state (procs s p) = RUNNING"
    using devintr_run [OF assms(4,3)] by blast
  show ?thesis
  proof (cases "cur s")
    case (Some p)
    then show ?thesis using assms(1,2) t
      by (cases "p_state (procs s p) = RUNNING") (simp_all add: kerneltrap_def intr_get_def restore_trap_def yield_def sched_def run_simps)
  qed (use assms(1,2) t in \<open>simp add: kerneltrap_def intr_get_def restore_trap_def run_simps\<close>)
qed

text \<open>C26: an interrupt taken in the kernel leaves the interrupted code with the registers \<open>sepc\<close> and \<open>sstatus\<close> it had.  It is accepted only from supervisor
  mode with interrupts off.  It returns with both registers as they were, or it is a timer interrupt and the process yields, runnable and with its
  own lock held; then it returns with both registers as they were once the process runs again, in whatever state the others have left the registers.  A timer interrupt
  taken with no lock held never panics, and the process yields exactly when it was running.\<close>

theorem kerneltrap_restores:
  "(case kerneltrap (s :: 'z ktrap_scheme) of
     Ok _ t \<Rightarrow> sepc t = sepc s \<and> sstatus t = sstatus s \<and> sstatus s AND SSTATUS_SPP \<noteq> 0 \<and> sstatus s AND SSTATUS_SIE = 0
   | Sleep c t \<Rightarrow> sstatus s AND SSTATUS_SPP \<noteq> 0 \<and> sstatus s AND SSTATUS_SIE = 0 \<and> scause s = 0x8000000000000001 \<and>
       (\<exists>p. c = ChanProc p \<and> cur t = Some p \<and> held t = {ProcLock p} \<and> p_state (procs t p) = RUNNABLE \<and>
         (\<forall>u :: 'z ktrap_scheme. cur u = Some p \<longrightarrow> held u = {ProcLock p} \<longrightarrow>
           kerneltrap_resume (sepc s) (sstatus s) u = Ok () (u\<lparr>held := {}, sepc := sepc s, sstatus := sstatus s\<rparr>)))
   | Panic e \<Rightarrow> True) \<and>
   (sstatus s AND SSTATUS_SPP \<noteq> 0 \<longrightarrow> sstatus s AND SSTATUS_SIE = 0 \<longrightarrow> scause s = 0x8000000000000001 \<longrightarrow> held s = {} \<longrightarrow>
    (case kerneltrap s of
       Ok _ t \<Rightarrow> \<nexists>p. cur s = Some p \<and> p_state (procs s p) = RUNNING
     | Sleep c t \<Rightarrow> \<exists>p. cur s = Some p \<and> p_state (procs s p) = RUNNING
     | Panic e \<Rightarrow> False))"
proof (rule conjI)
  show "case kerneltrap s of
     Ok _ t \<Rightarrow> sepc t = sepc s \<and> sstatus t = sstatus s \<and> sstatus s AND SSTATUS_SPP \<noteq> 0 \<and> sstatus s AND SSTATUS_SIE = 0
   | Sleep c t \<Rightarrow> sstatus s AND SSTATUS_SPP \<noteq> 0 \<and> sstatus s AND SSTATUS_SIE = 0 \<and> scause s = 0x8000000000000001 \<and>
       (\<exists>p. c = ChanProc p \<and> cur t = Some p \<and> held t = {ProcLock p} \<and> p_state (procs t p) = RUNNABLE \<and>
         (\<forall>u :: 'z ktrap_scheme. cur u = Some p \<longrightarrow> held u = {ProcLock p} \<longrightarrow>
           kerneltrap_resume (sepc s) (sstatus s) u = Ok () (u\<lparr>held := {}, sepc := sepc s, sstatus := sstatus s\<rparr>)))
   | Panic e \<Rightarrow> True"
  proof (cases "kerneltrap s")
  case (Ok a t)
  then show ?thesis
    by (auto simp: kerneltrap_def restore_trap_def intr_get_def run_simps bind_def thn_def panic_if_def ret_def panic_def modify_def gets_def
      split: res.splits if_splits option.splits)
next
  case (Sleep c t)
  have d: "devintr s \<noteq> Sleep c t" for s c and t :: "'z ktrap_scheme" by (rule no_sleepD [OF no_sleep_devintr])
  obtain u where u: "devintr s = Ok 2 u" "yield u = Sleep c t" "sstatus s AND SSTATUS_SPP \<noteq> 0" "sstatus s AND SSTATUS_SIE = 0"
    using Sleep d by (auto simp: kerneltrap_def restore_trap_def print_text_def intr_get_def run_simps split: res.splits if_splits option.splits)
  from u(2) obtain p where "c = ChanProc p" "cur t = Some p" "held t = {ProcLock p}" "p_state (procs t p) = RUNNABLE" by (rule yield_Sleep)
  moreover have "kerneltrap_resume (sepc s) (sstatus s) w = Ok () (w\<lparr>held := {}, sepc := sepc s, sstatus := sstatus s\<rparr>)"
    if "cur w = Some p" "held w = {ProcLock p}" for w :: "'z ktrap_scheme"
    using that by (simp add: kerneltrap_resume_def yield_resume_def restore_trap_def run_simps)
  ultimately show ?thesis using u(3,4) devintr_timer [OF u(1)] Sleep by simp
  qed simp
qed (use kerneltrap_timer in blast)

end
