(* ===== verification/Bcache.thy ===== *)
theory Bcache
  imports Log
begin

text \<open>
  What the buffer cache promises to its users.  \<open>bview\<close> is the contents of a block as the kernel sees it: the data of
  the valid buffer that holds it, or the disk.  The invariant is stated for a process \<open>p\<close> that uses device \<open>d\<close> with
  \<open>pins\<close> references kept on blocks and the blocks \<open>lks\<close> locked.
\<close>

definition holds :: "'z kbio_scheme \<Rightarrow> uint \<Rightarrow> uint \<Rightarrow> nat \<Rightarrow> bool" where
  "holds s d n b \<longleftrightarrow> b < NBUF \<and> b_dev (bufs s b) = d \<and> b_blockno (bufs s b) = n"

definition bview :: "'z kbio_scheme \<Rightarrow> uint \<Rightarrow> uint \<Rightarrow> uchar list" where
  "bview s d n = (case find (\<lambda>b. b_dev (bufs s b) = d \<and> b_blockno (bufs s b) = n) [0..<NBUF] of
     Some b \<Rightarrow> if b_valid (bufs s b) then b_data (bufs s b) else disk s n | None \<Rightarrow> disk s n)"

definition uses :: "uint \<Rightarrow> (uint \<Rightarrow> nat) \<Rightarrow> uint set \<Rightarrow> buf \<Rightarrow> nat" where
  "uses d pins lks x = (if b_dev x = d then pins (b_blockno x) + (if b_blockno x \<in> lks then 1 else 0) else 0)"

text \<open>A buffer counts its users, holds what is on the disk when it has none, is valid when it has some, and its sleep
  lock is held by the process exactly for the locked blocks.\<close>

definition buf_ok :: "uint \<Rightarrow> (uint \<Rightarrow> uchar list) \<Rightarrow> (uint \<Rightarrow> nat) \<Rightarrow> uint set \<Rightarrow> int \<Rightarrow> buf \<Rightarrow> sleeplock \<Rightarrow> bool" where
  "buf_ok d D pins lks pid x l \<longleftrightarrow>
     b_refcnt x = of_nat (uses d pins lks x) \<and> length (b_data x) = BSIZE \<and>
     (b_valid x \<and> b_dev x = d \<and> uses d pins lks x = 0 \<longrightarrow> b_data x = D (b_blockno x)) \<and>
     (uses d pins lks x > 0 \<longrightarrow> b_valid x) \<and>
     (if b_dev x = d \<and> b_blockno x \<in> lks then l = \<lparr>sl_locked = True, sl_pid = pid\<rparr> else \<not> sl_locked l)"

definition bio_inv :: "'z kbio_scheme \<Rightarrow> uint \<Rightarrow> nat \<Rightarrow> (uint \<Rightarrow> nat) \<Rightarrow> uint set \<Rightarrow> bool" where
  "bio_inv s d p pins lks \<longleftrightarrow>
     held s = {} \<and> cur s = Some p \<and> distinct (lru s) \<and> set (lru s) = {..<NBUF} \<and>
     (\<forall>n b c. holds s d n b \<longrightarrow> holds s d n c \<longrightarrow> b = c) \<and>
     (\<forall>b<NBUF. buf_ok d (disk s) pins lks (p_pid (procs s p)) (bufs s b) (slks s (BufLk b))) \<and>
     (\<forall>n. pins n > 0 \<or> n \<in> lks \<longrightarrow> (\<exists>b. holds s d n b)) \<and>
     (\<forall>n. pins n < 1000 \<and> length (disk s n) = BSIZE)"

lemma bio_invD:
  assumes "bio_inv s d p pins lks"
  shows "held s = {}" "cur s = Some p" "distinct (lru s)" "set (lru s) = {..<NBUF}"
    "holds s d n b \<Longrightarrow> holds s d n c \<Longrightarrow> b = c"
    "b < NBUF \<Longrightarrow> buf_ok d (disk s) pins lks (p_pid (procs s p)) (bufs s b) (slks s (BufLk b))"
    "pins n > 0 \<or> n \<in> lks \<Longrightarrow> \<exists>b. holds s d n b" "pins n < 1000" "length (disk s n) = BSIZE"
  using assms unfolding bio_inv_def by blast+

lemma find_unique:
  assumes "find P xs = r" "set xs = {..<k}" "\<forall>b<k. \<forall>c<k. P b \<longrightarrow> P c \<longrightarrow> b = c"
  shows "b < k \<Longrightarrow> P b \<Longrightarrow> r = Some b" "\<forall>b<k. \<not> P b \<Longrightarrow> r = None"
proof -
  assume b: "b < k" "P b"
  then obtain c where "r = Some c" using assms(1,2) by (cases r) (auto simp: find_None_iff)
  moreover have "c < k" "P c" using calculation assms(1,2) by (auto simp: find_Some_iff)
  ultimately show "r = Some b" using assms(3) b by blast
next
  assume "\<forall>b<k. \<not> P b"
  then show "r = None" using assms(1,2) by (auto simp: find_None_iff)
qed

lemma bview_simps:
  assumes "bio_inv s d p pins lks"
  shows "holds s d n b \<Longrightarrow> bview s d n = (if b_valid (bufs s b) then b_data (bufs s b) else disk s n)"
    "(\<And>b. \<not> holds s d n b) \<Longrightarrow> bview s d n = disk s n"
proof -
  let ?P = "\<lambda>b. b_dev (bufs s b) = d \<and> b_blockno (bufs s b) = n"
  have u: "\<forall>b<NBUF. \<forall>c<NBUF. ?P b \<longrightarrow> ?P c \<longrightarrow> b = c"
    using bio_invD(5) [OF assms, of n] by (auto simp: holds_def)
  have k: "set [0..<NBUF] = {..<NBUF}" by auto
  note f = find_unique [where P = ?P and k = NBUF, OF refl k u]
  show "bview s d n = (if b_valid (bufs s b) then b_data (bufs s b) else disk s n)" if "holds s d n b"
    using f(1) [of b] that by (simp add: bview_def holds_def)
  show "bview s d n = disk s n" if "\<And>b. \<not> holds s d n b"
  proof -
    have "find ?P [0..<NBUF] = None" using that f(2) by (simp add: holds_def)
    then show ?thesis by (simp add: bview_def)
  qed
qed

text \<open>A buffer with no user shows what is on the disk.\<close>

lemma bview_unused:
  assumes "bio_inv s d p pins lks" "pins n = 0" "n \<notin> lks"
  shows "bview s d n = disk s n"
proof (cases "\<exists>b. holds s d n b")
  case True
  then obtain b where b: "holds s d n b" ..
  then have "uses d pins lks (bufs s b) = 0" using assms(2,3) by (simp add: uses_def holds_def)
  then show ?thesis using bview_simps(1) [OF assms(1) b] bio_invD(6) [OF assms(1), of b] b by (simp add: buf_ok_def holds_def)
next
  case False
  then show ?thesis by (intro bview_simps(2) [OF assms(1)]) blast
qed

text \<open>The core of every operation: one buffer is set up for block \<open>n\<close>.\<close>

lemma bio_set:
  assumes inv: "bio_inv s d p pins lks"
    and x: "b < NBUF" "b_dev x = d" "b_blockno x = n" "b_valid x" "buf_ok d (disk t) pins' lks' (p_pid (procs s p)) x (slks t (BufLk b))"
    and old: "holds s d n b \<or> (\<forall>c. \<not> holds s d n c) \<and> uses d pins lks (bufs s b) = 0"
    and same: "\<And>m. m \<noteq> n \<Longrightarrow> pins' m = pins m \<and> (m \<in> lks' \<longleftrightarrow> m \<in> lks) \<and> disk t m = disk s m"
    and n: "pins' n < 1000" "length (disk t n) = BSIZE"
    and t: "bufs t = (bufs s)(b := x)" "\<And>c. c \<noteq> b \<Longrightarrow> slks t (BufLk c) = slks s (BufLk c)"
      "held t = {}" "cur t = Some p" "p_pid (procs t p) = p_pid (procs s p)" "distinct (lru t)" "set (lru t) = {..<NBUF}"
  shows "bio_inv t d p pins' lks' \<and> bview t d = (bview s d)(n := b_data x)"
proof (rule conjI)
  have ht: "holds t d m c \<longleftrightarrow> (if c = b then m = n else holds s d m c)" for m c
    using x by (auto simp: holds_def t)
  have nb: "\<not> holds s d n c" if "c \<noteq> b" for c using old bio_invD(5) [OF inv] that by blast
  have ok: "buf_ok d (disk t) pins' lks' (p_pid (procs t p)) (bufs t c) (slks t (BufLk c))" if c: "c < NBUF" for c
  proof (cases "c = b")
    case False
    have ne: "b_dev (bufs s c) \<noteq> d \<or> b_blockno (bufs s c) \<noteq> n" using nb [OF False] c by (simp add: holds_def)
    have "uses d pins' lks' (bufs s c) = uses d pins lks (bufs s c)" using ne same by (auto simp: uses_def)
    moreover have "disk t (b_blockno (bufs s c)) = disk s (b_blockno (bufs s c)) \<and> (b_blockno (bufs s c) \<in> lks' \<longleftrightarrow> b_blockno (bufs s c) \<in> lks)"
      if "b_dev (bufs s c) = d" using ne same that by blast
    ultimately show ?thesis using bio_invD(6) [OF inv c] False by (cases "b_dev (bufs s c) = d") (simp_all add: buf_ok_def t)
  qed (use x t in simp)
  have pin: "\<exists>c. holds t d m c" if pm: "pins' m > 0 \<or> m \<in> lks'" for m
  proof (cases "m = n")
    case False
    then have "pins m > 0 \<or> m \<in> lks" using pm same [of m] by simp
    then obtain c where c: "holds s d m c" using bio_invD(7) [OF inv, of m] by blast
    have "c \<noteq> b"
    proof
      assume "c = b"
      then have "uses d pins lks (bufs s b) > 0" using c pm same [of m] False by (auto simp: holds_def uses_def)
      then show False using old c \<open>c = b\<close> False by (auto simp: holds_def)
    qed
    then show ?thesis using c ht [of m c] by auto
  next
    case True
    then show ?thesis using ht [of m b] by auto
  qed
  show i: "bio_inv t d p pins' lks'"
    unfolding bio_inv_def
  proof (intro conjI allI impI)
    fix m a c assume "holds t d m a" "holds t d m c"
    then show "a = c" using ht nb bio_invD(5) [OF inv, of m a c] by (cases "a = b"; cases "c = b") auto
  next
    fix m show "pins' m < 1000" using n(1) same bio_invD(8) [OF inv, of m] by (cases "m = n") auto
  next
    fix m show "length (disk t m) = BSIZE" using n(2) same bio_invD(9) [OF inv, of m] by (cases "m = n") auto
  next
    fix c assume "c < NBUF"
    then show "buf_ok d (disk t) pins' lks' (p_pid (procs t p)) (bufs t c) (slks t (BufLk c))" by (rule ok)
  next
    fix m assume "pins' m > 0 \<or> m \<in> lks'"
    then show "\<exists>c. holds t d m c" by (rule pin)
  qed (simp_all add: t)
  show "bview t d = (bview s d)(n := b_data x)"
  proof
    fix m
    show "bview t d m = ((bview s d)(n := b_data x)) m"
    proof (cases "m = n")
      case True
      then have "holds t d m b" using ht by simp
      then show ?thesis using bview_simps(1) [OF i] True x t by simp
    next
      case False
      show ?thesis
      proof (cases "\<exists>c. holds t d m c")
        case True
        then obtain c where c: "holds t d m c" "holds s d m c" "c \<noteq> b" using ht False by (auto split: if_splits)
        then show ?thesis using bview_simps(1) [OF i c(1)] bview_simps(1) [OF inv c(2)] same False t by simp
      next
        case none: False
        have "bview s d m = disk s m"
        proof (cases "holds s d m b")
          case True
          then have "uses d pins lks (bufs s b) = 0" using old False by (auto simp: holds_def)
          then show ?thesis using bview_simps(1) [OF inv True] bio_invD(6) [OF inv x(1)] True by (simp add: buf_ok_def holds_def)
        next
          case nh: False
          have "\<not> holds s d m c" for c using nh none ht [of m c] by (cases "c = b") auto
          then show ?thesis by (rule bview_simps(2) [OF inv])
        qed
        then show ?thesis using bview_simps(2) [OF i] none same False by simp
      qed
    qed
  qed
qed


subsection \<open>The operations\<close>

lemma held_same: "held s = {} \<Longrightarrow> s\<lparr>held := {}\<rparr> = s"
  by simp

lemma acquiresleep_run:
  assumes "held s = {}" "cur s = Some p" "\<not> sl_locked (slks s lk)"
  shows "acquiresleep lk s = Ok () (s\<lparr>slks := (slks s)(lk := \<lparr>sl_locked = True, sl_pid = p_pid (procs s p)\<rparr>)\<rparr>)"
  using assms by (simp add: acquiresleep_def acquiresleep_loop_def run_simps)

lemma holdingsleep_run:
  assumes "held s = {}" "cur s = Some p"
  shows "holdingsleep lk s = Ok (sl_locked (slks s lk) \<and> sl_pid (slks s lk) = p_pid (procs s p)) s"
  using assms by (simp add: holdingsleep_def run_simps)

text \<open>A process table in which only sleepers have been woken.\<close>

definition woken :: "chan \<Rightarrow> nat option \<Rightarrow> (nat \<Rightarrow> proc) \<Rightarrow> nat \<Rightarrow> proc" where
  "woken c me ps = (\<lambda>p. if p < NPROC \<and> me \<noteq> Some p \<and> p_state (ps p) = SLEEPING \<and>
     p_chan (ps p) = Some c then (ps p)\<lparr>p_state := RUNNABLE\<rparr> else ps p)"

lemma woken_pid [simp]: "p_pid (woken c me ps p) = p_pid (ps p)"
  by (simp add: woken_def)

lemma wakeup_woken: "no_plocks s \<Longrightarrow> wakeup c s = Ok () (s\<lparr>procs := woken c (cur s) (procs s)\<rparr>)"
  by (simp add: wakeup_run woken_def)

lemma releasesleep_run:
  assumes "held s = {}"
  shows "releasesleep lk s = Ok () (s\<lparr>slks := (slks s)(lk := \<lparr>sl_locked = False, sl_pid = 0\<rparr>),
    procs := woken (ChanSlk lk) (cur s) (procs s)\<rparr>)"
  using assms by (simp add: releasesleep_def run_simps wakeup_woken no_plocks_def)

lemma upd_buf_run [run_simps]: "upd_buf b f s = Ok () (s\<lparr>bufs := (bufs s)(b := f (bufs s b))\<rparr>)"
  by (simp add: upd_buf_def run_simps)

text \<open>Where \<open>bget\<close> finds its buffer.\<close>

lemma bget_target:
  assumes "bio_inv s d p pins lks" "n \<notin> lks" "card ({m. pins m > 0} \<union> lks) < NBUF \<or> pins n > 0" "finite ({m. pins m > 0} \<union> lks)"
  obtains b where "holds s d n b" "find (\<lambda>b. b_dev (bufs s b) = d \<and> b_blockno (bufs s b) = n) (lru s) = Some b"
  | b where "\<forall>c. \<not> holds s d n c" "b < NBUF" "uses d pins lks (bufs s b) = 0"
      "find (\<lambda>b. b_dev (bufs s b) = d \<and> b_blockno (bufs s b) = n) (lru s) = None"
      "find (\<lambda>b. b_refcnt (bufs s b) = 0) (rev (lru s)) = Some b"
proof (cases "\<exists>b. holds s d n b")
  case True
  then obtain b where b: "holds s d n b" ..
  let ?P = "\<lambda>b. b_dev (bufs s b) = d \<and> b_blockno (bufs s b) = n"
  have u: "\<forall>b<NBUF. \<forall>c<NBUF. ?P b \<longrightarrow> ?P c \<longrightarrow> b = c" using bio_invD(5) [OF assms(1), of n] by (auto simp: holds_def)
  have "find ?P (lru s) = Some b"
    using find_unique(1) [where P = ?P, OF refl bio_invD(4) [OF assms(1)] u, of b] b by (simp add: holds_def)
  then show ?thesis using that(1) b by blast
next
  case False
  let ?A = "{m. pins m > 0} \<union> lks"
  have lt: "card ?A < NBUF" using assms(3) False bio_invD(7) [OF assms(1), of n] by blast
  have ex: "\<exists>b<NBUF. uses d pins lks (bufs s b) = 0"
  proof (rule ccontr)
    assume no: "\<not> (\<exists>b<NBUF. uses d pins lks (bufs s b) = 0)"
    have pos: "uses d pins lks (bufs s b) > 0" if lt: "b < NBUF" for b using no lt by auto
    have "inj_on (\<lambda>b. b_blockno (bufs s b)) {..<NBUF}"
    proof (rule inj_onI)
      fix a b assume ab: "a \<in> {..<NBUF}" "b \<in> {..<NBUF}" "b_blockno (bufs s a) = b_blockno (bufs s b)"
      have "b_dev (bufs s a) = d" "b_dev (bufs s b) = d" using pos [of a] pos [of b] ab by (auto simp: uses_def split: if_splits)
      then show "a = b" using bio_invD(5) [OF assms(1), of "b_blockno (bufs s b)" a b] ab by (simp add: holds_def)
    qed
    moreover have "(\<lambda>b. b_blockno (bufs s b)) ` {..<NBUF} \<subseteq> ?A"
    proof
      fix m assume "m \<in> (\<lambda>b. b_blockno (bufs s b)) ` {..<NBUF}"
      then obtain b where "b < NBUF" "m = b_blockno (bufs s b)" by auto
      then show "m \<in> ?A" using pos [of b] by (auto simp: uses_def split: if_splits)
    qed
    ultimately have "card {..<NBUF} \<le> card ?A" using assms(4) by (intro card_inj_on_le)
    then show False using lt by simp
  qed
  have z: "b_refcnt (bufs s b) = 0 \<longleftrightarrow> uses d pins lks (bufs s b) = 0" if bn: "b < NBUF" for b
  proof -
    have "uses d pins lks (bufs s b) < 2000" using bio_invD(8) [OF assms(1), of "b_blockno (bufs s b)"] by (simp add: uses_def)
    then have "unat (of_nat (uses d pins lks (bufs s b)) :: uint) = uses d pins lks (bufs s b)"
      by (simp add: unsigned_of_nat take_bit_nat_eq_self)
    moreover have "b_refcnt (bufs s b) = of_nat (uses d pins lks (bufs s b))"
      using bio_invD(6) [OF assms(1) bn] by (simp add: buf_ok_def)
    ultimately have "unat (b_refcnt (bufs s b)) = uses d pins lks (bufs s b)" by simp
    then show ?thesis by (auto simp: word_unat_eq_iff)
  qed
  have n: "find (\<lambda>b. b_dev (bufs s b) = d \<and> b_blockno (bufs s b) = n) (lru s) = None"
    using False bio_invD(4) [OF assms(1)] by (auto simp: find_None_iff holds_def)
  show ?thesis
  proof (cases "find (\<lambda>b. b_refcnt (bufs s b) = 0) (rev (lru s))")
    case None
    then show ?thesis using ex z bio_invD(4) [OF assms(1)] by (auto simp: find_None_iff)
  next
    case (Some b)
    then obtain i where "i < length (rev (lru s))" "b = rev (lru s) ! i" "b_refcnt (bufs s b) = 0" by (auto simp: find_Some_iff)
    then have "b \<in> set (rev (lru s))" "b_refcnt (bufs s b) = 0" using nth_mem by blast+
    then have "b < NBUF" "b_refcnt (bufs s b) = 0" using bio_invD(4) [OF assms(1)] by auto
    then show ?thesis using that(2) False z n Some by blast
  qed
qed


text \<open>What an operation keeps besides the cache.\<close>

abbreviation kept_io :: "'z kbio_scheme \<Rightarrow> 'z kbio_scheme \<Rightarrow> bool" where
  "kept_io s t \<equiv> disk t = disk s \<and> dwrites t = dwrites s \<and> kbio.more t = kbio.more s"

lemma of_nat_Suc_pin: "b_refcnt x = of_nat k \<Longrightarrow> b_refcnt x + 1 = of_nat (k + 1)"
  by simp

lemma bread_ok:
  assumes inv: "bio_inv s d p pins lks" and n: "n \<notin> lks" "card ({m. pins m > 0} \<union> lks) < NBUF \<or> pins n > 0"
    "finite ({m. pins m > 0} \<union> lks)"
  obtains b t where "bread d n s = Ok b t" "bio_inv t d p pins (insert n lks)" "holds t d n b" "bview t d = bview s d"
    "b_data (bufs t b) = bview s d n" "kept_io s t" "\<And>m c. m \<in> lks \<Longrightarrow> holds s d m c \<Longrightarrow> holds t d m c"
proof -
  note i = bio_invD(1,2) [OF inv]
  let ?pid = "p_pid (procs s p)"
  let ?x = "\<lparr>b_valid = True, b_dev = d, b_blockno = n, b_refcnt = of_nat (pins n + 1), b_data = bview s d n\<rparr>"
  let ?t = "\<lambda>b. s\<lparr>bufs := (bufs s)(b := ?x), slks := (slks s)(BufLk b := \<lparr>sl_locked = True, sl_pid = ?pid\<rparr>)\<rparr>"
  have "\<exists>b. b < NBUF \<and> bread d n s = Ok b (?t b) \<and> (holds s d n b \<or> (\<forall>c. \<not> holds s d n c) \<and> uses d pins lks (bufs s b) = 0)"
    using bget_target [OF inv n]
  proof cases
    case (1 b)
    then have b: "b < NBUF" "b_dev (bufs s b) = d" "b_blockno (bufs s b) = n" by (simp_all add: holds_def)
    note ok = bio_invD(6) [OF inv b(1), unfolded buf_ok_def]
    have l: "\<not> sl_locked (slks s (BufLk b))" and r: "b_refcnt (bufs s b) = of_nat (pins n)" using ok b n(1) by (simp_all add: uses_def)
    have v: "bview s d n = (if b_valid (bufs s b) then b_data (bufs s b) else disk s n)" by (rule bview_simps(1) [OF inv 1(1)])
    have "bread d n s = Ok b (?t b)"
    proof (cases "b_valid (bufs s b)")
      case True
      then have "(bufs s b)\<lparr>b_refcnt := of_nat (pins n) + 1\<rparr> = ?x" using b v by (cases "bufs s b") simp
      then show ?thesis using True i l r by (simp add: bread_def bget_def run_simps 1(2) acquiresleep_run)
    next
      case False
      then have "(bufs s b)\<lparr>b_refcnt := of_nat (pins n) + 1, b_data := disk s n, b_valid := True\<rparr> = ?x" using b v by (cases "bufs s b") simp
      then show ?thesis using False i l r b(2,3)
        by (simp add: bread_def bget_def run_simps 1(2) acquiresleep_run disk_rw_def)
    qed
    then show ?thesis using b(1) 1(1) by blast
  next
    case (2 b)
    note ok = bio_invD(6) [OF inv 2(2), unfolded buf_ok_def]
    have "pins n = 0"
    proof (rule ccontr)
      assume "pins n \<noteq> 0"
      then have "\<exists>b. holds s d n b" by (intro bio_invD(7) [OF inv]) simp
      then show False using 2(1) by simp
    qed
    have v: "bview s d n = disk s n" using 2(1) by (intro bview_simps(2) [OF inv]) blast
    have l: "\<not> sl_locked (slks s (BufLk b))" using ok 2(3) by (auto simp: uses_def split: if_splits)
    let ?y = "(bufs s b)\<lparr>b_dev := d, b_blockno := n, b_valid := False, b_refcnt := 1\<rparr>"
    let ?u = "s\<lparr>bufs := (bufs s)(b := ?y), slks := (slks s)(BufLk b := \<lparr>sl_locked = True, sl_pid = ?pid\<rparr>)\<rparr>"
    have g: "bget d n s = Ok b ?u" using i l by (simp add: bget_def run_simps 2(4,5) acquiresleep_run)
    have y: "\<not> b_valid ?y" "b_blockno ?y = n" by simp_all
    have "bread d n s = Ok b (?u\<lparr>bufs := (bufs ?u)(b := ?y\<lparr>b_data := disk s n, b_valid := True\<rparr>)\<rparr>)"
      unfolding bread_def bind_def g by (simp add: run_simps disk_rw_def)
    moreover have "?y\<lparr>b_data := disk s n, b_valid := True\<rparr> = ?x" unfolding v \<open>pins n = 0\<close> by (cases "bufs s b") simp
    ultimately have "bread d n s = Ok b (?t b)" by simp
    then show ?thesis using 2(1-3) by blast
  qed
  then obtain b where b: "b < NBUF" "bread d n s = Ok b (?t b)" "holds s d n b \<or> (\<forall>c. \<not> holds s d n c) \<and> uses d pins lks (bufs s b) = 0"
    by blast
  have len: "length (bview s d n) = BSIZE"
  proof (cases "\<exists>c. holds s d n c")
    case True
    then obtain c where c: "holds s d n c" ..
    then show ?thesis using bview_simps(1) [OF inv c] bio_invD(6) [OF inv, of c] bio_invD(9) [OF inv, of n]
      by (simp add: holds_def buf_ok_def)
  next
    case False
    then show ?thesis using bview_simps(2) [OF inv, of n] bio_invD(9) [OF inv, of n] by simp
  qed
  note set = bio_set [OF inv b(1) _ _ _ _ b(3), where x = ?x and t = "?t b" and pins' = pins and lks' = "insert n lks"]
  have "bio_inv (?t b) d p pins (insert n lks) \<and> bview (?t b) d = (bview s d)(n := b_data ?x)"
    by (rule set) (use bio_invD(1-4,8,9) [OF inv] len in \<open>simp_all add: buf_ok_def uses_def\<close>)
  moreover have "holds (?t b) d m c" if m: "m \<in> lks" "holds s d m c" for m c
  proof -
    have "uses d pins lks (bufs s c) > 0" using m by (simp add: uses_def holds_def)
    then have "c \<noteq> b" using b(3) m n(1) by (auto simp: holds_def)
    then show ?thesis using m(2) by (simp add: holds_def)
  qed
  ultimately show ?thesis using that [OF b(2)] b(1) by (simp add: holds_def)
qed


text \<open>The other operations, on a buffer that holds a locked block.\<close>

lemma locked_buf:
  assumes "bio_inv s d p pins lks" "holds s d n b" "n \<in> lks"
  shows "b < NBUF" "b_dev (bufs s b) = d" "b_blockno (bufs s b) = n" "b_valid (bufs s b)" "length (b_data (bufs s b)) = BSIZE"
    "b_refcnt (bufs s b) = of_nat (pins n + 1)" "slks s (BufLk b) = \<lparr>sl_locked = True, sl_pid = p_pid (procs s p)\<rparr>"
    "bview s d n = b_data (bufs s b)" "pins n < 1000"
proof -
  show "b < NBUF" "b_dev (bufs s b) = d" "b_blockno (bufs s b) = n" using assms(2) by (simp_all add: holds_def)
  then have "buf_ok d (disk s) pins lks (p_pid (procs s p)) (bufs s b) (slks s (BufLk b))" "b_dev (bufs s b) = d" "b_blockno (bufs s b) = n"
    using bio_invD(6) [OF assms(1)] by auto
  then show v: "b_valid (bufs s b)" "length (b_data (bufs s b)) = BSIZE" "b_refcnt (bufs s b) = of_nat (pins n + 1)"
    "slks s (BufLk b) = \<lparr>sl_locked = True, sl_pid = p_pid (procs s p)\<rparr>" using assms(3) by (simp_all add: buf_ok_def uses_def)
  show "bview s d n = b_data (bufs s b)" using bview_simps(1) [OF assms(1,2)] v(1) by simp
  show "pins n < 1000" by (rule bio_invD(8) [OF assms(1)])
qed

lemma set_data_ok:
  assumes inv: "bio_inv s d p pins lks" and h: "holds s d n b" "n \<in> lks" and f: "length (f (bview s d n)) = BSIZE"
  obtains t where "set_data b f s = Ok () t" "bio_inv t d p pins lks" "\<And>m c. holds t d m c = holds s d m c"
    "bview t d = (bview s d)(n := f (bview s d n))" "kept_io s t"
proof -
  note l = locked_buf [OF inv h]
  let ?x = "(bufs s b)\<lparr>b_data := f (b_data (bufs s b))\<rparr>"
  let ?t = "s\<lparr>bufs := (bufs s)(b := ?x)\<rparr>"
  have r: "set_data b f s = Ok () ?t" by (simp add: set_data_def run_simps)
  have old: "holds s d n b \<or> (\<forall>c. \<not> holds s d n c) \<and> uses d pins lks (bufs s b) = 0" using h(1) ..
  note set = bio_set [OF inv l(1) _ _ _ _ old, where x = ?x and t = ?t and pins' = pins and lks' = lks]
  have "bio_inv ?t d p pins lks \<and> bview ?t d = (bview s d)(n := b_data ?x)"
    by (rule set) (use bio_invD(1-4,8,9) [OF inv] l f h(2) in \<open>simp_all add: buf_ok_def uses_def\<close>)
  moreover have "holds ?t d m c = holds s d m c" for m c by (simp add: holds_def)
  ultimately show ?thesis using that [OF r] l(8) by simp
qed

lemma bwrite_ok:
  assumes inv: "bio_inv s d p pins lks" and h: "holds s d n b" "n \<in> lks"
  obtains t where "bwrite b s = Ok () t" "bio_inv t d p pins lks" "\<And>m c. holds t d m c = holds s d m c"
    "bview t d = bview s d" "disk t = (disk s)(n := bview s d n)" "dwrites t = dwrites s @ [(n, bview s d n)]"
    "kbio.more t = kbio.more s"
proof -
  note l = locked_buf [OF inv h]
  let ?x = "bufs s b"
  let ?t = "s\<lparr>disk := (disk s)(n := b_data ?x), dwrites := dwrites s @ [(n, b_data ?x)]\<rparr>"
  have r: "bwrite b s = Ok () ?t"
    using bio_invD(1,2) [OF inv] l by (simp add: bwrite_def run_simps holdingsleep_run disk_rw_def)
  have old: "holds s d n b \<or> (\<forall>c. \<not> holds s d n c) \<and> uses d pins lks (bufs s b) = 0" using h(1) ..
  note set = bio_set [OF inv l(1) _ _ _ _ old, where x = ?x and t = ?t and pins' = pins and lks' = lks]
  have "bio_inv ?t d p pins lks \<and> bview ?t d = (bview s d)(n := b_data ?x)"
    by (rule set) (use bio_invD(1-4,8,9) [OF inv] l h(2) in \<open>simp_all add: buf_ok_def uses_def\<close>)
  moreover have "holds ?t d m c = holds s d m c" for m c by (simp add: holds_def)
  ultimately show ?thesis using that [OF r] fun_upd_idem [where f = "bview s d", OF l(8)] l(8) by simp
qed

lemma brelse_ok:
  assumes inv: "bio_inv s d p pins lks" and h: "holds s d n b" "n \<in> lks" and c: "pins n = 0 \<longrightarrow> bview s d n = disk s n"
  obtains t where "brelse b s = Ok () t" "bio_inv t d p pins (lks - {n})" "\<And>m c. holds t d m c = holds s d m c"
    "bview t d = bview s d" "kept_io s t"
proof -
  note l = locked_buf [OF inv h]
  note i = bio_invD(1-4) [OF inv]
  let ?x = "(bufs s b)\<lparr>b_refcnt := of_nat (pins n)\<rparr>"
  define ls where "ls = (if pins n = 0 then b # remove1 b (lru s) else lru s)"
  let ?t = "s\<lparr>slks := (slks s)(BufLk b := \<lparr>sl_locked = False, sl_pid = 0\<rparr>), procs := woken (ChanSlk (BufLk b)) (cur s) (procs s),
    bufs := (bufs s)(b := ?x), lru := ls\<rparr>"
  have z: "(of_nat (pins n) :: uint) = 0 \<longleftrightarrow> pins n = 0"
  proof -
    have "unat (of_nat (pins n) :: uint) = pins n" using l(9) by (simp add: unsigned_of_nat take_bit_nat_eq_self)
    then show ?thesis by (auto simp: word_unat_eq_iff)
  qed
  have r: "brelse b s = Ok () ?t"
    using i l z by (cases "pins n = 0") (simp_all add: brelse_def run_simps holdingsleep_run releasesleep_run ls_def)
  have ls: "distinct ls" "set ls = {..<NBUF}" using i l(1) by (auto simp: ls_def)
  have old: "holds s d n b \<or> (\<forall>c. \<not> holds s d n c) \<and> uses d pins lks (bufs s b) = 0" using h(1) ..
  note set = bio_set [OF inv l(1) _ _ _ _ old, where x = ?x and t = ?t and pins' = pins and lks' = "lks - {n}"]
  have "bio_inv ?t d p pins (lks - {n}) \<and> bview ?t d = (bview s d)(n := b_data ?x)"
    by (rule set) (use bio_invD(1-4,8,9) [OF inv] l h(2) ls c in \<open>simp_all add: buf_ok_def uses_def\<close>)
  moreover have "holds ?t d m c = holds s d m c" for m c by (simp add: holds_def)
  ultimately show ?thesis using that [OF r] fun_upd_idem [where f = "bview s d", OF l(8)] l(8) by simp
qed

lemma bunpin_ok:
  assumes inv: "bio_inv s d p pins lks" and h: "holds s d n b" "n \<in> lks" "pins n > 0"
  obtains t where "bunpin b s = Ok () t" "bio_inv t d p (pins(n := pins n - 1)) lks" "\<And>m c. holds t d m c = holds s d m c"
    "bview t d = bview s d" "kept_io s t"
proof -
  note l = locked_buf [OF inv h(1,2)]
  let ?x = "(bufs s b)\<lparr>b_refcnt := of_nat (pins n)\<rparr>"
  let ?t = "s\<lparr>bufs := (bufs s)(b := ?x)\<rparr>"
  have r: "bunpin b s = Ok () ?t" using bio_invD(1) [OF inv] l by (simp add: bunpin_def run_simps)
  have old: "holds s d n b \<or> (\<forall>c. \<not> holds s d n c) \<and> uses d pins lks (bufs s b) = 0" using h(1) ..
  note set = bio_set [OF inv l(1) _ _ _ _ old, where x = ?x and t = ?t and pins' = "pins(n := pins n - 1)" and lks' = lks]
  have k: "pins n - 1 + 1 = pins n" "pins n - Suc 0 < 1000" using h(3) l(9) by simp_all
  have "bio_inv ?t d p (pins(n := pins n - 1)) lks \<and> bview ?t d = (bview s d)(n := b_data ?x)"
    by (rule set) (use bio_invD(1-4,8,9) [OF inv] l h(2) k in \<open>simp_all add: buf_ok_def uses_def\<close>)
  moreover have "holds ?t d m c = holds s d m c" for m c by (simp add: holds_def)
  ultimately show ?thesis using that [OF r] fun_upd_idem [where f = "bview s d", OF l(8)] l(8) by simp
qed


text \<open>C21: the cache is transparent.  Reading a block returns a locked buffer with the contents the kernel sees in that
  block, whichever buffer had to be recycled for it; no other block changes its contents, and the disk is not written.\<close>

theorem bread_spec:
  assumes "bio_inv s d p pins lks" "n \<notin> lks" "card ({m. pins m > 0} \<union> lks) < NBUF \<or> pins n > 0" "finite ({m. pins m > 0} \<union> lks)"
  shows "\<exists>b t. bread d n s = Ok b t \<and> bio_inv t d p pins (insert n lks) \<and> holds t d n b \<and> b_data (bufs t b) = bview s d n \<and>
    bview t d = bview s d \<and> disk t = disk s \<and> dwrites t = dwrites s"
  by (rule bread_ok [OF assms]) blast

end
