(* ===== verification/Demo.thy ===== *)
theory Demo
  imports Trap Bcache
begin

text \<open>
  A concrete kernel state with one running process, on which the theorems about system calls, files, the log and
  traps are applied.
\<close>

definition z_proc :: proc where
  "z_proc = \<lparr>p_state = RUNNING, p_chan = None, p_killed = 0, p_xstate = 0, p_pid = 1, p_parent = None, p_kstack = 0,
     p_sz = 0, p_pagetable = 0, p_trapframe = 0, p_ra = 0, p_sp = 0, p_saved = [], p_ofile = (\<lambda>_. None), p_cwd = None,
     p_name = replicate 16 0, p_rtime = 0, p_ctime = 0, p_etime = 0\<rparr>"

definition z_log :: logrec where
  "z_log = \<lparr>l_start = 2, l_size = 30, l_outstanding = 0, l_committing = False, l_dev = 1, l_n = 0, l_block = replicate 30 0\<rparr>"

definition z_file :: openfile where
  "z_file = \<lparr>f_type = FD_NONE, f_ref = 0, f_readable = False, f_writable = False, f_pipe = 0, f_ip = 0, f_off = 0, f_major = 0\<rparr>"

definition z_state :: ktrap where
  "z_state = \<lparr>held = {}, mem = (\<lambda>_. 0), freelist = 0, pageref = (\<lambda>_. 0), kend = 0x80021000,
     kernel_pagetable = 0, satp = 0, etext = 0, trampoline = 0,
     procs = (\<lambda>_. z_proc), cur = Some 0, initproc = Some 1, nextpid = 2, ticks = 7, forkret_addr = 0, first = True,
     pipes = (\<lambda>_. \<lparr>data = [], nread = 0, nwrite = 0, readopen = 0, writeopen = 0\<rparr>),
     uart_tx_buf = [], uart_tx_w = 0, uart_tx_r = 0, uart_room = 0, uart_sent = [], uart_rx = [], uart_regs = [],
     cons_buf = [], cons_r = 0, cons_w = 0, cons_e = 0,
     slks = (\<lambda>_. \<lparr>sl_locked = False, sl_pid = 0\<rparr>),
     bufs = (\<lambda>_. \<lparr>b_valid = False, b_dev = 0, b_blockno = 0, b_refcnt = 0, b_data = replicate 1024 0\<rparr>),
     lru = [0..<NBUF], disk = (\<lambda>_. replicate 1024 0), dwrites = [],
     log = z_log,
     sb = \<lparr>s_magic = 0, s_size = 0, s_nblocks = 0, s_ninodes = 0, s_nlog = 0, s_logstart = 0, s_inodestart = 0, s_bmapstart = 0\<rparr>,
     itable = (\<lambda>_. x_inode),
     ftable = (\<lambda>_. z_file), devsw_console = True, st_pad = [0, 0, 0, 0],
     vdesc = (\<lambda>_. \<lparr>d_addr = 0, d_len = 0, d_flags = 0, d_next = 0\<rparr>), avail_idx = 0, avail_ring = (\<lambda>_. 0), used_dev_idx = 0,
     used_ring = (\<lambda>_. 0), vfree = (\<lambda>i. i < NUM), used_idx = 0, info_b = (\<lambda>_. None), info_status = (\<lambda>_. 0),
     vops = (\<lambda>_. \<lparr>r_type = 0, r_reserved = 0, r_sector = 0\<rparr>), b_disk = (\<lambda>_. False), ops_at = (\<lambda>_. 0), data_at = (\<lambda>_. 0),
     status_at = (\<lambda>_. 0), mmio = (\<lambda>_. 0), mmio_w = [],
     stvec = 0, sepc = 40, sstatus = 0x100, scause = 0x8000000000000001, stval = 0, sip = 2, tp = 1, kernelvec = 0,
     usertrap_addr = 0, uservec_off = 0, userret_off = 0, entered = None, started = True\<rparr>"

lemma z_simps [simp]:
  "held z_state = {}" "cur z_state = Some 0" "procs z_state p = z_proc" "log z_state = z_log" "ftable z_state f = z_file"
  "mem z_state a = 0" "sepc z_state = 40" "sstatus z_state = 0x100" "scause z_state = 0x8000000000000001" "tp z_state = 1" "ticks z_state = 7"
  by (simp_all add: z_state_def)

lemma z_proc_simps [simp]:
  "p_parent z_proc = None" "p_ofile z_proc i = None" "p_killed z_proc = 0" "p_trapframe z_proc = 0" "p_state z_proc = RUNNING"
  by (simp_all add: z_proc_def)

lemma z_bio: "bio_inv z_state 1 0 (\<lambda>_. 0) {}"
  by (simp add: bio_inv_def holds_def buf_ok_def uses_def z_state_def BSIZE_def atLeast0LessThan)

theorem bread_spec_witness:
  "bio_inv z_state 1 0 (\<lambda>_. 0) {} \<and> (\<exists>b t. bread 1 5 z_state = Ok b t \<and> b_data (bufs t b) = bview z_state 1 5 \<and> disk t = disk z_state)"
proof -
  have "card ({m :: uint. 0 < (0 :: nat)} \<union> {}) < NBUF" by (simp add: NBUF_def)
  then show ?thesis using bread_spec [OF z_bio, of 5] z_bio by auto
qed

theorem begin_op_reserves_witness:
  "held z_state = {} \<and> reserved (log z_state) \<and> (\<exists>t. begin_op z_state = Ok () t \<and> l_outstanding (log t) = 1)"
proof -
  have r: "reserved (log z_state)" "reserved (z_log\<lparr>l_outstanding := 1\<rparr>)" "\<not> l_committing z_log" "l_outstanding z_log = 0"
    by (simp_all add: reserved_def z_log_def LOGSIZE_def MAXOPBLOCKS_def)
  then show ?thesis using begin_op_reserves [of z_state 0] by auto
qed

theorem dup_close_witness:
  "held (z_state\<lparr>ftable := (ftable z_state)(3 := z_file\<lparr>f_ref := 1\<rparr>)\<rparr>) = {} \<and>
   bind (filedup 3) fileclose (z_state\<lparr>ftable := (ftable z_state)(3 := z_file\<lparr>f_ref := 1\<rparr>)\<rparr>) =
     Ok () (z_state\<lparr>ftable := (ftable z_state)(3 := z_file\<lparr>f_ref := 1\<rparr>)\<rparr>)"
  using dup_close [of "z_state\<lparr>ftable := (ftable z_state)(3 := z_file\<lparr>f_ref := 1\<rparr>)\<rparr>" 3] by simp

theorem filealloc_spec_witness:
  "held z_state = {} \<and> (case filealloc z_state of Ok (Some f) t \<Rightarrow> f < NFILE \<and> f_ref (ftable z_state f) = 0 | _ \<Rightarrow> False)"
proof -
  have "\<not> f_ref (ftable z_state 0) \<noteq> 0" "0 < NFILE" by (simp_all add: z_file_def NFILE_def)
  then show ?thesis using filealloc_spec [of z_state] by (auto split: res.splits option.splits)
qed

theorem wait_childless_witness:
  "held z_state = {} \<and> p_parent (procs z_state 5) \<noteq> Some 0 \<and> wait 0 z_state = Ok (-1) z_state \<and> waitx 0 11 12 z_state = Ok (-1, 11, 12) z_state"
  using wait_childless [of z_state 0 0 11 12] by simp

theorem sleep_negative_witness:
  "held (z_state\<lparr>held := {TicksLock}\<rparr>) = {TicksLock} \<and> (\<exists>t. sys_sleep_loop 7 (-1) (z_state\<lparr>held := {TicksLock}\<rparr>) = Sleep ChanTicks t)"
  using sleep_negative [of "z_state\<lparr>held := {TicksLock}\<rparr>" 0 "-1"] by auto

theorem bad_fd_fails_witness:
  "bad_fd z_state 0 \<and> sys_close z_state = Ok (-1) z_state"
proof -
  have "bad_fd z_state 0" by (simp add: bad_fd_def)
  then show ?thesis using bad_fd_fails [of z_state 0] by simp
qed

theorem fdalloc_spec_witness:
  "cur z_state = Some 0 \<and> (case fdalloc 9 z_state of Ok (Some fd) t \<Rightarrow> fd < NOFILE \<and> p_ofile (procs z_state 0) fd = None | _ \<Rightarrow> False)"
proof -
  have "\<not> p_ofile (procs z_state 0) 0 \<noteq> None" "0 < NOFILE" by (simp_all add: NOFILE_def)
  then show ?thesis using fdalloc_spec [of z_state 0 9] by (auto split: res.splits option.splits)
qed

definition z_idle :: ktrap where
  "z_idle = z_state\<lparr>cur := None\<rparr>"

lemma z_kerneltrap: "kerneltrap z_idle = Ok () (z_idle\<lparr>sip := 0\<rparr>)"
  by (simp add: z_idle_def kerneltrap_def restore_trap_def devintr_def intr_get_def cpuid_def run_simps z_state_def SSTATUS_SPP_def SSTATUS_SIE_def)

definition z_yielded :: ktrap where
  "z_yielded = z_state\<lparr>held := {ProcLock 0}, procs := (procs z_state)(0 := z_proc\<lparr>p_state := RUNNABLE\<rparr>), sip := 0\<rparr>"

lemma z_yields: "kerneltrap z_state = Sleep (ChanProc 0) z_yielded"
  by (simp add: z_yielded_def kerneltrap_def yield_def sched_def devintr_def intr_get_def cpuid_def run_simps z_state_def SSTATUS_SPP_def SSTATUS_SIE_def)

theorem kerneltrap_restores_witness:
  "kerneltrap z_idle = Ok () (z_idle\<lparr>sip := 0\<rparr>) \<and> sepc (z_idle\<lparr>sip := 0\<rparr>) = 40 \<and>
   kerneltrap z_state = Sleep (ChanProc 0) z_yielded \<and>
   kerneltrap_resume 40 0x100 (z_yielded\<lparr>sepc := 0, sstatus := 0\<rparr>) = Ok () (z_yielded\<lparr>held := {}, sepc := 40, sstatus := 0x100\<rparr>)"
proof -
  have y: "cur z_yielded = Some 0" "held z_yielded = {ProcLock 0}" by (simp_all add: z_yielded_def)
  have "\<exists>p. ChanProc 0 = ChanProc p \<and> cur z_yielded = Some p \<and> held z_yielded = {ProcLock p} \<and> p_state (procs z_yielded p) = RUNNABLE \<and>
      (\<forall>u :: ktrap. cur u = Some p \<longrightarrow> held u = {ProcLock p} \<longrightarrow> kerneltrap_resume (sepc z_state) (sstatus z_state) u =
        Ok () (u\<lparr>held := {}, sepc := sepc z_state, sstatus := sstatus z_state\<rparr>))"
    using conjunct1 [OF kerneltrap_restores [of z_state]] unfolding z_yields res.case by (elim conjE)
  then obtain p where "ChanProc 0 = ChanProc p" and p: "\<forall>u :: ktrap. cur u = Some p \<longrightarrow> held u = {ProcLock p} \<longrightarrow> kerneltrap_resume (sepc z_state) (sstatus z_state) u =
        Ok () (u\<lparr>held := {}, sepc := sepc z_state, sstatus := sstatus z_state\<rparr>)" by (elim exE conjE)
  then have "p = 0" by simp
  with p [rule_format, of "z_yielded\<lparr>sepc := 0, sstatus := 0\<rparr>"] y show ?thesis using z_kerneltrap z_yields by (simp add: z_idle_def)
qed

end
