(* ===== verification/LogIo.thy ===== *)
theory LogIo
  imports Bcache
begin

text \<open>
  The steps of the commit and of the recovery (\<^verbatim>\<open>kernel/log.c\<close>) on the buffer cache: copying a block to the log, copying it
  from the log to its home, and writing the header, with the writes each leaves on the disk.
\<close>

subsection \<open>Copying a block\<close>

lemma log_more:
  fixes s t :: "'z klog_scheme"
  assumes "kbio.more t = kbio.more s"
  shows "log t = log s"
  using assms by (cases s; cases t) simp

lemma buf_data_run [run_simps]: "buf_data b s = Ok (b_data (bufs s b)) s"
  by (simp add: buf_data_def run_simps)

text \<open>The body of \<open>write_log\<close>: a pinned block is copied to a block of the log.\<close>

definition to_log :: "uint \<Rightarrow> uint \<Rightarrow> uint \<Rightarrow> ('z kbio_scheme, unit) km" where
  "to_log d x y =
     bind (bread d x) (\<lambda>to.
     bind (bread d y) (\<lambda>from.
     bind (buf_data from) (\<lambda>dt.
     thn (set_data to (\<lambda>_. dt))
    (thn (bwrite to)
    (thn (brelse from) (brelse to))))))"

lemma view_length:
  assumes "bio_inv s d p pins lks"
  shows "length (bview s d n) = BSIZE"
proof (cases "\<exists>c. holds s d n c")
  case True
  then obtain c where c: "holds s d n c" ..
  then show ?thesis using bview_simps(1) [OF assms c] bio_invD(6) [OF assms, of c] bio_invD(9) [OF assms, of n]
    by (simp add: holds_def buf_ok_def)
next
  case False
  then show ?thesis using bview_simps(2) [OF assms, of n] bio_invD(9) [OF assms, of n] by simp
qed

lemma bread_ex:
  assumes "bio_inv s d p pins lks" "n \<notin> lks" "card ({m. pins m > 0} \<union> lks) < NBUF \<or> pins n > 0" "finite ({m. pins m > 0} \<union> lks)"
  shows "\<exists>b t. bread d n s = Ok b t \<and> bio_inv t d p pins (insert n lks) \<and> holds t d n b \<and> bview t d = bview s d \<and>
    b_data (bufs t b) = bview s d n \<and> kept_io s t \<and> (\<forall>m c. m \<in> lks \<longrightarrow> holds s d m c \<longrightarrow> holds t d m c)"
  by (rule bread_ok [OF assms]) blast

lemma set_data_ex:
  assumes "bio_inv s d p pins lks" "holds s d n b" "n \<in> lks" "length (f (bview s d n)) = BSIZE"
  shows "\<exists>t. set_data b f s = Ok () t \<and> bio_inv t d p pins lks \<and> (\<forall>m c. holds t d m c = holds s d m c) \<and>
    bview t d = (bview s d)(n := f (bview s d n)) \<and> kept_io s t"
  by (rule set_data_ok [where f = f, OF assms]) blast

lemma bwrite_ex:
  assumes "bio_inv s d p pins lks" "holds s d n b" "n \<in> lks"
  shows "\<exists>t. bwrite b s = Ok () t \<and> bio_inv t d p pins lks \<and> (\<forall>m c. holds t d m c = holds s d m c) \<and>
    bview t d = bview s d \<and> disk t = (disk s)(n := bview s d n) \<and> dwrites t = dwrites s @ [(n, bview s d n)] \<and>
    kbio.more t = kbio.more s"
  by (rule bwrite_ok [OF assms]) blast

lemma brelse_ex:
  assumes "bio_inv s d p pins lks" "holds s d n b" "n \<in> lks" "pins n = 0 \<longrightarrow> bview s d n = disk s n"
  shows "\<exists>t. brelse b s = Ok () t \<and> bio_inv t d p pins (lks - {n}) \<and> (\<forall>m c. holds t d m c = holds s d m c) \<and>
    bview t d = bview s d \<and> kept_io s t"
  by (rule brelse_ok [OF assms]) blast

lemma bunpin_ex:
  assumes "bio_inv s d p pins lks" "holds s d n b" "n \<in> lks" "pins n > 0"
  shows "\<exists>t. bunpin b s = Ok () t \<and> bio_inv t d p (pins(n := pins n - 1)) lks \<and> (\<forall>m c. holds t d m c = holds s d m c) \<and>
    bview t d = bview s d \<and> kept_io s t"
  by (rule bunpin_ok [OF assms]) blast

lemma to_log_ok:
  assumes inv: "bio_inv s d p pins {}" and xy: "x \<noteq> y" "pins x = 0" "pins y > 0"
    and room: "card {m. pins m > 0} < NBUF" "finite {m. pins m > 0}"
  shows "\<exists>t. to_log d x y s = Ok () t \<and> bio_inv t d p pins {} \<and> bview t d = (bview s d)(x := bview s d y) \<and>
    disk t = (disk s)(x := bview s d y) \<and> dwrites t = dwrites s @ [(x, bview s d y)] \<and> kbio.more t = kbio.more s"
proof -
  obtain b1 s1 where 1: "bread d x s = Ok b1 s1" "bio_inv s1 d p pins {x}" "holds s1 d x b1" "bview s1 d = bview s d" "kept_io s s1"
    using bread_ex [OF inv, of x] room by auto
  obtain b2 s2 where 2: "bread d y s1 = Ok b2 s2" "bio_inv s2 d p pins {y, x}" "holds s2 d y b2" "bview s2 d = bview s d"
      "b_data (bufs s2 b2) = bview s d y" "kept_io s1 s2" "holds s2 d x b1"
    using bread_ex [OF 1(2), of y] xy room 1(3,4) by auto
  obtain s3 where 3: "set_data b1 (\<lambda>_. bview s d y) s2 = Ok () s3" "bio_inv s3 d p pins {y, x}" "\<And>m c. holds s3 d m c = holds s2 d m c"
      "bview s3 d = (bview s d)(x := bview s d y)" "kept_io s2 s3"
    using set_data_ex [OF 2(2,7), of "\<lambda>_. bview s d y"] view_length [OF inv] 2(4) by auto
  have h: "holds s3 d x b1" "holds s3 d y b2" using 2(3,7) 3(3) by simp_all
  obtain s4 where 4: "bwrite b1 s3 = Ok () s4" "bio_inv s4 d p pins {y, x}" "\<And>m c. holds s4 d m c = holds s3 d m c" "bview s4 d = bview s3 d"
      "disk s4 = (disk s3)(x := bview s d y)" "dwrites s4 = dwrites s3 @ [(x, bview s d y)]" "kbio.more s4 = kbio.more s3"
    using bwrite_ex [OF 3(2) h(1)] 3(4) by auto
  have h4: "holds s4 d x b1" "holds s4 d y b2" using h 4(3) by simp_all
  obtain s5 where 5: "brelse b2 s4 = Ok () s5" "bio_inv s5 d p pins ({y, x} - {y})" "\<And>m c. holds s5 d m c = holds s4 d m c"
      "bview s5 d = bview s4 d" "kept_io s4 s5"
    using brelse_ex [OF 4(2) h4(2)] xy(3) by auto
  have e: "{y, x} - {y} = {x}" using xy(1) by auto
  have h5: "holds s5 d x b1" using h4(1) 5(3) by simp
  have c: "bview s5 d x = disk s5 x" using 5(4,5) 4(4,5) 3(4) by simp
  obtain t where 6: "brelse b1 s5 = Ok () t" "bio_inv t d p pins {}" "bview t d = bview s5 d" "kept_io s5 t"
    using brelse_ex [OF 5(2) [unfolded e] h5] c by auto
  have "to_log d x y s = Ok () t" using 1(1) 2(1,5) 3(1) 4(1) 5(1) 6(1) by (simp add: to_log_def run_simps)
  then show ?thesis using 6 1(5) 2(6) 3(4,5) 4(4-7) 5(4,5) by auto
qed

text \<open>The body of \<open>install_trans\<close>: a block of the log is copied to its home.\<close>

definition install :: "bool \<Rightarrow> uint \<Rightarrow> uint \<Rightarrow> uint \<Rightarrow> ('z kbio_scheme, unit) km" where
  "install recovering d x y =
     bind (bread d x) (\<lambda>lbuf.
     bind (bread d y) (\<lambda>dbuf.
     bind (buf_data lbuf) (\<lambda>dt.
     thn (set_data dbuf (\<lambda>_. dt))
    (thn (bwrite dbuf)
    (thn (if recovering then skip else bunpin dbuf)
    (thn (brelse lbuf) (brelse dbuf)))))))"

lemma install_ok:
  assumes inv: "bio_inv s d p pins {}" and xy: "x \<noteq> y" "pins x = 0" "if recovering then pins y = 0 else pins y > 0"
    and room: "card {m. pins m > 0} < NBUF - 1 \<or> \<not> recovering" "card {m. pins m > 0} < NBUF" "finite {m. pins m > 0}"
    and k: "k = (if recovering then pins y else pins y - 1)"
  shows "\<exists>t. install recovering d x y s = Ok () t \<and> bio_inv t d p (pins(y := k)) {} \<and> bview t d = (bview s d)(y := bview s d x) \<and>
    disk t = (disk s)(y := bview s d x) \<and> dwrites t = dwrites s @ [(y, bview s d x)] \<and> kbio.more t = kbio.more s"
proof -
  obtain b1 s1 where 1: "bread d x s = Ok b1 s1" "bio_inv s1 d p pins {x}" "holds s1 d x b1" "bview s1 d = bview s d" "kept_io s s1"
    using bread_ex [OF inv, of x] room by auto
  have "card (insert x {m. pins m > 0}) \<le> Suc (card {m. pins m > 0})" by (rule card_insert_le_m1) simp_all
  then have "card ({m. pins m > 0} \<union> {x}) < NBUF \<or> pins y > 0" using room(1) xy(3) by (auto split: if_splits)
  then obtain b2 s2 where 2: "bread d y s1 = Ok b2 s2" "bio_inv s2 d p pins {y, x}" "holds s2 d y b2" "bview s2 d = bview s d"
      "kept_io s1 s2" "holds s2 d x b1"
    using bread_ex [OF 1(2), of y] xy room 1(3,4) by auto
  have dt: "b_data (bufs s2 b1) = bview s d x" using locked_buf(8) [OF 2(2,6)] 2(4) by simp
  obtain s3 where 3: "set_data b2 (\<lambda>_. bview s d x) s2 = Ok () s3" "bio_inv s3 d p pins {y, x}" "\<And>m c. holds s3 d m c = holds s2 d m c"
      "bview s3 d = (bview s d)(y := bview s d x)" "kept_io s2 s3"
    using set_data_ex [OF 2(2,3), of "\<lambda>_. bview s d x"] view_length [OF inv] 2(4) by auto
  have h: "holds s3 d x b1" "holds s3 d y b2" using 2(3,6) 3(3) by simp_all
  obtain s4 where 4: "bwrite b2 s3 = Ok () s4" "bio_inv s4 d p pins {y, x}" "\<And>m c. holds s4 d m c = holds s3 d m c" "bview s4 d = bview s3 d"
      "disk s4 = (disk s3)(y := bview s d x)" "dwrites s4 = dwrites s3 @ [(y, bview s d x)]" "kbio.more s4 = kbio.more s3"
    using bwrite_ex [OF 3(2) h(2)] 3(4) by auto
  have h4: "holds s4 d x b1" "holds s4 d y b2" using h 4(3) by simp_all
  obtain s5 where 5: "(if recovering then skip else bunpin b2) s4 = Ok () s5" "bio_inv s5 d p (pins(y := k)) {y, x}"
      "\<And>m c. holds s5 d m c = holds s4 d m c" "bview s5 d = bview s4 d" "kept_io s4 s5"
    using bunpin_ex [OF 4(2) h4(2)] 4(2) xy(3) k fun_upd_idem [of pins y k] by (cases recovering) (auto simp: run_simps)
  have h5: "holds s5 d x b1" "holds s5 d y b2" using h4 5(3) by simp_all
  have e: "{y, x} - {x} = {y}" using xy(1) by auto
  have cx: "bview s5 d x = disk s5 x"
    using bview_unused [OF inv xy(2)] xy(1) 5(4,5) 4(4,5) 3(4,5) 2(5) 1(5) by simp
  obtain s6 where 6: "brelse b1 s5 = Ok () s6" "bio_inv s6 d p (pins(y := k)) {y}" "\<And>m c. holds s6 d m c = holds s5 d m c"
      "bview s6 d = bview s5 d" "kept_io s5 s6"
    using brelse_ex [OF 5(2) h5(1)] cx e by auto
  have h6: "holds s6 d y b2" using h5(2) 6(3) by simp
  have cy: "bview s6 d y = disk s6 y" using 6(4,5) 5(4,5) 4(4,5) 3(4) by simp
  obtain t where 7: "brelse b2 s6 = Ok () t" "bio_inv t d p (pins(y := k)) {}" "bview t d = bview s6 d" "kept_io s6 t"
    using brelse_ex [OF 6(2) h6] cy by auto
  have "install recovering d x y s = Ok () t"
    using 1(1) 2(1) dt 3(1) 4(1) 5(1) 6(1) 7(1) by (simp add: install_def run_simps)
  then show ?thesis using 7 1(5) 2(5) 3(4,5) 4(4-7) 5(4,5) 6(4,5) by auto
qed


subsection \<open>The loops\<close>

definition apply_writes :: "(uint \<times> uchar list) list \<Rightarrow> (uint \<Rightarrow> uchar list) \<Rightarrow> uint \<Rightarrow> uchar list" where
  "apply_writes ws D = fold (\<lambda>(n, x) D. D(n := x)) ws D"

lemma apply_simps [simp]: "apply_writes [] D = D" "apply_writes ((n, x) # ws) D = apply_writes ws (D(n := x))"
    "apply_writes (us @ ws) D = apply_writes ws (apply_writes us D)"
  by (simp_all add: apply_writes_def)

lemma apply_other: "m \<notin> fst ` set ws \<Longrightarrow> apply_writes ws D m = D m"
  by (induction ws arbitrary: D) auto

lemma upt_step: "[i..<i + Suc k] = i # [Suc i..<Suc i + k]"
  by (simp add: upt_conv_Cons)

lemma write_log_loop:
  assumes inv: "bio_inv s d p pins {}" and room: "card {m. pins m > 0} < NBUF" "finite {m. pins m > 0}"
    and a: "\<forall>j\<in>{i..<i + k}. pins (a j) = 0 \<and> pins (b j) > 0"
  shows "\<exists>t. forn i k (\<lambda>j. to_log d (a j) (b j)) s = Ok () t \<and> bio_inv t d p pins {} \<and>
    (let ws = map (\<lambda>j. (a j, bview s d (b j))) [i..<i + k] in
     bview t d = apply_writes ws (bview s d) \<and> disk t = apply_writes ws (disk s) \<and> dwrites t = dwrites s @ ws) \<and>
    kbio.more t = kbio.more s"
  using inv a
proof (induction k arbitrary: i s)
  case 0
  then show ?case by (simp add: run_simps)
next
  case (Suc k)
  have i: "pins (a i) = 0" "pins (b i) > 0" using Suc.prems(2) by auto
  then have ne: "a i \<noteq> b i" by auto
  obtain u where u: "to_log d (a i) (b i) s = Ok () u" "bio_inv u d p pins {}" "bview u d = (bview s d)(a i := bview s d (b i))"
      "disk u = (disk s)(a i := bview s d (b i))" "dwrites u = dwrites s @ [(a i, bview s d (b i))]" "kbio.more u = kbio.more s"
    using to_log_ok [OF Suc.prems(1) ne i room] by auto
  have "\<forall>j\<in>{Suc i..<Suc i + k}. pins (a j) = 0 \<and> pins (b j) > 0" using Suc.prems(2) by auto
  from Suc.IH [OF u(2) this] obtain t where t: "forn (Suc i) k (\<lambda>j. to_log d (a j) (b j)) u = Ok () t" "bio_inv t d p pins {}"
      "let ws = map (\<lambda>j. (a j, bview u d (b j))) [Suc i..<Suc i + k] in
       bview t d = apply_writes ws (bview u d) \<and> disk t = apply_writes ws (disk u) \<and> dwrites t = dwrites u @ ws"
      "kbio.more t = kbio.more u" by blast
  have w: "map (\<lambda>j. (a j, bview u d (b j))) [Suc i..<Suc i + k] = map (\<lambda>j. (a j, bview s d (b j))) [Suc i..<Suc i + k]"
  proof (rule map_cong [OF refl])
    fix j assume "j \<in> set [Suc i..<Suc i + k]"
    then have "j \<in> {i..<i + Suc k}" by auto
    then have "pins (b j) > 0" using Suc.prems(2) by blast
    then have "b j \<noteq> a i" using i(1) by auto
    then show "(a j, bview u d (b j)) = (a j, bview s d (b j))" using u(3) by simp
  qed
  show ?case using t(1,2,4) t(3) [unfolded Let_def w] u unfolding upt_step by (simp add: run_simps Let_def del: upt_Suc)
qed

lemma install_loop:
  assumes inv: "bio_inv s d p pins {}"
    and room: "card {m. pins m > 0} < NBUF" "finite {m. pins m > 0}" "recovering \<longrightarrow> (\<forall>m. pins m = 0)"
    and a: "\<forall>j\<in>{i..<i + k}. pins (a j) = 0 \<and> (\<not> recovering \<longrightarrow> pins (b j) = 1) \<and> (\<forall>l\<in>{i..<i + k}. a j \<noteq> b l)"
    and dist: "recovering \<or> inj_on b {i..<i + k}"
  shows "\<exists>t. forn i k (\<lambda>j. install recovering d (a j) (b j)) s = Ok () t \<and>
    bio_inv t d p (\<lambda>m. if m \<in> b ` {i..<i + k} then 0 else pins m) {} \<and>
    (let ws = map (\<lambda>j. (b j, bview s d (a j))) [i..<i + k] in
     bview t d = apply_writes ws (bview s d) \<and> disk t = apply_writes ws (disk s) \<and> dwrites t = dwrites s @ ws) \<and>
    kbio.more t = kbio.more s"
  using assms
proof (induction k arbitrary: i s pins)
  case 0
  then show ?case by (simp add: run_simps)
next
  case (Suc k)
  have i: "pins (a i) = 0" "\<not> recovering \<longrightarrow> pins (b i) = 1" "a i \<noteq> b i" using Suc.prems(5) by auto
  let ?q = "pins(b i := 0)"
  have y: "if recovering then pins (b i) = 0 else pins (b i) > 0" using i(2) Suc.prems(4) by auto
  have r: "card {m. pins m > 0} < NBUF - 1 \<or> \<not> recovering" using Suc.prems(4) by (auto simp: NBUF_def)
  have k0: "0 = (if recovering then pins (b i) else pins (b i) - 1)" using i(2) Suc.prems(4) by auto
  obtain u where u: "install recovering d (a i) (b i) s = Ok () u" "bio_inv u d p ?q {}" "bview u d = (bview s d)(b i := bview s d (a i))"
      "disk u = (disk s)(b i := bview s d (a i))" "dwrites u = dwrites s @ [(b i, bview s d (a i))]" "kbio.more u = kbio.more s"
    using install_ok [OF Suc.prems(1) i(3,1) y r Suc.prems(2,3) k0] by auto
  have sub: "{m. ?q m > 0} \<subseteq> {m. pins m > 0}" by auto
  have c: "card {m. ?q m > 0} < NBUF" using card_mono [OF Suc.prems(3) sub] Suc.prems(2) by linarith
  have nb: "recovering \<or> b j \<noteq> b i" if j: "j \<in> {Suc i..<Suc i + k}" for j
  proof -
    have "j \<in> {i..<i + Suc k}" "i \<in> {i..<i + Suc k}" "j \<noteq> i" using j by auto
    then show ?thesis using Suc.prems(6) inj_onD [of b "{i..<i + Suc k}" j i] by blast
  qed
  have aj: "\<forall>j\<in>{Suc i..<Suc i + k}. ?q (a j) = 0 \<and> (\<not> recovering \<longrightarrow> ?q (b j) = 1) \<and> (\<forall>l\<in>{Suc i..<Suc i + k}. a j \<noteq> b l)"
    using Suc.prems(5) nb by auto
  have dj: "recovering \<or> inj_on b {Suc i..<Suc i + k}" using Suc.prems(6) by (auto intro: inj_on_subset)
  have z: "recovering \<longrightarrow> (\<forall>m. ?q m = 0)" using Suc.prems(4) by auto
  from Suc.IH [OF u(2) c finite_subset [OF sub Suc.prems(3)] z aj dj] obtain t where
    t: "forn (Suc i) k (\<lambda>j. install recovering d (a j) (b j)) u = Ok () t"
      "bio_inv t d p (\<lambda>m. if m \<in> b ` {Suc i..<Suc i + k} then 0 else ?q m) {}"
      "let ws = map (\<lambda>j. (b j, bview u d (a j))) [Suc i..<Suc i + k] in
       bview t d = apply_writes ws (bview u d) \<and> disk t = apply_writes ws (disk u) \<and> dwrites t = dwrites u @ ws"
      "kbio.more t = kbio.more u" by blast
  have w: "map (\<lambda>j. (b j, bview u d (a j))) [Suc i..<Suc i + k] = map (\<lambda>j. (b j, bview s d (a j))) [Suc i..<Suc i + k]"
    using Suc.prems(5) u(3) by (intro map_cong refl) auto
  have "{i..<i + Suc k} = insert i {Suc i..<Suc i + k}" by auto
  then have p: "(\<lambda>m. if m \<in> b ` {Suc i..<Suc i + k} then 0 else ?q m) = (\<lambda>m. if m \<in> b ` {i..<i + Suc k} then 0 else pins m)"
    by auto
  show ?case using t(1,4) t(2) [unfolded p] t(3) [unfolded Let_def w] u unfolding upt_step
    by (simp add: run_simps Let_def del: upt_Suc)
qed


subsection \<open>The header block\<close>

definition hdr :: "nat \<Rightarrow> uint list \<Rightarrow> uchar list \<Rightarrow> uchar list" where
  "hdr n bl h = fold (\<lambda>i h. put32 h (4 + 4 * i) (bl ! i)) [0..<n] (put32 h 0 (of_nat n))"

lemma length_put32 [simp]: "off + 4 \<le> length h \<Longrightarrow> length (put32 h off v) = length h"
  by (simp add: put32_def splice_def)

lemma get_put32:
  assumes "off + 4 \<le> length h"
  shows "get32 (put32 h off v) off = v" "off' + 4 \<le> off \<or> off + 4 \<le> off' \<Longrightarrow> get32 (put32 h off v) off' = get32 h off'"
proof -
  show "get32 (put32 h off v) off = v" using assms by (simp add: get32_def put32_def splice_def)
  assume "off' + 4 \<le> off \<or> off + 4 \<le> off'"
  then show "get32 (put32 h off v) off' = get32 h off'"
  proof
    assume o: "off' + 4 \<le> off"
    then have "drop off' (take off h) = take (off - off') (drop off' h)" by (simp add: drop_take)
    then show ?thesis using assms o by (simp add: get32_def put32_def splice_def)
  next
    assume o: "off + 4 \<le> off'"
    then have "drop off' (take off h @ to_le 4 v @ drop (off + 4) h) = drop off' h" using assms by simp
    then show ?thesis by (simp add: get32_def put32_def splice_def)
  qed
qed

lemma hdr_fold:
  fixes bl :: "uint list"
  assumes "length h = BSIZE" "n \<le> 30"
  defines "g \<equiv> fold (\<lambda>i h. put32 h (4 + 4 * i) (bl ! i)) [0..<n] h"
  shows "length g = BSIZE" "get32 g 0 = get32 h 0" "i < n \<Longrightarrow> get32 g (4 + 4 * i) = bl ! i"
proof -
  have "length (fold (\<lambda>i h. put32 h (4 + 4 * i) (bl ! i)) [0..<n] h) = BSIZE \<and> get32 (fold (\<lambda>i h. put32 h (4 + 4 * i) (bl ! i)) [0..<n] h) 0 = get32 h 0 \<and>
    (\<forall>i<n. get32 (fold (\<lambda>i h. put32 h (4 + 4 * i) (bl ! i)) [0..<n] h) (4 + 4 * i) = bl ! i)"
    using assms(2)
  proof (induction n)
    case (Suc n)
    let ?f = "fold (\<lambda>i h. put32 h (4 + 4 * i) (bl ! i)) [0..<n] h"
    have r: "4 + 4 * n + 4 \<le> length ?f" using Suc by (simp add: BSIZE_def)
    show ?case using Suc r get_put32 [where v = "bl ! n", OF r] by (auto simp: less_Suc_eq)
  qed (use assms(1) in simp)
  then show "length g = BSIZE" "get32 g 0 = get32 h 0" "i < n \<Longrightarrow> get32 g (4 + 4 * i) = bl ! i" by (auto simp: g_def)
qed

lemma hdr_get:
  assumes "length h = BSIZE" "n \<le> 30"
  shows "length (hdr n bl h) = BSIZE" "get32 (hdr n bl h) 0 = of_nat n" "i < n \<Longrightarrow> get32 (hdr n bl h) (4 + 4 * i) = bl ! i"
proof -
  have l: "length (put32 h 0 (of_nat n)) = BSIZE" "0 + 4 \<le> length h" using assms(1) by (simp_all add: BSIZE_def)
  show "length (hdr n bl h) = BSIZE" "get32 (hdr n bl h) 0 = of_nat n" "i < n \<Longrightarrow> get32 (hdr n bl h) (4 + 4 * i) = bl ! i"
    using hdr_fold [where bl = bl, OF l(1) assms(2)] get_put32(1) [OF l(2)] by (simp_all add: hdr_def)
qed

text \<open>Changes to the data of one locked buffer.\<close>

lemma set_data_loop:
  assumes "bio_inv s d p pins lks" "holds s d n b" "n \<in> lks" "\<And>j h. j < i + k \<Longrightarrow> length h = BSIZE \<Longrightarrow> length (g j h) = BSIZE"
  shows "\<exists>t. forn i k (\<lambda>j. set_data b (g j)) s = Ok () t \<and> bio_inv t d p pins lks \<and> (\<forall>m c. holds t d m c = holds s d m c) \<and>
    bview t d = (bview s d)(n := fold g [i..<i + k] (bview s d n)) \<and> kept_io s t"
  using assms
proof (induction k arbitrary: i s)
  case 0
  then show ?case by (simp add: run_simps)
next
  case (Suc k)
  have l: "length (g i (bview s d n)) = BSIZE" using Suc.prems(4) [of i "bview s d n"] view_length [OF Suc.prems(1)] by simp
  obtain u where u: "set_data b (g i) s = Ok () u" "bio_inv u d p pins lks" "\<And>m c. holds u d m c = holds s d m c"
      "bview u d = (bview s d)(n := g i (bview s d n))" "kept_io s u"
    using set_data_ex [where f = "g i", OF Suc.prems(1-3) l] by blast
  have h: "holds u d n b" using u(3) Suc.prems(2) by simp
  have "\<And>j h. j < Suc i + k \<Longrightarrow> length h = BSIZE \<Longrightarrow> length (g j h) = BSIZE" using Suc.prems(4) by simp
  from Suc.IH [OF u(2) h Suc.prems(3) this] obtain t where t: "forn (Suc i) k (\<lambda>j. set_data b (g j)) u = Ok () t" "bio_inv t d p pins lks"
      "\<forall>m c. holds t d m c = holds u d m c" "bview t d = (bview u d)(n := fold g [Suc i..<Suc i + k] (bview u d n))" "kept_io u t" by blast
  then show ?case using u unfolding upt_step by (simp add: run_simps fun_eq_iff del: upt_Suc)
qed

lemma write_head_ok:
  fixes s :: "'z klog_scheme"
  assumes inv: "bio_inv s d p pins {}" and L: "l_dev (log s) = d" "l_n (log s) \<le> 30" "pins (l_start (log s)) = 0"
    and room: "card {m. pins m > 0} < NBUF" "finite {m. pins m > 0}"
  defines "st \<equiv> l_start (log s)"
  defines "h \<equiv> hdr (l_n (log s)) (l_block (log s)) (bview s d st)"
  shows "\<exists>t. write_head s = Ok () t \<and> bio_inv t d p pins {} \<and> bview t d = (bview s d)(st := h) \<and> disk t = (disk s)(st := h) \<and>
    dwrites t = dwrites s @ [(st, h)] \<and> kbio.more t = kbio.more s"
proof -
  let ?l = "log s"
  obtain b s1 where 1: "bread d st s = Ok b s1" "bio_inv s1 d p pins {st}" "holds s1 d st b" "bview s1 d = bview s d" "kept_io s s1"
    using bread_ex [OF inv, of st] room by auto
  have len: "length (bview s d st) = BSIZE" by (rule view_length [OF inv])
  obtain s2 where 2: "set_data b (\<lambda>x. put32 x 0 (of_nat (l_n ?l))) s1 = Ok () s2" "bio_inv s2 d p pins {st}" "holds s2 d st b"
      "bview s2 d = (bview s d)(st := put32 (bview s d st) 0 (of_nat (l_n ?l)))" "kept_io s1 s2"
    using set_data_ex [OF 1(2,3), of "\<lambda>x. put32 x 0 (of_nat (l_n ?l))"] 1(3,4) len by (auto simp: BSIZE_def)
  have g: "length (put32 x (4 + 4 * j) (l_block ?l ! j)) = BSIZE" if "j < 0 + l_n ?l" "length x = BSIZE" for j x
    using that L(2) by (subst length_put32) (auto simp: BSIZE_def)
  obtain s3 where 3: "forn 0 (l_n ?l) (\<lambda>i. set_data b (\<lambda>x. put32 x (4 + 4 * i) (l_block ?l ! i))) s2 = Ok () s3" "bio_inv s3 d p pins {st}"
      "holds s3 d st b" "bview s3 d = (bview s d)(st := h)" "kept_io s2 s3"
    using set_data_loop [where g = "\<lambda>i x. put32 x (4 + 4 * i) (l_block ?l ! i)" and i = 0 and k = "l_n ?l", OF 2(2,3) _ g] 2(3,4)
    by (auto simp: h_def hdr_def)
  obtain s4 where 4: "bwrite b s3 = Ok () s4" "bio_inv s4 d p pins {st}" "holds s4 d st b" "bview s4 d = bview s3 d"
      "disk s4 = (disk s3)(st := h)" "dwrites s4 = dwrites s3 @ [(st, h)]" "kbio.more s4 = kbio.more s3"
    using bwrite_ex [OF 3(2,3)] 3(3,4) by auto
  obtain t where 5: "brelse b s4 = Ok () t" "bio_inv t d p pins {}" "bview t d = bview s4 d" "kept_io s4 t"
    using brelse_ex [OF 4(2,3)] 4(4,5) 3(4) by auto
  have "write_head s = Ok () t"
    using 1(1) 2(1) 3(1) 4(1) 5(1) L(1) by (simp add: write_head_def run_simps st_def)
  then show ?thesis using 5 1(5) 2(5) 3(4,5) 4(4-7) by auto
qed

end
