(* ===== verification/Crash.thy ===== *)
theory Crash
  imports LogIo
begin

text \<open>
  The commit protocol of \<^verbatim>\<open>kernel/log.c\<close> under crashes.  A crash leaves the disk as it is after some prefix of the
  writes; the next boot runs the recovery on it.
\<close>

subsection \<open>Committing\<close>

lemma bio_inv_log [simp]:
  fixes s :: "'z klog_scheme"
  shows "bio_inv (s\<lparr>log := l\<rparr>) d p pins lks = bio_inv s d p pins lks" "bview (s\<lparr>log := l\<rparr>) = bview s" "holds (s\<lparr>log := l\<rparr>) = holds s"
  by (simp_all add: bio_inv_def holds_def bview_def fun_eq_iff split: option.split)

definition log_at :: "uint \<Rightarrow> nat \<Rightarrow> uint" where
  "log_at st j = st + of_nat j + 1"

definition in_log :: "uint \<Rightarrow> uint \<Rightarrow> bool" where
  "in_log st m \<longleftrightarrow> unat st \<le> unat m \<and> unat m < unat st + LOGSIZE"

lemma log_at_unat: "unat st + LOGSIZE < 2 ^ 32 \<Longrightarrow> j < LOGSIZE \<Longrightarrow> unat (log_at st j) = unat st + j + 1"
proof -
  assume a: "unat st + LOGSIZE < 2 ^ 32" "j < LOGSIZE"
  have "unat (of_nat (j + 1) :: uint) = j + 1" using a by (simp add: unsigned_of_nat take_bit_nat_eq_self LOGSIZE_def del: of_nat_Suc of_nat_add)
  moreover have "log_at st j = st + of_nat (j + 1)" by (simp add: log_at_def)
  ultimately show ?thesis using a by (simp add: unat_word_ariths)
qed

lemma log_at_simps:
  assumes "unat st + LOGSIZE < 2 ^ 32" "Suc j < LOGSIZE"
  shows "in_log st (log_at st j)" "log_at st j \<noteq> st" "Suc i < LOGSIZE \<Longrightarrow> log_at st i = log_at st j \<longleftrightarrow> i = j"
proof -
  have u: "unat (log_at st j) = unat st + j + 1" using log_at_unat [OF assms(1), of j] assms(2) by simp
  then show "in_log st (log_at st j)" "log_at st j \<noteq> st" using assms(2) by (auto simp: in_log_def)
  show "log_at st i = log_at st j \<longleftrightarrow> i = j" if "Suc i < LOGSIZE" using u log_at_unat [OF assms(1), of i] that by auto
qed

lemma in_log_start [simp]: "in_log st st"
  by (simp add: in_log_def LOGSIZE_def)

text \<open>What a sequence of writes leaves in a block.\<close>

lemma apply_map:
  "apply_writes (map (\<lambda>j. (b j, V (b j))) js) D x = (if x \<in> b ` set js then V x else D x)"
  by (induction js arbitrary: D) auto

lemma apply_absorb:
  assumes "fst ` set us \<subseteq> fst ` set ws"
  shows "apply_writes ws (apply_writes us D) = apply_writes ws D"
proof -
  have "apply_writes ws E x = apply_writes ws F x" if "x \<in> fst ` set ws \<or> E x = F x" for E F :: "uint \<Rightarrow> uchar list" and x
    using that
  proof (induction ws arbitrary: E F)
    case (Cons w ws)
    have "x \<in> fst ` set ws \<or> (E(fst w := snd w)) x = (F(fst w := snd w)) x" using Cons.prems by auto
    then show ?case using Cons.IH [of "E(fst w := snd w)" "F(fst w := snd w)"] by (cases w) (simp del: fun_upd_apply)
  qed simp
  moreover have "x \<in> fst ` set ws \<or> apply_writes us D x = D x" for x using apply_other [of x us D] assms by blast
  ultimately show ?thesis by blast
qed

text \<open>A transaction ready to commit: its blocks are distinct, outside the log and pinned once in the cache, and the log
  on disk is empty.\<close>

definition txn_blocks :: "logrec \<Rightarrow> uint list" where
  "txn_blocks l = take (l_n l) (l_block l)"

definition txn_ready :: "'z klog_scheme \<Rightarrow> uint \<Rightarrow> nat \<Rightarrow> bool" where
  "txn_ready s d p \<longleftrightarrow>
     0 < l_n (log s) \<and> l_n (log s) < NBUF \<and> length (l_block (log s)) = LOGSIZE \<and> l_dev (log s) = d \<and>
     unat (l_start (log s)) + LOGSIZE < 2 ^ 32 \<and> distinct (txn_blocks (log s)) \<and>
     (\<forall>b\<in>set (txn_blocks (log s)). \<not> in_log (l_start (log s)) b) \<and>
     bio_inv s d p (\<lambda>m. if m \<in> set (txn_blocks (log s)) then 1 else 0) {} \<and> get32 (disk s (l_start (log s))) 0 = 0"

text \<open>The writes of a commit: the log blocks, the header with the count, the home blocks, the header without it.\<close>

definition commit_writes :: "'z klog_scheme \<Rightarrow> uint \<Rightarrow> (uint \<times> uchar list) list" where
  "commit_writes s d =
     (let l = log s; st = l_start l; h = hdr (l_n l) (l_block l) (disk s st) in
      map (\<lambda>j. (log_at st j, bview s d (l_block l ! j))) [0..<l_n l] @ [(st, h)] @
      map (\<lambda>j. (l_block l ! j, bview s d (l_block l ! j))) [0..<l_n l] @ [(st, put32 h 0 0)])"

lemma txn_blocks_nth: "l_n l \<le> length (l_block l) \<Longrightarrow> set (txn_blocks l) = (!) (l_block l) ` {0..<l_n l}"
  by (simp add: txn_blocks_def nth_image)

lemma txn_inj: "l_n l \<le> length (l_block l) \<Longrightarrow> distinct (txn_blocks l) \<Longrightarrow> inj_on ((!) (l_block l)) {0..<l_n l}"
  unfolding txn_blocks_def inj_on_def distinct_conv_nth by fastforce

lemma write_log_eq: "write_log s = forn 0 (l_n (log s)) (\<lambda>j. to_log (l_dev (log s)) (log_at (l_start (log s)) j) (l_block (log s) ! j)) s"
  by (simp add: write_log_def to_log_def log_at_def run_simps)

lemma install_trans_eq: "install_trans r s = forn 0 (l_n (log s)) (\<lambda>j. install r (l_dev (log s)) (log_at (l_start (log s)) j) (l_block (log s) ! j)) s"
  by (simp add: install_trans_def install_def log_at_def run_simps)

lemma hdr_none: "hdr 0 bl h = put32 h 0 0"
  by (simp add: hdr_def)

abbreviation txn_pins :: "logrec \<Rightarrow> uint \<Rightarrow> nat" where
  "txn_pins l \<equiv> \<lambda>m. if m \<in> set (txn_blocks l) then 1 else 0"

lemma txn_facts:
  fixes s :: "'z klog_scheme"
  assumes "txn_ready s d p"
  defines "l \<equiv> log s"
  shows "0 < l_n l" "Suc (l_n l) \<le> LOGSIZE" "l_n l < NBUF" "l_n l \<le> 30" "l_n l \<le> length (l_block l)" "l_dev l = d" "unat (l_start l) + LOGSIZE < 2 ^ 32"
    "set (txn_blocks l) = (!) (l_block l) ` {0..<l_n l}" "inj_on ((!) (l_block l)) {0..<l_n l}" "bio_inv s d p (txn_pins l) {}"
    "card {m. txn_pins l m > 0} < NBUF" "finite {m. txn_pins l m > 0}" "get32 (disk s (l_start l)) 0 = 0"
    "\<And>j. j < l_n l \<Longrightarrow> in_log (l_start l) (log_at (l_start l) j) \<and> log_at (l_start l) j \<noteq> l_start l"
    "\<And>i j. i < l_n l \<Longrightarrow> j < l_n l \<Longrightarrow> log_at (l_start l) i = log_at (l_start l) j \<longleftrightarrow> i = j"
    "\<And>j. j < l_n l \<Longrightarrow> \<not> in_log (l_start l) (l_block l ! j)"
proof -
  show a: "0 < l_n l" "Suc (l_n l) \<le> LOGSIZE" "l_n l < NBUF" "l_n l \<le> 30" "l_n l \<le> length (l_block l)" "l_dev l = d" "unat (l_start l) + LOGSIZE < 2 ^ 32"
    "bio_inv s d p (txn_pins l) {}" "get32 (disk s (l_start l)) 0 = 0"
    using assms(1) by (auto simp: txn_ready_def l_def NBUF_def LOGSIZE_def)
  have d: "distinct (txn_blocks l)" and o: "\<forall>x\<in>set (txn_blocks l). \<not> in_log (l_start l) x" using assms(1) by (auto simp: txn_ready_def l_def)
  show b: "set (txn_blocks l) = (!) (l_block l) ` {0..<l_n l}" "inj_on ((!) (l_block l)) {0..<l_n l}"
    using txn_blocks_nth [OF a(5)] txn_inj [OF a(5) d] by simp_all
  have "{m. txn_pins l m > 0} = set (txn_blocks l)" by auto
  then show "card {m. txn_pins l m > 0} < NBUF" "finite {m. txn_pins l m > 0}"
    using distinct_card [OF d] a(3,5) by (simp_all add: txn_blocks_def)
  show "in_log (l_start l) (log_at (l_start l) j) \<and> log_at (l_start l) j \<noteq> l_start l" if "j < l_n l" for j
    using log_at_simps(1,2) [OF a(7), of j] that a(2) by simp
  show "log_at (l_start l) i = log_at (l_start l) j \<longleftrightarrow> i = j" if "i < l_n l" "j < l_n l" for i j
    using log_at_simps(3) [OF a(7), of j i] that a(2) by simp
  show "\<not> in_log (l_start l) (l_block l ! j)" if "j < l_n l" for j using o b(1) that by auto
qed

abbreviation log_writes :: "'z klog_scheme \<Rightarrow> uint \<Rightarrow> (uint \<times> uchar list) list" where
  "log_writes s d \<equiv> map (\<lambda>j. (log_at (l_start (log s)) j, bview s d (l_block (log s) ! j))) [0..<l_n (log s)]"

abbreviation home_writes :: "'z klog_scheme \<Rightarrow> uint \<Rightarrow> (uint \<times> uchar list) list" where
  "home_writes s d \<equiv> map (\<lambda>j. (l_block (log s) ! j, bview s d (l_block (log s) ! j))) [0..<l_n (log s)]"

abbreviation full_head :: "'z klog_scheme \<Rightarrow> uchar list" where
  "full_head s \<equiv> hdr (l_n (log s)) (l_block (log s)) (disk s (l_start (log s)))"

text \<open>What the log blocks hold once they are written.\<close>

lemma log_written:
  assumes "\<And>i j. i < n \<Longrightarrow> j < n \<Longrightarrow> a i = a j \<longleftrightarrow> i = j" "j < n"
  shows "apply_writes (map (\<lambda>j. (a j, f j)) [0..<n]) D (a j) = f j"
  using assms
proof (induction n)
  case (Suc n)
  show ?case
  proof (cases "j = n")
    case False
    then have "a n \<noteq> a j" "j < n" using Suc.prems(1) [of n j] Suc.prems(2) by auto
    then show ?thesis using Suc.IH Suc.prems by simp
  qed simp
qed simp

text \<open>The first half of a commit, to the header with the count.\<close>

lemma commit_log:
  fixes s :: "'z klog_scheme"
  assumes R: "txn_ready s d p"
  shows "\<exists>t. thn write_log write_head s = Ok () t \<and> bio_inv t d p (txn_pins (log s)) {} \<and> log t = log s \<and>
    bview t d = apply_writes (log_writes s d @ [(l_start (log s), full_head s)]) (bview s d) \<and>
    disk t = apply_writes (log_writes s d @ [(l_start (log s), full_head s)]) (disk s) \<and>
    dwrites t = dwrites s @ log_writes s d @ [(l_start (log s), full_head s)]"
proof -
  let ?l = "log s" and ?st = "l_start (log s)"
  note F = txn_facts [OF R]
  have a: "\<forall>j\<in>{0..<0 + l_n ?l}. txn_pins ?l (log_at ?st j) = 0 \<and> txn_pins ?l (l_block ?l ! j) > 0" using F(8,14,16) by force
  obtain u where u: "write_log s = Ok () u" "bio_inv u d p (txn_pins ?l) {}" "kbio.more u = kbio.more s"
      "bview u d = apply_writes (log_writes s d) (bview s d)" "disk u = apply_writes (log_writes s d) (disk s)" "dwrites u = dwrites s @ log_writes s d"
    using write_log_loop [OF F(10,11,12) a] write_log_eq [of s] F(6) by (auto simp: Let_def)
  have lu: "log u = ?l" by (rule log_more [OF u(3)])
  have p0: "txn_pins ?l ?st = 0" using F(8,16) in_log_start [of ?st] by fastforce
  have "?st \<notin> fst ` set (log_writes s d)" using F(14) by fastforce
  then have v: "bview u d ?st = disk s ?st" unfolding u(4) using apply_other bview_unused [OF F(10) p0] by simp
  have w: "l_dev (log u) = d" "l_n (log u) \<le> 30" "txn_pins ?l (l_start (log u)) = 0" using F(4,6) p0 lu by simp_all
  from write_head_ok [OF u(2) w F(11,12)] obtain t where t: "write_head u = Ok () t" "bio_inv t d p (txn_pins ?l) {}"
      "bview t d = (bview u d)(?st := full_head s)" "disk t = (disk u)(?st := full_head s)"
      "dwrites t = dwrites u @ [(?st, full_head s)]" "kbio.more t = kbio.more u" unfolding lu v by blast
  then show ?thesis using u log_more [OF t(6)] lu by (simp add: run_simps)
qed

text \<open>The second half, from the header with the count.\<close>

lemma commit_home:
  fixes s t :: "'z klog_scheme"
  assumes R: "txn_ready s d p" and inv: "bio_inv t d p (txn_pins (log s)) {}" and lt: "log t = log s"
    and v: "bview t d = apply_writes (log_writes s d @ [(l_start (log s), full_head s)]) (bview s d)"
  defines "ws \<equiv> home_writes s d @ [(l_start (log s), put32 (full_head s) 0 0)]"
  shows "\<exists>r. thn (install_trans False) (thn (upd_log (\<lambda>x. x\<lparr>l_n := 0\<rparr>)) write_head) t = Ok () r \<and> bio_inv r d p (\<lambda>_. 0) {} \<and>
    disk r = apply_writes ws (disk t) \<and> dwrites r = dwrites t @ ws \<and> log r = (log s)\<lparr>l_n := 0\<rparr>"
proof -
  let ?l = "log s" and ?st = "l_start (log s)"
  note F = txn_facts [OF R]
  have vl: "bview t d (log_at ?st j) = bview s d (l_block ?l ! j)" if "j < l_n ?l" for j
    using F(14) [OF that] log_written [where a = "log_at ?st", OF F(15) that] unfolding v by simp
  have a: "\<forall>j\<in>{0..<0 + l_n ?l}. txn_pins ?l (log_at ?st j) = 0 \<and> (\<not> False \<longrightarrow> txn_pins ?l (l_block ?l ! j) = 1) \<and>
      (\<forall>i\<in>{0..<0 + l_n ?l}. log_at ?st j \<noteq> l_block ?l ! i)"
    using F(8,14,16) by force
  have hw: "map (\<lambda>j. (l_block ?l ! j, bview t d (log_at ?st j))) [0..<0 + l_n ?l] = home_writes s d" using vl by simp
  have pz: "(\<lambda>m. if m \<in> (!) (l_block ?l) ` {0..<0 + l_n ?l} then 0 else txn_pins ?l m) = (\<lambda>_. 0)" using F(8) by auto
  have inj: "False \<or> inj_on ((!) (l_block ?l)) {0..<0 + l_n ?l}" using F(9) by simp
  obtain u where u: "install_trans False t = Ok () u" "bio_inv u d p (\<lambda>_. 0) {}" "kbio.more u = kbio.more t"
      "bview u d = apply_writes (home_writes s d) (bview t d)" "disk u = apply_writes (home_writes s d) (disk t)" "dwrites u = dwrites t @ home_writes s d"
    using install_loop [OF inv F(11,12) _ a inj] install_trans_eq [of False t] F(6) unfolding hw pz lt by (auto simp: Let_def)
  let ?u = "u\<lparr>log := (log u)\<lparr>l_n := 0\<rparr>\<rparr>"
  have lu: "log u = ?l" using log_more [OF u(3)] lt by simp
  have "?st \<notin> fst ` set (home_writes s d)" using F(16) in_log_start [of ?st] by fastforce
  then have h: "bview u d ?st = full_head s" unfolding u(4) v using apply_other by simp
  have w: "bio_inv ?u d p (\<lambda>_. 0) {}" "l_dev (log ?u) = d" "l_n (log ?u) \<le> 30" "(0 :: nat) = 0" "card {m :: uint. (0 :: nat) > 0} < NBUF" "finite {m :: uint. (0 :: nat) > 0}"
    using u(2) F(6) lu by (simp_all add: NBUF_def)
  from write_head_ok [OF w] obtain r where r: "write_head ?u = Ok () r" "bio_inv r d p (\<lambda>_. 0) {}"
      "disk r = (disk ?u)(?st := put32 (full_head s) 0 0)" "dwrites r = dwrites ?u @ [(?st, put32 (full_head s) 0 0)]" "kbio.more r = kbio.more ?u"
    by (auto simp: hdr_none h lu)
  have "log r = log ?u" by (rule log_more [OF r(5)])
  then show ?thesis using u r lu by (simp add: run_simps ws_def)
qed

lemma commit_ok:
  fixes s :: "'z klog_scheme"
  assumes R: "txn_ready s d p"
  shows "\<exists>t. commit s = Ok () t \<and> bio_inv t d p (\<lambda>_. 0) {} \<and> dwrites t = dwrites s @ commit_writes s d \<and>
    disk t = apply_writes (commit_writes s d) (disk s) \<and> log t = (log s)\<lparr>l_n := 0\<rparr>"
proof -
  obtain t where t: "thn write_log write_head s = Ok () t" "bio_inv t d p (txn_pins (log s)) {}" "log t = log s"
    "bview t d = apply_writes (log_writes s d @ [(l_start (log s), full_head s)]) (bview s d)"
    "disk t = apply_writes (log_writes s d @ [(l_start (log s), full_head s)]) (disk s)"
    "dwrites t = dwrites s @ log_writes s d @ [(l_start (log s), full_head s)]"
    using commit_log [OF R] by blast
  have "commit s = thn (thn write_log write_head) (thn (install_trans False) (thn (upd_log (\<lambda>x. x\<lparr>l_n := 0\<rparr>)) write_head)) s"
    using txn_facts(1) [OF R] by (simp add: commit_def run_simps thn_def bind_def split: res.splits)
  then show ?thesis using commit_home [OF R t(2,3,4)] t(1,5,6) by (auto simp: run_simps commit_writes_def Let_def)
qed

subsection \<open>What a crash leaves\<close>

text \<open>The number of blocks and their homes as the header on the disk gives them, and the disk once the log is replayed:
  the contents that survive a crash.\<close>

definition head_n :: "uint \<Rightarrow> (uint \<Rightarrow> uchar list) \<Rightarrow> nat" where
  "head_n st D = nat (sint (get32 (D st) 0))"

definition head_block :: "uint \<Rightarrow> (uint \<Rightarrow> uchar list) \<Rightarrow> nat \<Rightarrow> uint" where
  "head_block st D j = get32 (D st) (4 + 4 * j)"

definition replay_writes :: "uint \<Rightarrow> (uint \<Rightarrow> uchar list) \<Rightarrow> (uint \<times> uchar list) list" where
  "replay_writes st D = map (\<lambda>j. (head_block st D j, D (log_at st j))) [0..<head_n st D]"

definition durable :: "uint \<Rightarrow> (uint \<Rightarrow> uchar list) \<Rightarrow> uint \<Rightarrow> uchar list" where
  "durable st D = apply_writes (replay_writes st D) D"

lemma durable_empty: "get32 (D st) 0 = 0 \<Longrightarrow> durable st D = D"
  by (simp add: durable_def replay_writes_def head_n_def)

lemma head_full:
  assumes "D st = hdr n bl h" "length h = BSIZE" "n \<le> 30"
  shows "head_n st D = n" "j < n \<Longrightarrow> head_block st D j = bl ! j"
proof -
  have "sint (of_nat n :: uint) = int n" using assms(3) by (simp add: signed_of_nat signed_take_bit_int_eq_self)
  then show "head_n st D = n" "j < n \<Longrightarrow> head_block st D j = bl ! j"
    using hdr_get [OF assms(2,3)] by (simp_all add: head_n_def head_block_def assms(1))
qed

text \<open>Until the header is written the disk keeps its contents; from then on it has those of the transaction.\<close>

lemma crash_before:
  fixes s :: "'z klog_scheme"
  assumes R: "txn_ready s d p" and k: "k \<le> l_n (log s)" and x: "\<not> in_log (l_start (log s)) x"
  shows "durable (l_start (log s)) (apply_writes (take k (log_writes s d)) (disk s)) x = disk s x"
proof -
  let ?D = "apply_writes (take k (log_writes s d)) (disk s)" and ?st = "l_start (log s)"
  note F = txn_facts [OF R]
  have k: "fst ` set (take k (log_writes s d)) \<subseteq> log_at ?st ` {0..<l_n (log s)}" by (auto dest!: in_set_takeD)
  have "?st \<notin> fst ` set (take k (log_writes s d))" "x \<notin> fst ` set (take k (log_writes s d))" using k F(14) x by fastforce+
  then have "?D ?st = disk s ?st" "?D x = disk s x" using apply_other by simp_all
  then show ?thesis using durable_empty [of ?D ?st] F(13) by simp
qed

lemma crash_during:
  fixes s :: "'z klog_scheme" and k :: nat
  assumes R: "txn_ready s d p" and x: "\<not> in_log (l_start (log s)) x"
  defines "D \<equiv> apply_writes (take k (home_writes s d)) (apply_writes (log_writes s d @ [(l_start (log s), full_head s)]) (disk s))"
  shows "durable (l_start (log s)) D x = bview s d x"
proof -
  let ?l = "log s" and ?st = "l_start (log s)" and ?b = "(!) (l_block (log s))"
  note F = txn_facts [OF R]
  have k: "fst ` set (take k (home_writes s d)) \<subseteq> ?b ` {0..<l_n ?l}" by (auto dest!: in_set_takeD)
  have n: "?st \<notin> fst ` set (take k (home_writes s d))" using k F(16) in_log_start [of ?st] by fastforce
  have a: "log_at ?st j \<notin> fst ` set (take k (home_writes s d))" if "j < l_n ?l" for j using k F(14) [OF that] F(16) by fastforce
  have h: "D ?st = hdr (l_n ?l) (l_block ?l) (disk s ?st)" using apply_other [OF n] by (simp add: D_def)
  have g: "D (log_at ?st j) = bview s d (?b j)" if "j < l_n ?l" for j
    using apply_other [OF a [OF that]] F(14) [OF that] log_written [where a = "log_at ?st", OF F(15) that] by (simp add: D_def)
  have len: "length (disk s ?st) = BSIZE" using bio_invD(9) [OF F(10)] .
  have w: "replay_writes ?st D = home_writes s d"
    using head_full [where D = D and st = ?st, OF h len F(4)] g by (simp add: replay_writes_def)
  have xl: "x \<notin> fst ` set (log_writes s d @ [(?st, full_head s)])" using x F(14) in_log_start [of ?st] by fastforce
  have "durable ?st D x = (if x \<in> ?b ` {0..<l_n ?l} then bview s d x else D x)"
    unfolding durable_def w by (simp add: apply_map [where b = ?b])
  moreover have "D x = disk s x" "bview s d x = disk s x" if "x \<notin> ?b ` {0..<l_n ?l}"
  proof -
    have "x \<notin> fst ` set (take k (home_writes s d))" using k that by blast
    then show "D x = disk s x" unfolding D_def using apply_other [OF xl] apply_other by simp
    show "bview s d x = disk s x" using bview_unused [OF F(10)] that F(8) by simp
  qed
  ultimately show ?thesis by simp
qed

lemma crash_after:
  fixes s :: "'z klog_scheme"
  assumes R: "txn_ready s d p" and x: "\<not> in_log (l_start (log s)) x"
  shows "durable (l_start (log s)) (apply_writes (commit_writes s d) (disk s)) x = bview s d x"
proof -
  let ?l = "log s" and ?st = "l_start (log s)" and ?b = "(!) (l_block (log s))"
  let ?D = "apply_writes (commit_writes s d) (disk s)"
  note F = txn_facts [OF R]
  have len: "length (disk s ?st) = BSIZE" using bio_invD(9) [OF F(10)] .
  have "?D ?st = put32 (full_head s) 0 0" by (simp add: commit_writes_def Let_def)
  moreover have "0 + 4 \<le> length (full_head s)" using hdr_get(1) [OF len F(4)] by (simp add: BSIZE_def)
  ultimately have "durable ?st ?D = ?D" using get_put32(1) [of 0 "full_head s" 0] by (intro durable_empty) simp
  moreover have "x \<noteq> ?st" using x in_log_start [of ?st] by blast
  moreover have "x \<notin> fst ` set (log_writes s d)" using x F(14) by fastforce
  moreover have "bview s d x = disk s x" if "x \<notin> ?b ` {0..<l_n ?l}" using bview_unused [OF F(10)] that F(8) by simp
  ultimately show ?thesis using apply_other [of x "log_writes s d" "disk s"]
    by (auto simp: commit_writes_def Let_def apply_map [where b = ?b])
qed

subsection \<open>The recovery\<close>

text \<open>A log on disk that the recovery can replay.\<close>

definition log_ok :: "uint \<Rightarrow> (uint \<Rightarrow> uchar list) \<Rightarrow> bool" where
  "log_ok st D \<longleftrightarrow> unat st + LOGSIZE < 2 ^ 32 \<and> Suc (head_n st D) \<le> LOGSIZE \<and> (\<forall>j<head_n st D. \<not> in_log st (head_block st D j))"

lemma read_blocks:
  fixes s :: "'z klog_scheme"
  assumes "i + k \<le> length (l_block (log s))"
  shows "\<exists>bl. forn i k (\<lambda>i. upd_log (\<lambda>x. x\<lparr>l_block := (l_block x)[i := g i]\<rparr>)) s = Ok () (s\<lparr>log := (log s)\<lparr>l_block := bl\<rparr>\<rparr>) \<and>
    length bl = length (l_block (log s)) \<and> (\<forall>j. bl ! j = (if j \<in> {i..<i + k} then g j else l_block (log s) ! j))"
  using assms
proof (induction k arbitrary: i s)
  case 0
  then show ?case by (auto simp: run_simps intro: exI [where x = "l_block (log s)"])
next
  case (Suc k)
  let ?s = "s\<lparr>log := (log s)\<lparr>l_block := (l_block (log s))[i := g i]\<rparr>\<rparr>"
  let ?f = "\<lambda>i. upd_log (\<lambda>x. x\<lparr>l_block := (l_block x)[i := g i]\<rparr>) :: ('z klog_scheme, unit) km"
  have "Suc i + k \<le> length (l_block (log ?s))" using Suc.prems by simp
  from Suc.IH [OF this] obtain bl where b: "forn (Suc i) k (\<lambda>i. upd_log (\<lambda>x. x\<lparr>l_block := (l_block x)[i := g i]\<rparr>)) ?s = Ok () (?s\<lparr>log := (log ?s)\<lparr>l_block := bl\<rparr>\<rparr>)"
    "length bl = length (l_block (log ?s))" "\<forall>j. bl ! j = (if j \<in> {Suc i..<Suc i + k} then g j else l_block (log ?s) ! j)" by blast
  have "bl ! j = (if j \<in> {i..<i + Suc k} then g j else l_block (log s) ! j)" for j
    using b(3) Suc.prems by (auto simp: nth_list_update)
  moreover have "forn i (Suc k) ?f s = forn (Suc i) k ?f ?s" by (simp add: run_simps)
  ultimately show ?case using b(1,2) by (intro exI [where x = bl]) simp
qed

lemma read_head_ok:
  fixes s :: "'z klog_scheme"
  assumes inv: "bio_inv s d p (\<lambda>_. 0) {}" and L: "l_dev (log s) = d" "length (l_block (log s)) = LOGSIZE"
    and n: "head_n (l_start (log s)) (disk s) \<le> LOGSIZE"
  defines "st \<equiv> l_start (log s)"
  shows "\<exists>t. read_head s = Ok () t \<and> bio_inv t d p (\<lambda>_. 0) {} \<and> bview t d = bview s d \<and> disk t = disk s \<and> dwrites t = dwrites s \<and>
    l_start (log t) = st \<and> l_dev (log t) = d \<and> l_n (log t) = head_n st (disk s) \<and> (\<forall>j<head_n st (disk s). l_block (log t) ! j = head_block st (disk s) j)"
proof -
  let ?m = "head_n st (disk s)"
  have c: "card ({m :: uint. (0 :: nat) > 0} \<union> {}) < NBUF \<or> (0 :: nat) > 0" "finite ({m :: uint. (0 :: nat) > 0} \<union> {})" by (simp_all add: NBUF_def)
  obtain b u where u: "bread d st s = Ok b u" "bio_inv u d p (\<lambda>_. 0) {st}" "holds u d st b" "bview u d = bview s d" "b_data (bufs u b) = bview s d st" "kept_io s u"
    using bread_ex [OF inv _ c, of st] by auto
  have lu: "log u = log s" using log_more u(6) by blast
  have v: "bview s d st = disk s st" using bview_unused [OF inv] by simp
  let ?u = "u\<lparr>log := (log u)\<lparr>l_n := ?m\<rparr>\<rparr>"
  have "0 + ?m \<le> length (l_block (log ?u))" using n L(2) lu by (simp add: st_def)
  from read_blocks [OF this, of "\<lambda>i. get32 (disk s st) (4 + 4 * i)"] obtain bl where
    bl: "forn 0 ?m (\<lambda>i. upd_log (\<lambda>x. x\<lparr>l_block := (l_block x)[i := get32 (disk s st) (4 + 4 * i)]\<rparr>)) ?u = Ok () (?u\<lparr>log := (log ?u)\<lparr>l_block := bl\<rparr>\<rparr>)"
      "\<forall>j. bl ! j = (if j \<in> {0..<0 + ?m} then get32 (disk s st) (4 + 4 * j) else l_block (log ?u) ! j)" by blast
  let ?w = "?u\<lparr>log := (log ?u)\<lparr>l_block := bl\<rparr>\<rparr>"
  have "bio_inv ?w d p (\<lambda>_. 0) {st}" "holds ?w d st b" "bview ?w d st = disk ?w st" using u(2,3,4,6) v by simp_all
  from brelse_ex [OF this(1,2)] this(3) obtain t where t: "brelse b ?w = Ok () t" "bio_inv t d p (\<lambda>_. 0) {}" "bview t d = bview ?w d" "kept_io ?w t" by auto
  have lt: "log t = log ?w" using log_more t(4) by blast
  have "read_head s = Ok () t"
    using u(1,5) v L(1) lu bl(1) t(1) by (simp add: read_head_def run_simps st_def head_n_def)
  then show ?thesis using t u(4,6) lt bl(2) lu L(1) by (simp add: st_def head_block_def)
qed

lemma recover_ok:
  fixes s :: "'z klog_scheme"
  assumes inv: "bio_inv s d p (\<lambda>_. 0) {}" and L: "l_dev (log s) = d" "length (l_block (log s)) = LOGSIZE"
    and ok: "log_ok (l_start (log s)) (disk s)"
  defines "st \<equiv> l_start (log s)"
  shows "\<exists>t h. recover_from_log s = Ok () t \<and> bio_inv t d p (\<lambda>_. 0) {} \<and> get32 h 0 = 0 \<and>
    dwrites t = dwrites s @ replay_writes st (disk s) @ [(st, h)] \<and> disk t = apply_writes (replay_writes st (disk s) @ [(st, h)]) (disk s)"
proof -
  let ?m = "head_n st (disk s)" and ?b = "head_block st (disk s)"
  have o: "unat st + LOGSIZE < 2 ^ 32" "Suc ?m \<le> LOGSIZE" "\<And>j. j < ?m \<Longrightarrow> \<not> in_log st (?b j)" using ok by (auto simp: log_ok_def st_def)
  have at: "in_log st (log_at st j)" if "j < ?m" for j using log_at_simps(1) [OF o(1), of j] that o(2) by simp
  have "head_n (l_start (log s)) (disk s) \<le> LOGSIZE" using o(2) by (simp add: st_def)
  from read_head_ok [OF inv L this] obtain u where u: "read_head s = Ok () u" "bio_inv u d p (\<lambda>_. 0) {}" "bview u d = bview s d" "disk u = disk s"
      "dwrites u = dwrites s" "l_start (log u) = st" "l_dev (log u) = d" "l_n (log u) = ?m" "\<And>j. j < ?m \<Longrightarrow> l_block (log u) ! j = ?b j"
    unfolding st_def [symmetric] by blast
  have c: "card {m :: uint. (0 :: nat) > 0} < NBUF" "finite {m :: uint. (0 :: nat) > 0}" "True \<longrightarrow> (\<forall>m :: uint. (0 :: nat) = 0)" by (simp_all add: NBUF_def)
  have a: "\<forall>j\<in>{0..<0 + ?m}. (0 :: nat) = 0 \<and> (\<not> True \<longrightarrow> (0 :: nat) = 1) \<and> (\<forall>i\<in>{0..<0 + ?m}. log_at st j \<noteq> l_block (log u) ! i)"
    using at o(3) u(9) by fastforce
  have v: "bview s d = disk s" using bview_unused [OF inv] by auto
  have ws: "map (\<lambda>j. (l_block (log u) ! j, disk s (log_at st j))) [0..<0 + ?m] = replay_writes st (disk s)"
    using u(9) by (simp add: replay_writes_def)
  obtain w where w: "install_trans True u = Ok () w" "bio_inv w d p (\<lambda>_. 0) {}" "disk w = apply_writes (replay_writes st (disk s)) (disk s)"
      "dwrites w = dwrites s @ replay_writes st (disk s)" "kbio.more w = kbio.more u"
    using install_loop [OF u(2) c a] install_trans_eq [of True u] unfolding u(3-8) v ws by (auto simp: Let_def)
  let ?w = "w\<lparr>log := (log w)\<lparr>l_n := 0\<rparr>\<rparr>"
  have lw: "log w = log u" by (rule log_more [OF w(5)])
  have y: "bio_inv ?w d p (\<lambda>_. 0) {}" "l_dev (log ?w) = d" "l_n (log ?w) \<le> 30" "(0 :: nat) = 0" using w(2) u(7) lw by simp_all
  let ?h = "put32 (bview ?w d st) 0 0"
  from write_head_ok [OF y c(1,2)] obtain t where t: "write_head ?w = Ok () t" "bio_inv t d p (\<lambda>_. 0) {}" "disk t = (disk w)(st := ?h)" "dwrites t = dwrites w @ [(st, ?h)]"
    by (auto simp: hdr_none lw u(6))
  have "0 + 4 \<le> length (bview ?w d st)" using view_length [OF y(1)] by (simp add: BSIZE_def)
  then have "get32 ?h 0 = 0" by (rule get_put32(1))
  moreover have "recover_from_log s = Ok () t" using u(1) w(1) t(1) by (simp add: recover_from_log_def run_simps)
  ultimately show ?thesis using t w by (intro exI [where x = t] exI [where x = ?h]) simp
qed

text \<open>Replaying part of the log changes neither the log nor what it restores.\<close>

lemma durable_prefix:
  assumes "log_ok st D"
  shows "durable st (apply_writes (take k (replay_writes st D)) D) = durable st D"
proof -
  let ?E = "apply_writes (take k (replay_writes st D)) D"
  have o: "unat st + LOGSIZE < 2 ^ 32" "Suc (head_n st D) \<le> LOGSIZE" "\<And>j. j < head_n st D \<Longrightarrow> \<not> in_log st (head_block st D j)" using assms by (auto simp: log_ok_def)
  have k: "fst ` set (take k (replay_writes st D)) \<subseteq> head_block st D ` {0..<head_n st D}" by (auto simp: replay_writes_def dest!: in_set_takeD)
  have e: "?E x = D x" if "in_log st x" for x using that k o(3) by (intro apply_other) fastforce
  have "replay_writes st ?E = replay_writes st D"
    using e [OF in_log_start] e log_at_simps(1) [OF o(1)] o(2) by (simp add: replay_writes_def head_n_def head_block_def)
  moreover have "fst ` set (take k (replay_writes st D)) \<subseteq> fst ` set (replay_writes st D)" by (intro image_mono set_take_subset)
  ultimately show ?thesis unfolding durable_def using apply_absorb by metis
qed

text \<open>C5: a commit is atomic under crashes.  Whatever prefix of its writes reaches the disk, replaying the log on it
  gives, outside the log, either the disk before the transaction or the whole transaction: the first up to the last log block, the
  second from the write of the header on.\<close>

theorem commit_atomic:
  fixes s :: "'z klog_scheme"
  assumes "txn_ready s d p"
  shows "\<exists>t W. commit s = Ok () t \<and> dwrites t = dwrites s @ W \<and> disk t = apply_writes W (disk s) \<and>
    (\<forall>k x. \<not> in_log (l_start (log s)) x \<longrightarrow>
      durable (l_start (log s)) (apply_writes (take k W) (disk s)) x = (if k \<le> l_n (log s) then disk s x else bview s d x))"
proof -
  let ?n = "l_n (log s)" and ?st = "l_start (log s)" and ?W = "commit_writes s d"
  obtain t where t: "commit s = Ok () t" "dwrites t = dwrites s @ ?W" "disk t = apply_writes ?W (disk s)"
    using commit_ok [OF assms] by blast
  have W: "?W = log_writes s d @ [(?st, full_head s)] @ home_writes s d @ [(?st, put32 (full_head s) 0 0)]"
    by (simp add: commit_writes_def Let_def)
  have "durable ?st (apply_writes (take k ?W) (disk s)) x = (if k \<le> ?n then disk s x else bview s d x)" if x: "\<not> in_log ?st x" for k x
  proof -
    consider "k \<le> ?n" | m where "k = ?n + 1 + m" "m \<le> ?n" | "k \<ge> 2 * ?n + 2" by atomize_elim presburger
    then show ?thesis
    proof cases
      case 1
      then have "take k ?W = take k (log_writes s d)" by (simp add: W)
      then show ?thesis using crash_before [OF assms 1 x] 1 by simp
    next
      case (2 m)
      then have "take k ?W = log_writes s d @ [(?st, full_head s)] @ take m (home_writes s d)" by (simp add: W)
      then show ?thesis using crash_during [OF assms x, of m] 2 by simp
    next
      case 3
      then have "take k ?W = ?W" by (simp add: W)
      then show ?thesis using crash_after [OF assms x] 3 by simp
    qed
  qed
  then show ?thesis using t by blast
qed

text \<open>C6: the recovery at boot replays the log and is itself safe against crashes: whatever prefix of its
  writes reaches the disk, the contents that the next recovery restores are the same, and when it completes they are on the disk
  and the log is empty.\<close>

theorem recover_durable:
  fixes s :: "'z klog_scheme"
  assumes "bio_inv s d p (\<lambda>_. 0) {}" "l_dev (log s) = d" "length (l_block (log s)) = LOGSIZE" "log_ok (l_start (log s)) (disk s)"
  shows "\<exists>t W. recover_from_log s = Ok () t \<and> dwrites t = dwrites s @ W \<and> disk t = apply_writes W (disk s) \<and>
    get32 (disk t (l_start (log s))) 0 = 0 \<and>
    (\<forall>k x. \<not> in_log (l_start (log s)) x \<longrightarrow>
      durable (l_start (log s)) (apply_writes (take k W) (disk s)) x = durable (l_start (log s)) (disk s) x \<and>
      disk t x = durable (l_start (log s)) (disk s) x)"
proof -
  let ?st = "l_start (log s)" and ?D = "disk s"
  let ?R = "replay_writes ?st ?D"
  obtain t h where t: "recover_from_log s = Ok () t" "get32 h 0 = 0" "dwrites t = dwrites s @ ?R @ [(?st, h)]" "disk t = apply_writes (?R @ [(?st, h)]) ?D"
    using recover_ok [OF assms] by blast
  have x: "durable ?st (apply_writes (take k (?R @ [(?st, h)])) ?D) x = durable ?st ?D x" if "\<not> in_log ?st x" for k x
  proof (cases "k \<le> length ?R")
    case True
    then show ?thesis using durable_prefix [OF assms(4)] by simp
  next
    case False
    have "x \<noteq> ?st" using that in_log_start [of ?st] by blast
    moreover have "durable ?st (apply_writes (?R @ [(?st, h)]) ?D) = apply_writes (?R @ [(?st, h)]) ?D" by (rule durable_empty) (simp add: t(2))
    ultimately show ?thesis using False by (simp add: durable_def [of ?st ?D])
  qed
  have "disk t x = durable ?st ?D x" if "\<not> in_log ?st x" for x
    using that in_log_start [of ?st] by (auto simp: t(4) durable_def)
  then show ?thesis using t x by (intro exI [where x = t] exI [where x = "?R @ [(?st, h)]"]) simp
qed

end
