(* ===== verification/CrashDemo.thy ===== *)
theory CrashDemo
  imports Demo Crash
begin

text \<open>
  A transaction of one block on the state of \<open>Demo\<close>, and the disk that a crash in the middle of it leaves.
\<close>

definition z_txn :: ktrap where
  "z_txn = z_state\<lparr>log := z_log\<lparr>l_n := 1, l_block := 50 # replicate 29 0\<rparr>,
     bufs := (bufs z_state)(0 := \<lparr>b_valid = True, b_dev = 1, b_blockno = 50, b_refcnt = 1, b_data = replicate 1024 7\<rparr>)\<rparr>"

definition z_head :: "uchar list" where
  "z_head = hdr 1 (50 # replicate 29 0) (replicate 1024 0)"

definition z_crashed :: ktrap where
  "z_crashed = z_state\<lparr>disk := (disk z_state)(2 := z_head, 3 := replicate 1024 7)\<rparr>"

lemma z_txn_log: "log z_txn = z_log\<lparr>l_n := 1, l_block := 50 # replicate 29 0\<rparr>"
  by (simp add: z_txn_def)

lemma z_txn_bio: "bio_inv z_txn 1 0 (\<lambda>m. if m = 50 then 1 else 0) {}"
  by (auto simp: bio_inv_def holds_def buf_ok_def uses_def z_txn_def z_state_def BSIZE_def NBUF_def atLeast0LessThan)

lemma get32_zero: "get32 (replicate 1024 0) 0 = 0"
proof -
  have "replicate 4 (0 :: uchar) = [0, 0, 0, 0]" by (simp add: numeral_eq_Suc)
  then show ?thesis by (simp add: get32_def)
qed

lemma z_txn_ready: "txn_ready z_txn 1 0"
  using z_txn_bio get32_zero
  by (simp add: txn_ready_def z_txn_log txn_blocks_def z_log_def NBUF_def LOGSIZE_def in_log_def) (simp add: z_txn_def z_state_def)

lemma z_txn_view: "bview z_txn 1 50 = replicate 1024 7"
proof -
  have "holds z_txn 1 50 0" by (simp add: holds_def z_txn_def NBUF_def)
  then show ?thesis using bview_simps(1) [OF z_txn_bio] by (simp add: z_txn_def)
qed

theorem commit_atomic_witness:
  "txn_ready z_txn 1 0 \<and> (\<exists>t W. commit z_txn = Ok () t \<and> disk t = apply_writes W (disk z_txn) \<and>
    durable 2 (apply_writes (take 1 W) (disk z_txn)) 50 = replicate 1024 0 \<and> durable 2 (apply_writes (take 2 W) (disk z_txn)) 50 = replicate 1024 7)"
proof -
  have l: "l_start (log z_txn) = 2" "l_n (log z_txn) = 1" "\<not> in_log 2 50" "disk z_txn 50 = replicate 1024 0"
    by (simp_all add: z_txn_log z_log_def in_log_def LOGSIZE_def) (simp add: z_txn_def z_state_def)
  from commit_atomic [OF z_txn_ready] obtain t W where t: "commit z_txn = Ok () t" "disk t = apply_writes W (disk z_txn)"
      "\<forall>k x. \<not> in_log 2 x \<longrightarrow> durable 2 (apply_writes (take k W) (disk z_txn)) x = (if k \<le> 1 then disk z_txn x else bview z_txn 1 x)"
    unfolding l by blast
  then show ?thesis using t(3) [rule_format, OF l(3), of 1] t(3) [rule_format, OF l(3), of 2] z_txn_ready l(4) z_txn_view by auto
qed

lemma z_crashed_bio: "bio_inv z_crashed 1 0 (\<lambda>_. 0) {}"
proof -
  have "length z_head = BSIZE" unfolding z_head_def by (rule hdr_get(1)) (simp_all add: BSIZE_def)
  then show ?thesis by (simp add: bio_inv_def holds_def buf_ok_def uses_def z_crashed_def z_state_def BSIZE_def atLeast0LessThan)
qed

lemma z_crashed_head: "head_n 2 (disk z_crashed) = 1" "head_block 2 (disk z_crashed) 0 = 50"
  using head_full [of "disk z_crashed" 2 1 "50 # replicate 29 0" "replicate 1024 0"]
  by (simp_all add: z_crashed_def z_head_def BSIZE_def)

theorem recover_durable_witness:
  "log_ok 2 (disk z_crashed) \<and> disk z_crashed 50 = replicate 1024 0 \<and> (\<exists>t. recover_from_log z_crashed = Ok () t \<and> disk t 50 = replicate 1024 7)"
proof -
  have ok: "log_ok 2 (disk z_crashed)" using z_crashed_head by (simp add: log_ok_def LOGSIZE_def in_log_def)
  have l: "log z_crashed = z_log" "l_start z_log = 2" "\<not> in_log 2 50" "disk z_crashed 3 = replicate 1024 7" "disk z_crashed 50 = replicate 1024 0"
    by (simp_all add: z_crashed_def z_log_def in_log_def LOGSIZE_def) (simp add: z_state_def)
  have "durable 2 (disk z_crashed) 50 = replicate 1024 7"
    using z_crashed_head l(4) by (simp add: durable_def replay_writes_def log_at_def)
  moreover have "l_dev (log z_crashed) = 1" "length (l_block (log z_crashed)) = LOGSIZE" by (simp_all add: l z_log_def LOGSIZE_def)
  ultimately show ?thesis using recover_durable [OF z_crashed_bio] ok l by auto
qed

end
