(* ===== verification/Grep.thy ===== *)
theory Grep
  imports Prelude
begin

text \<open>
  \<^verbatim>\<open>user/grep.c\<close>: the pattern matcher and the loop that feeds it lines.  A C string is the list of its
  bytes before the terminating NUL, so the end of the list plays the part of the NUL.  The matcher
  is compared with a declarative meaning of patterns: a pattern is read as a list of items, each
  one character or a starred character, whose language is a set of texts.  \<open>read\<close> is a system call; the
  loop takes it as a parameter.
\<close>

abbreviation (input) ch_caret :: uchar where "ch_caret \<equiv> 94"
abbreviation (input) ch_dollar :: uchar where "ch_dollar \<equiv> 36"
abbreviation (input) ch_dot :: uchar where "ch_dot \<equiv> 46"
abbreviation (input) ch_star :: uchar where "ch_star \<equiv> 42"
abbreviation (input) ch_nl :: uchar where "ch_nl \<equiv> 10"

subsection \<open>The matcher\<close>

function (sequential) matchhere :: "uchar list \<Rightarrow> uchar list \<Rightarrow> bool"
  and matchstar :: "uchar \<Rightarrow> uchar list \<Rightarrow> uchar list \<Rightarrow> bool" where
  "matchhere [] tx = True"
| "matchhere (c # re) tx =
     (if re \<noteq> [] \<and> hd re = ch_star then matchstar c (tl re) tx
      else if c = ch_dollar \<and> re = [] then tx = []
      else case tx of
          [] \<Rightarrow> False
        | t # ts \<Rightarrow> (c = ch_dot \<or> c = t) \<and> matchhere re ts)"
| "matchstar c re tx =
     (matchhere re tx \<or>
      (case tx of [] \<Rightarrow> False | t # ts \<Rightarrow> (t = c \<or> c = ch_dot) \<and> matchstar c re ts))"
  by pat_completeness auto
termination
  by (relation "inv_image (less_than <*lex*> less_than <*lex*> less_than)
      (\<lambda>x. case x of Inl (re, t) \<Rightarrow> (length re, length t, 0) | Inr (c, re, t) \<Rightarrow> (length re, length t, 1 :: nat))") auto

declare matchhere.simps(2) [simp del] matchstar.simps [simp del]

primrec match_loop :: "uchar list \<Rightarrow> uchar list \<Rightarrow> bool" where
  "match_loop re [] = matchhere re []"
| "match_loop re (t # ts) = (matchhere re (t # ts) \<or> match_loop re ts)"

definition match :: "uchar list \<Rightarrow> uchar list \<Rightarrow> bool" where
  "match re tx = (if re \<noteq> [] \<and> hd re = ch_caret then matchhere (tl re) tx else match_loop re tx)"

subsection \<open>The line loop\<close>

text \<open>\<open>strchr(p, '\n')\<close> on a buffer: the position of the first newline before any NUL.\<close>

primrec strchr_nl :: "uchar list \<Rightarrow> nat option" where
  "strchr_nl [] = None"
| "strchr_nl (c # cs) = (if c = ch_nl then Some 0 else if c = 0 then None else map_option Suc (strchr_nl cs))"

lemma strchr_nl_less: "strchr_nl p = Some i \<Longrightarrow> i < length p"
  by (induction p arbitrary: i) (auto split: if_splits)

text \<open>The inner loop, on the bytes of the buffer from \<open>p\<close> on: what it writes, and what is left.\<close>

function grep_lines :: "uchar list \<Rightarrow> uchar list \<Rightarrow> uchar list \<times> uchar list" where
  "grep_lines pattern p = (case strchr_nl p of
       None \<Rightarrow> ([], p)
     | Some q \<Rightarrow>
         let (out, rest) = grep_lines pattern (drop (q + 1) p) in
         ((if match pattern (take q p) then take (q + 1) p else []) @ out, rest))"
  by pat_completeness auto
termination
  by (relation "measure (\<lambda>(pat, p). length p)") (auto dest: strchr_nl_less)

declare grep_lines.simps [simp del]

text \<open>The outer loop: \<open>buf\<close> is what the buffer holds of an unfinished line, \<open>rd f n\<close> is the result of a
  read of at most \<open>n\<close> bytes.\<close>

partial_function (option) grep_loop ::
  "('f \<Rightarrow> nat \<Rightarrow> uchar list \<times> 'f) \<Rightarrow> uchar list \<Rightarrow> uchar list \<Rightarrow> 'f \<Rightarrow> uchar list \<Rightarrow> uchar list option" where
  "grep_loop rd pattern buf f written =
     (let (new, f') = rd f (1024 - length buf - 1) in
      if new = [] then Some written
      else let (out, rest) = grep_lines pattern (buf @ new) in
        grep_loop rd pattern rest f' (written @ out))"

definition grep :: "('f \<Rightarrow> nat \<Rightarrow> uchar list \<times> 'f) \<Rightarrow> uchar list \<Rightarrow> 'f \<Rightarrow> uchar list option" where
  "grep rd pattern fd = grep_loop rd pattern [] fd []"

subsection \<open>The meaning of a pattern\<close>

datatype item = One uchar | Star uchar

fun parse_re :: "uchar list \<Rightarrow> item list \<times> bool" where
  "parse_re [] = ([], False)"
| "parse_re [c] = (if c = ch_dollar then ([], True) else ([One c], False))"
| "parse_re (c # d # re) =
     (if d = ch_star then map_prod (Cons (Star c)) id (parse_re re)
      else map_prod (Cons (One c)) id (parse_re (d # re)))"

definition fits :: "uchar \<Rightarrow> uchar \<Rightarrow> bool" where
  "fits c t \<longleftrightarrow> c = ch_dot \<or> c = t"

primrec lang :: "item list \<Rightarrow> uchar list set" where
  "lang [] = {[]}"
| "lang (i # its) = (case i of
      One c \<Rightarrow> {t # w | t w. fits c t \<and> w \<in> lang its}
    | Star c \<Rightarrow> {u @ w | u w. (\<forall>t \<in> set u. fits c t) \<and> w \<in> lang its})"

definition here :: "item list \<times> bool \<Rightarrow> uchar list \<Rightarrow> bool" where
  "here r tx \<longleftrightarrow> (\<exists>w rest. tx = w @ rest \<and> w \<in> lang (fst r) \<and> (snd r \<longrightarrow> rest = []))"

definition matches :: "uchar list \<Rightarrow> uchar list \<Rightarrow> bool" where
  "matches re tx \<longleftrightarrow> (if re \<noteq> [] \<and> hd re = ch_caret then here (parse_re (tl re)) tx
     else \<exists>before rest. tx = before @ rest \<and> here (parse_re re) rest)"

lemma here_nil [simp]: "here ([], False) tx" "here ([], True) tx \<longleftrightarrow> tx = []"
  by (auto simp: here_def)

lemma here_One: "here (One c # its, b) tx \<longleftrightarrow> (case tx of [] \<Rightarrow> False | t # ts \<Rightarrow> fits c t \<and> here (its, b) ts)"
  by (cases tx) (auto simp: here_def Cons_eq_append_conv)

lemma here_Star:
  "here (Star c # its, b) tx \<longleftrightarrow> (\<exists>u rest. tx = u @ rest \<and> (\<forall>t \<in> set u. fits c t) \<and> here (its, b) rest)"
proof
  assume "here (Star c # its, b) tx"
  then obtain u w rest where "tx = (u @ w) @ rest" "\<forall>t \<in> set u. fits c t" "w \<in> lang its" "b \<longrightarrow> rest = []"
    unfolding here_def lang.simps item.case fst_conv snd_conv by blast
  then show "\<exists>u rest. tx = u @ rest \<and> (\<forall>t \<in> set u. fits c t) \<and> here (its, b) rest"
    by (intro exI [of _ u] exI [of _ "w @ rest"]) (auto simp: here_def)
next
  assume "\<exists>u rest. tx = u @ rest \<and> (\<forall>t \<in> set u. fits c t) \<and> here (its, b) rest"
  then obtain u w rest where "tx = (u @ w) @ rest" "\<forall>t \<in> set u. fits c t" "w \<in> lang its" "b \<longrightarrow> rest = []"
    unfolding here_def fst_conv snd_conv by (metis append.assoc)
  then show "here (Star c # its, b) tx" unfolding here_def by (intro exI [of _ "u @ w"] exI [of _ rest]) auto
qed

lemma map_prod_Cons_id: "map_prod (Cons i) id r = (i # fst r, snd r)"
  by (cases r) simp

lemma Star_step:
  "(\<exists>u rest. tx = u @ rest \<and> (\<forall>t \<in> set u. fits c t) \<and> P rest) \<longleftrightarrow>
     P tx \<or> (case tx of [] \<Rightarrow> False | t # ts \<Rightarrow> fits c t \<and> (\<exists>u rest. ts = u @ rest \<and> (\<forall>t \<in> set u. fits c t) \<and> P rest))"
  (is "?l \<longleftrightarrow> ?r")
proof
  assume ?l
  then obtain u rest where u: "tx = u @ rest" "\<forall>t \<in> set u. fits c t" "P rest" by blast
  then show ?r by (cases u) auto
next
  assume ?r
  then consider "P tx" | t ts u rest where "tx = t # ts" "fits c t" "ts = u @ rest" "\<forall>t \<in> set u. fits c t" "P rest"
    by (auto split: list.splits)
  then show ?l
  proof cases
    case 1
    then show ?thesis by (intro exI [of _ "[]"] exI [of _ tx]) simp
  next
    case (2 t ts u rest)
    then show ?thesis by (intro exI [of _ "t # u"] exI [of _ rest]) simp
  qed
qed

lemma matchhere_here:
  "matchhere re tx \<longleftrightarrow> here (parse_re re) tx"
  "matchstar c re tx \<longleftrightarrow> (\<exists>u rest. tx = u @ rest \<and> (\<forall>t \<in> set u. fits c t) \<and> here (parse_re re) rest)"
proof (induction re tx and c re tx rule: matchhere_matchstar.induct)
  case (1 tx)
  then show ?case by simp
next
  case (2 c re tx)
  show ?case
  proof (cases re)
    case Nil
    then show ?thesis using 2 by (cases tx) (auto simp: matchhere.simps(2) here_One fits_def)
  next
    case (Cons d r)
    show ?thesis
    proof (cases "d = ch_star")
      case True
      then show ?thesis using 2(1) Cons
        by (simp add: matchhere.simps(2) map_prod_Cons_id here_Star)
    next
      case False
      then show ?thesis using 2(2) Cons
        by (cases tx) (auto simp: matchhere.simps(2) map_prod_Cons_id here_One fits_def)
    qed
  qed
next
  case (3 c re tx)
  then show ?case
    by (subst matchstar.simps, subst Star_step) (auto simp: fits_def split: list.splits)
qed

lemma match_loop_iff: "match_loop re tx \<longleftrightarrow> (\<exists>before rest. tx = before @ rest \<and> matchhere re rest)"
proof (induction tx)
  case (Cons t ts)
  have "(\<exists>before rest. t # ts = before @ rest \<and> matchhere re rest) \<longleftrightarrow>
      matchhere re (t # ts) \<or> (\<exists>before rest. ts = before @ rest \<and> matchhere re rest)"
    by (auto simp: Cons_eq_append_conv)
  then show ?case using Cons by simp
qed simp

lemma match_matches: "match re tx = matches re tx"
  by (simp add: match_def matches_def match_loop_iff matchhere_here)

text \<open>C9: the matcher decides the meaning of patterns.  Read as a list of single and starred characters
  with optional anchors at the ends, a pattern matches a text exactly when some factor of the text
  (a prefix after \<open>^\<close>, a suffix before \<open>$\<close>) is in the language of the items.\<close>

theorem match_correct: "match re tx = matches re tx"
  by (rule match_matches)

subsection \<open>Lines and buffers\<close>

text \<open>The specification of the loop: the lines of a text that match, each with its newline; a last
  line without one is not looked at.\<close>

function matching_lines :: "uchar list \<Rightarrow> uchar list \<Rightarrow> uchar list" where
  "matching_lines pattern cs =
     (if ch_nl \<notin> set cs then []
      else let l = takeWhile (\<lambda>c. c \<noteq> ch_nl) cs in
        (if matches pattern l then l @ [ch_nl] else []) @ matching_lines pattern (drop (length l + 1) cs))"
  by pat_completeness auto
termination
  by (relation "measure (\<lambda>(pat, cs). length cs)") (auto dest: length_pos_if_in_set)

declare matching_lines.simps [simp del]

lemma strchr_nl_None: "0 \<notin> set p \<Longrightarrow> strchr_nl p = None \<longleftrightarrow> ch_nl \<notin> set p"
  by (induction p) auto

lemma strchr_nl_Some: "0 \<notin> set p \<Longrightarrow> ch_nl \<in> set p \<Longrightarrow> strchr_nl p = Some (length (takeWhile (\<lambda>c. c \<noteq> ch_nl) p))"
  by (induction p) auto

lemma take_line: "ch_nl \<in> set p \<Longrightarrow> p = takeWhile (\<lambda>c. c \<noteq> ch_nl) p @ ch_nl # drop (length (takeWhile (\<lambda>c. c \<noteq> ch_nl) p) + 1) p"
  by (induction p) auto

lemma matching_lines_line:
  "ch_nl \<notin> set l \<Longrightarrow> matching_lines pat (l @ ch_nl # cs) = (if matches pat l then l @ [ch_nl] else []) @ matching_lines pat cs"
proof -
  assume "ch_nl \<notin> set l"
  then have "takeWhile (\<lambda>c. c \<noteq> ch_nl) (l @ ch_nl # cs) = l" by (induction l) auto
  then show ?thesis by (subst matching_lines.simps) (simp add: Let_def)
qed

text \<open>The inner loop handles the finished lines of the buffer and leaves the unfinished one.\<close>

lemma grep_lines_spec:
  "0 \<notin> set p \<Longrightarrow> grep_lines pat p = (out, rest) \<Longrightarrow>
     ch_nl \<notin> set rest \<and> (\<exists>fin. p = fin @ rest \<and> (fin \<noteq> [] \<longrightarrow> last fin = ch_nl)) \<and>
     matching_lines pat (p @ cs) = out @ matching_lines pat (rest @ cs)"
proof (induction pat p arbitrary: out rest rule: grep_lines.induct)
  case (1 pat p)
  show ?case
  proof (cases "ch_nl \<in> set p")
    case False
    then have "out = []" "rest = p" using 1 strchr_nl_None [of p] by (simp_all add: grep_lines.simps [of pat p])
    then show ?thesis using False by simp
  next
    case True
    let ?l = "takeWhile (\<lambda>c. c \<noteq> ch_nl) p" and ?q = "length (takeWhile (\<lambda>c. c \<noteq> ch_nl) p)"
    note s = strchr_nl_Some [OF 1(2) True]
    have tq: "take ?q p = ?l" "take (?q + 1) p = ?l @ [ch_nl]"
      using take_line [OF True] by (metis append_eq_conv_conj, metis Cons_eq_appendI append.assoc append_Nil append_eq_conv_conj length_append_singleton Suc_eq_plus1)
    obtain o2 r2 where g: "grep_lines pat (drop (?q + 1) p) = (o2, r2)" by fastforce
    have z: "0 \<notin> set (drop (?q + 1) p)" using 1(2) set_drop_subset by fastforce
    have o: "out = (if matches pat ?l then ?l @ [ch_nl] else []) @ o2" "rest = r2"
      using 1(3) s g tq by (auto simp: grep_lines.simps [of pat p] match_matches)
    from 1(1) [OF s z g] obtain d where ih: "ch_nl \<notin> set r2" "drop (?q + 1) p = d @ r2" "d \<noteq> [] \<longrightarrow> last d = ch_nl"
      "matching_lines pat (drop (?q + 1) p @ cs) = o2 @ matching_lines pat (r2 @ cs)" by auto
    have p: "p = (?l @ [ch_nl] @ d) @ r2" using take_line [OF True] ih(2) by simp
    have "ch_nl \<notin> set ?l" by (auto dest: set_takeWhileD)
    then have "matching_lines pat (p @ cs) = out @ matching_lines pat (rest @ cs)"
      using take_line [OF True] matching_lines_line [of ?l pat "drop (?q + 1) p @ cs"] ih(4) o
      by (metis append.assoc append_Cons)
    moreover have "last (?l @ [ch_nl] @ d) = ch_nl" using ih(3) by simp
    ultimately show ?thesis using ih(1) o(2) p by blast
  qed
qed

text \<open>What the loop needs of \<open>read\<close>: it delivers the bytes of the file in order, at most as many as asked
  for, and none only at the end of the file or when none are asked for.\<close>

definition reads_file :: "('f \<Rightarrow> nat \<Rightarrow> uchar list \<times> 'f) \<Rightarrow> ('f \<Rightarrow> uchar list) \<Rightarrow> bool" where
  "reads_file rd content \<longleftrightarrow> (\<forall>f n new f'. rd f n = (new, f') \<longrightarrow>
     content f = new @ content f' \<and> length new \<le> n \<and> (new = [] \<longrightarrow> n = 0 \<or> content f = []))"

definition short_lines :: "uchar list \<Rightarrow> bool" where
  "short_lines cs \<longleftrightarrow> (\<forall>as l bs. cs = as @ l @ bs \<longrightarrow> ch_nl \<notin> set l \<longrightarrow> length l < 1023)"

lemma short_lines_suffix: "short_lines (as @ bs) \<Longrightarrow> short_lines bs"
  unfolding short_lines_def by (metis append.assoc)

lemma matching_lines_none [simp]: "ch_nl \<notin> set cs \<Longrightarrow> matching_lines pat cs = []"
  by (simp add: matching_lines.simps)

lemma grep_loop_spec:
  assumes "reads_file rd content"
  shows "0 \<notin> set (buf @ content f) \<Longrightarrow> short_lines (buf @ content f) \<Longrightarrow> ch_nl \<notin> set buf \<Longrightarrow>
    grep_loop rd pat buf f w = Some (w @ matching_lines pat (buf @ content f))"
proof (induction "length (content f)" arbitrary: buf f w rule: less_induct)
  case less
  obtain new f' where r: "rd f (1024 - length buf - 1) = (new, f')" by fastforce
  then have c: "content f = new @ content f'" "new = [] \<longrightarrow> 1024 - length buf - 1 = 0 \<or> content f = []"
    using assms unfolding reads_file_def by blast+
  have "length buf < 1023" using less(3,4) unfolding short_lines_def by (metis append_Nil)
  with c(2) have e: "content f = []" if "new = []" using that by simp
  show ?case
  proof (cases "new = []")
    case True
    then show ?thesis using e r less(4) by (simp add: grep_loop.simps [of rd pat buf f])
  next
    case False
    obtain out rest where g: "grep_lines pat (buf @ new) = (out, rest)" by fastforce
    have "0 \<notin> set (buf @ new)" using less(2) c(1) by auto
    from grep_lines_spec [OF this g, of "content f'"] obtain fin where
      s: "ch_nl \<notin> set rest" "buf @ new = fin @ rest"
         "matching_lines pat ((buf @ new) @ content f') = out @ matching_lines pat (rest @ content f')" by blast
    have all: "buf @ content f = fin @ (rest @ content f')" using c(1) s(2) by (metis append.assoc)
    have "length (content f') < length (content f)" using c(1) False by simp
    then have "grep_loop rd pat rest f' (w @ out) = Some ((w @ out) @ matching_lines pat (rest @ content f'))"
      using less(2,3) s(1) all by (intro less(1)) (auto intro: short_lines_suffix)
    then show ?thesis using r False g s(3) c(1) by (simp add: grep_loop.simps [of rd pat buf f])
  qed
qed

text \<open>C10: \<open>grep\<close> on a text file.  However \<open>read\<close> cuts the file into pieces, \<open>grep\<close> returns, and it has written
  exactly the complete lines that match, in order, provided that the file has no NUL byte and that
  every line has at most 1022 bytes before its newline.  A longer line fills the buffer, \<open>read\<close> is then
  asked for 0 bytes and \<open>grep\<close> stops there.\<close>

theorem grep_correct:
  assumes "reads_file rd content" "0 \<notin> set (content fd)" "short_lines (content fd)"
  shows "grep rd pattern fd = Some (matching_lines pattern (content fd))"
  using grep_loop_spec [OF assms(1), of "[]" fd pattern "[]"] assms(2,3) by (simp add: grep_def)

text \<open>A file of three lines, read two bytes at a time.\<close>

definition two_bytes :: "uchar list \<Rightarrow> nat \<Rightarrow> uchar list \<times> uchar list" where
  "two_bytes f n = (take (min 2 n) f, drop (min 2 n) f)"

theorem grep_correct_witness:
  "reads_file two_bytes id \<and>
   grep two_bytes [ch_caret, 97, ch_star, 98] [97, 97, 98, 10, 99, 10, 98, 10] = Some [97, 97, 98, 10, 98, 10]"
proof -
  let ?f = "[97, 97, 98, 10, 99, 10, 98, 10] :: uchar list"
  have r: "reads_file two_bytes id"
    by (auto simp: reads_file_def two_bytes_def min_def split: if_splits)
  have "length l < 1023" if "?f = as @ l @ bs" for as l bs
  proof -
    have "length l \<le> length ?f" using arg_cong [OF that, of length] by simp
    then show ?thesis by simp
  qed
  then have "short_lines (id ?f)" by (simp add: short_lines_def)
  from grep_correct [OF r _ this, of "[ch_caret, 97, ch_star, 98]"]
  have "grep two_bytes [ch_caret, 97, ch_star, 98] ?f = Some (matching_lines [ch_caret, 97, ch_star, 98] ?f)" by simp
  moreover have "matching_lines [ch_caret, 97, ch_star, 98] ?f = [97, 97, 98, 10, 98, 10]"
    by (simp add: matching_lines.simps match_matches [symmetric] match_def matchhere.simps matchstar.simps)
  ultimately show ?thesis using r by simp
qed

end
