(* ===== verification/Dsort.thy ===== *)
theory Dsort
  imports Prelude "HOL-Library.Multiset"
begin

text \<open>
  \<^verbatim>\<open>concurrency/Distributed-Sorting/finaltry.c\<close>: the file sorter.  Arrays are lists; the \<open>int\<close> indices of
  the code are naturals where the code keeps them so.  The threads of the merge sort work on disjoint
  ranges and are composed one after another; those of the counting sort share one array, on which
  they act by atomic additions only, so the model takes an arbitrary interleaving of the additions.
  A run that does not return, or whose array accesses are undefined, is \<open>None\<close>.
\<close>

record FileEntry =
  name :: "uchar list"
  id_field :: uint
  timestamp :: "uchar list"
  sort_key :: uint64

subsection \<open>Keys\<close>

text \<open>Plain \<open>char\<close> is signed where the program runs; the sum is in \<open>unsigned long\<close>.\<close>

definition hash_string :: "uchar list \<Rightarrow> uint64" where
  "hash_string str = foldl (\<lambda>hash c. hash * 27 + (scast c - 97 + 1)) 0 str mod 9999999"

text \<open>\<open>to_time\<close> is \<open>strptime\<close> followed by \<open>mktime\<close>.\<close>

definition hash_timestamp :: "(uchar list \<Rightarrow> uint64) \<Rightarrow> uchar list \<Rightarrow> uint64" where
  "hash_timestamp to_time ts = to_time ts mod 9999999"

definition preprocess_sort_keys :: "(uchar list \<Rightarrow> uint64) \<Rightarrow> FileEntry list \<Rightarrow> nat \<Rightarrow> FileEntry list" where
  "preprocess_sort_keys to_time files column_type = map (\<lambda>f.
     if column_type = 0 then f\<lparr>sort_key := scast (id_field f)\<rparr>
     else if column_type = 1 then f\<lparr>sort_key := hash_string (name f)\<rparr>
     else if column_type = 2 then f\<lparr>sort_key := hash_timestamp to_time (timestamp f)\<rparr>
     else f) files"

text \<open>Only the sign of \<open>strcmp\<close> is used.\<close>

fun strcmp :: "uchar list \<Rightarrow> uchar list \<Rightarrow> int" where
  "strcmp [] [] = 0"
| "strcmp [] (y # ys) = -1"
| "strcmp (x # xs) [] = 1"
| "strcmp (x # xs) (y # ys) = (if x < y then -1 else if y < x then 1 else strcmp xs ys)"

definition compare_entries :: "FileEntry \<Rightarrow> FileEntry \<Rightarrow> nat \<Rightarrow> int" where
  "compare_entries a b column_type =
     (if column_type = 0 then
        of_bool (sint (id_field a) > sint (id_field b)) - of_bool (sint (id_field a) < sint (id_field b))
      else if column_type = 1 then strcmp (name a) (name b)
      else if column_type = 2 then strcmp (timestamp a) (timestamp b)
      else 0)"

subsection \<open>Merge sort\<close>

text \<open>A queue is the index range that is still to be merged, both ends included.\<close>

fun min_scan :: "FileEntry list \<Rightarrow> nat \<Rightarrow> nat \<Rightarrow> (nat \<times> nat) list \<Rightarrow> (FileEntry \<times> nat) option \<Rightarrow> (FileEntry \<times> nat) option" where
  "min_scan files column_type i [] best = best"
| "min_scan files column_type i ((index, end') # qs) best =
     min_scan files column_type (i + 1) qs
       (if index \<le> end' then
          (case best of
             None \<Rightarrow> Some (files ! index, i)
           | Some (m, j) \<Rightarrow> if compare_entries (files ! index) m column_type < 0 then Some (files ! index, i) else best)
        else best)"

definition get_min_entry :: "FileEntry list \<Rightarrow> (nat \<times> nat) list \<Rightarrow> nat \<Rightarrow> (FileEntry \<times> nat) option" where
  "get_min_entry files queues column_type = min_scan files column_type 0 queues None"

text \<open>The merging loop with \<open>n\<close> entries still to be output; a round that finds every queue empty changes
  nothing, so the loop would not end.\<close>

primrec merge_loop :: "nat \<Rightarrow> FileEntry list \<Rightarrow> nat \<Rightarrow> (nat \<times> nat) list \<Rightarrow> FileEntry list \<Rightarrow> FileEntry list option" where
  "merge_loop 0 files column_type queues out = Some out"
| "merge_loop (Suc n) files column_type queues out =
     (case get_min_entry files queues column_type of
        None \<Rightarrow> None
      | Some (m, j) \<Rightarrow> merge_loop n files column_type
          (queues[j := (fst (queues ! j) + 1, snd (queues ! j))]) (out @ [m]))"

definition k_way_merge :: "FileEntry list \<Rightarrow> nat \<Rightarrow> nat \<Rightarrow> nat \<Rightarrow> nat \<Rightarrow> FileEntry list option" where
  "k_way_merge files start end' k column_type =
     (let chunk_size = (end' - start + 1) div k;
          queues = map (\<lambda>i. (start + i * chunk_size,
            if i = k - 1 then end' else start + (i + 1) * chunk_size - 1)) [0..<k]
      in map_option (\<lambda>out. take start files @ out @ drop (end' + 1) files)
           (merge_loop (end' - start + 1) files column_type queues []))"

text \<open>The insertion sort of short ranges; \<open>p\<close> is the code's \<open>j + 1\<close>.\<close>

function ins_shift :: "nat \<Rightarrow> nat \<Rightarrow> FileEntry \<Rightarrow> nat \<Rightarrow> FileEntry list \<Rightarrow> FileEntry list" where
  "ins_shift column_type start key p files =
     (if p > start \<and> compare_entries (files ! (p - 1)) key column_type > 0
      then ins_shift column_type start key (p - 1) (files[p := files ! (p - 1)])
      else files[p := key])"
  by pat_completeness auto
termination by (relation "measure (\<lambda>(c, s, k, p, f). p)") auto

declare ins_shift.simps [simp del]

definition insertion_sort :: "nat \<Rightarrow> nat \<Rightarrow> nat \<Rightarrow> FileEntry list \<Rightarrow> FileEntry list" where
  "insertion_sort column_type start end' files =
     foldl (\<lambda>fs i. ins_shift column_type start (fs ! i) i fs) files [start + 1..<end' + 1]"

definition K_WAY :: nat where "K_WAY = 4"

lemma K_WAY_chunk: "start < end' \<Longrightarrow> K_WAY < end' - start \<Longrightarrow> 0 < (end' - start + 1) div K_WAY"
  by (simp add: K_WAY_def div_greater_zero_iff)

function parallel_merge_sort :: "nat \<Rightarrow> nat \<Rightarrow> nat \<Rightarrow> FileEntry list \<Rightarrow> FileEntry list option" where
  "parallel_merge_sort column_type start end' files =
     (if start \<ge> end' then Some files
      else if end' - start \<le> K_WAY then Some (insertion_sort column_type start end' files)
      else let c = (end' - start + 1) div K_WAY in
        Option.bind (parallel_merge_sort column_type start (start + c - 1) files) (\<lambda>f1.
        Option.bind (parallel_merge_sort column_type (start + c) (start + 2 * c - 1) f1) (\<lambda>f2.
        Option.bind (parallel_merge_sort column_type (start + 2 * c) (start + 3 * c - 1) f2) (\<lambda>f3.
        Option.bind (parallel_merge_sort column_type (start + 3 * c) end' f3) (\<lambda>f4.
        k_way_merge f4 start end' K_WAY column_type)))))"
  by pat_completeness auto
termination
proof (relation "measure (\<lambda>(c, s, e, f). e - s)", goal_cases)
  case (2 column_type start end' files c)
  then have "0 < c" "c * 4 \<le> end' - start + 1" using K_WAY_chunk [of start end'] by (simp_all add: K_WAY_def)
  with 2 show ?case by auto
next
  case (3 column_type start end' files c f1)
  then have "0 < c" "c * 4 \<le> end' - start + 1" using K_WAY_chunk [of start end'] by (simp_all add: K_WAY_def)
  with 3 show ?case by auto
next
  case (4 column_type start end' files c f1 f2)
  then have "0 < c" "c * 4 \<le> end' - start + 1" using K_WAY_chunk [of start end'] by (simp_all add: K_WAY_def)
  with 4 show ?case by auto
next
  case (5 column_type start end' files c f1 f2 f3)
  then have "0 < c" "c * 4 \<le> end' - start + 1" using K_WAY_chunk [of start end'] by (simp_all add: K_WAY_def)
  with 5 show ?case by auto
qed auto

declare parallel_merge_sort.simps [simp del]

subsection \<open>Counting sort\<close>

definition THREAD_COUNT :: nat where "THREAD_COUNT = 4"

text \<open>What a counting thread does to the shared array: one atomic addition per index, of the number of
  its own entries with that key.  The arguments are the entries from \<open>start\<close> up to \<open>end'\<close>.\<close>

definition count_thread :: "FileEntry list \<Rightarrow> nat \<Rightarrow> nat \<Rightarrow> uint64 \<Rightarrow> nat \<Rightarrow> (nat \<times> int) list" where
  "count_thread files start end' min_val rng =
     (let local_count = foldl (\<lambda>lc i. let index = unat (sort_key (files ! i) - min_val) in lc[index := lc ! index + 1])
            (replicate rng 0) [start..<end']
      in map (\<lambda>i. (i, local_count ! i)) [0..<rng])"

definition fetch_and_add :: "int list \<Rightarrow> nat \<times> int \<Rightarrow> int list" where
  "fetch_and_add cnt a = cnt[fst a := cnt ! fst a + snd a]"

definition thread_adds :: "FileEntry list \<Rightarrow> uint64 \<Rightarrow> nat \<Rightarrow> (nat \<times> int) list list" where
  "thread_adds files min_val rng =
     (let n = length files; chunk_size = n div THREAD_COUNT
      in map (\<lambda>i. count_thread files (i * chunk_size)
            (if i = THREAD_COUNT - 1 then n else (i + 1) * chunk_size) min_val rng) [0..<THREAD_COUNT])"

definition min_max :: "FileEntry list \<Rightarrow> uint64 \<times> uint64" where
  "min_max files = foldl (\<lambda>(mn, mx) f. (if sort_key f < mn then sort_key f else mn, if sort_key f > mx then sort_key f else mx))
     (sort_key (hd files), sort_key (hd files)) (tl files)"

primrec prefix_sums :: "int \<Rightarrow> int list \<Rightarrow> int list" where
  "prefix_sums a [] = []"
| "prefix_sums a (c # cs) = (a + c) # prefix_sums (a + c) cs"

fun place :: "FileEntry list \<Rightarrow> uint64 \<Rightarrow> int list \<Rightarrow> FileEntry option list \<Rightarrow> FileEntry option list" where
  "place [] min_val cnt output = output"
| "place (f # fs) min_val cnt output =
     (let index = unat (sort_key f - min_val)
      in place fs min_val (cnt[index := cnt ! index - 1]) (output[nat (cnt ! index - 1) := Some f]))"

text \<open>\<open>sched\<close> is the order in which the additions of the four threads take effect.  \<open>rng\<close> is an \<open>int\<close>: where
  it does not hold the number of keys, the array accesses that follow are undefined.  The last loop
  goes through the entries from the last to the first.\<close>

definition parallel_counting_sort :: "(nat \<times> int) list \<Rightarrow> FileEntry list \<Rightarrow> FileEntry list option" where
  "parallel_counting_sort sched files =
     (if files = [] then None
      else let (min_val, max_val) = min_max files;
        rng = sint (ucast (max_val - min_val + 1) :: uint) in
        if rng \<noteq> int (unat (max_val - min_val)) + 1 then None
        else let cnt = foldl fetch_and_add (replicate (nat rng) 0) sched;
            output = place (rev files) min_val (prefix_sums 0 cnt) (replicate (length files) None)
          in those output)"

definition LAZY_THRESHOLD :: nat where "LAZY_THRESHOLD = 42"

definition sort_files :: "(uchar list \<Rightarrow> uint64) \<Rightarrow> (nat \<times> int) list \<Rightarrow> FileEntry list \<Rightarrow> nat \<Rightarrow> FileEntry list option" where
  "sort_files to_time sched files column_type =
     (let files = preprocess_sort_keys to_time files column_type in
      if length files \<le> LAZY_THRESHOLD then parallel_counting_sort sched files
      else parallel_merge_sort column_type 0 (length files - 1) files)"

text \<open>The whole program, from the entries and the column read to the rows printed; the clock and the use of memory are left out.\<close>

definition column_of :: "string \<Rightarrow> nat" where
  "column_of sort_column = (if sort_column = ''NAME'' then 1 else if sort_column = ''TIMESTAMP'' then 2 else 0)"

definition dsort_main :: "(uchar list \<Rightarrow> uint64) \<Rightarrow> (nat \<times> int) list \<Rightarrow> FileEntry list \<Rightarrow> string \<Rightarrow> (uchar list \<times> uint \<times> uchar list \<times> uint64) list option" where
  "dsort_main to_time sched files sort_column =
     map_option (map (\<lambda>f. (name f, id_field f, timestamp f, sort_key f))) (sort_files to_time sched files (column_of sort_column))"

subsection \<open>Comparison functions\<close>

text \<open>What the merge sort relies on in a comparison function.\<close>

locale comparison =
  fixes cmp :: "'a \<Rightarrow> 'a \<Rightarrow> int"
  assumes flip: "0 \<le> cmp x y \<Longrightarrow> cmp y x \<le> 0"
    and trans: "cmp x y \<le> 0 \<Longrightarrow> cmp y z \<le> 0 \<Longrightarrow> cmp x z \<le> 0"
begin

abbreviation in_order :: "'a list \<Rightarrow> bool" where
  "in_order \<equiv> sorted_wrt (\<lambda>x y. cmp x y \<le> 0)"

lemma refl: "cmp x x \<le> 0"
  using flip [of x x] by (cases "0 \<le> cmp x x") auto

lemma below_last:
  assumes "in_order us" "us \<noteq> []" "cmp (last us) key \<le> 0" "u \<in> set us"
  shows "cmp u key \<le> 0"
proof -
  obtain ws where ws: "us = ws @ [last us]" using assms(2) by (metis append_butlast_last_id)
  then have "in_order (ws @ [last us])" using assms(1) by simp
  then have "u \<in> set ws \<Longrightarrow> cmp u (last us) \<le> 0" by (simp add: sorted_wrt_append)
  moreover have "u \<in> set ws \<or> u = last us" using assms(4) ws by (metis in_set_conv_decomp Un_iff set_append set_ConsD empty_iff list.set(1))
  ultimately show ?thesis using assms(3) trans by blast
qed

text \<open>Inserting a key behind the entries that are not greater.\<close>

lemma insert_in_order:
  assumes "in_order (us @ vs)" "\<forall>v \<in> set vs. 0 < cmp v key" "us \<noteq> [] \<longrightarrow> cmp (last us) key \<le> 0"
  shows "in_order (us @ key # vs)"
proof -
  have "in_order us" using assms(1) by (simp add: sorted_wrt_append)
  then have "\<forall>u \<in> set us. cmp u key \<le> 0" using below_last assms(3) by (metis list.set(1) empty_iff)
  moreover have "\<forall>v \<in> set vs. cmp key v \<le> 0" using assms(2) flip by (simp add: less_imp_le)
  ultimately show ?thesis using assms(1) by (auto simp: sorted_wrt_append)
qed

text \<open>The head of a list in order that is not above \<open>m\<close> bounds \<open>m\<close> by the whole list.\<close>

lemma min_head: "in_order (x # xs) \<Longrightarrow> cmp m x \<le> 0 \<Longrightarrow> y \<in> set (x # xs) \<Longrightarrow> cmp m y \<le> 0"
  using trans [of m x y] by auto

end

lemma strcmp_flip: "strcmp ys xs = - strcmp xs ys"
  by (induction xs ys rule: strcmp.induct) auto

lemma strcmp_trans: "strcmp xs ys \<le> 0 \<Longrightarrow> strcmp ys zs \<le> 0 \<Longrightarrow> strcmp xs zs \<le> 0"
proof (induction xs ys arbitrary: zs rule: strcmp.induct)
  case (2 y ys)
  then show ?case by (cases zs) auto
next
  case (4 x xs y ys)
  then show ?case by (cases zs) (auto split: if_splits)
qed (auto elim: strcmp.elims)

interpretation ce: comparison "\<lambda>a b. compare_entries a b c" for c
proof
  fix x y z
  show "0 \<le> compare_entries x y c \<Longrightarrow> compare_entries y x c \<le> 0"
    by (simp add: compare_entries_def strcmp_flip [of "name y"] strcmp_flip [of "timestamp y"] split: if_splits)
  show "compare_entries x y c \<le> 0 \<Longrightarrow> compare_entries y z c \<le> 0 \<Longrightarrow> compare_entries x z c \<le> 0"
    using strcmp_trans [of "name x" "name y" "name z"] strcmp_trans [of "timestamp x" "timestamp y" "timestamp z"]
    by (simp add: compare_entries_def of_bool_def split: if_splits)
qed

subsection \<open>Insertion sort\<close>

lemma ins_shift_list:
  "\<exists>us vs. xs = us @ vs \<and> (\<forall>v \<in> set vs. 0 < compare_entries v key c) \<and>
     (us \<noteq> [] \<longrightarrow> compare_entries (last us) key c \<le> 0) \<and>
     ins_shift c (length pre) key (length pre + length xs) (pre @ xs @ y # post) = pre @ us @ key # vs @ post"
proof (induction xs arbitrary: y post rule: rev_induct)
  case Nil
  show ?case by (subst ins_shift.simps) simp
next
  case (snoc x xs)
  have up: "(pre @ xs @ x # y # post)[Suc (length pre + length xs) := z] = pre @ xs @ x # z # post" for z
    by (simp add: list_update_append)
  show ?case
  proof (cases "0 < compare_entries x key c")
    case True
    have run: "ins_shift c (length pre) key (length pre + length (xs @ [x])) (pre @ (xs @ [x]) @ y # post)
        = ins_shift c (length pre) key (length pre + length xs) (pre @ xs @ x # x # post)"
      using True up by (subst ins_shift.simps) (simp add: nth_append)
    from snoc.IH [of x "x # post"] obtain us vs where
      "xs = us @ vs" "\<forall>v \<in> set vs. 0 < compare_entries v key c" "us \<noteq> [] \<longrightarrow> compare_entries (last us) key c \<le> 0"
      "ins_shift c (length pre) key (length pre + length xs) (pre @ xs @ x # x # post) = pre @ us @ key # vs @ x # post" by blast
    then show ?thesis using True unfolding run by (intro exI [of _ us] exI [of _ "vs @ [x]"]) auto
  next
    case False
    then have "ins_shift c (length pre) key (length pre + length (xs @ [x])) (pre @ (xs @ [x]) @ y # post) = pre @ (xs @ [x]) @ key # post"
      using up by (subst ins_shift.simps) (simp add: nth_append)
    then show ?thesis using False by (intro exI [of _ "xs @ [x]"] exI [of _ "[]"]) simp
  qed
qed

lemma ins_fold:
  "ce.in_order c xs \<Longrightarrow> \<exists>zs. foldl (\<lambda>fs i. ins_shift c (length pre) (fs ! i) i fs) (pre @ xs @ ys @ post)
       [length pre + length xs..<length pre + length xs + length ys] = pre @ zs @ post \<and>
     ce.in_order c zs \<and> mset zs = mset xs + mset ys"
proof (induction ys arbitrary: xs)
  case (Cons y ys)
  obtain us vs where i: "xs = us @ vs" "\<forall>v \<in> set vs. 0 < compare_entries v y c" "us \<noteq> [] \<longrightarrow> compare_entries (last us) y c \<le> 0"
    "ins_shift c (length pre) y (length pre + length xs) (pre @ xs @ y # ys @ post) = pre @ us @ y # vs @ ys @ post"
    using ins_shift_list [of xs y c pre y "ys @ post"] by blast
  have "ce.in_order c (us @ y # vs)" by (rule ce.insert_in_order [OF Cons.prems [unfolded i(1)] i(2,3)])
  from Cons.IH [OF this] obtain zs where z: "foldl (\<lambda>fs i. ins_shift c (length pre) (fs ! i) i fs) (pre @ (us @ y # vs) @ ys @ post)
      [length pre + length (us @ y # vs)..<length pre + length (us @ y # vs) + length ys] = pre @ zs @ post"
    "ce.in_order c zs" "mset zs = mset (us @ y # vs) + mset ys" by blast
  have l: "length (us @ y # vs) = Suc (length xs)" using i(1) by simp
  have n: "(pre @ xs @ y # ys @ post) ! (length pre + length xs) = y" by (simp add: nth_append)
  have u: "[length pre + length xs..<length pre + length xs + length (y # ys)] =
      (length pre + length xs) # [length pre + length (us @ y # vs)..<length pre + length (us @ y # vs) + length ys]"
    unfolding l by (subst upt_conv_Cons) simp_all
  have "foldl (\<lambda>fs i. ins_shift c (length pre) (fs ! i) i fs) (pre @ xs @ (y # ys) @ post)
      [length pre + length xs..<length pre + length xs + length (y # ys)] = pre @ zs @ post"
    unfolding u using z(1) n i(4) by simp
  then show ?case using z(2,3) i(1) by auto
qed simp

subsection \<open>Merging\<close>

definition seg :: "FileEntry list \<Rightarrow> nat \<times> nat \<Rightarrow> FileEntry list" where
  "seg files q = map (\<lambda>i. files ! i) [fst q..<snd q + 1]"

lemma seg_empty [simp]: "snd q < fst q \<Longrightarrow> seg files q = []"
  by (simp add: seg_def)

lemma seg_Cons: "fst q \<le> snd q \<Longrightarrow> seg files q = (files ! fst q) # seg files (fst q + 1, snd q)"
  by (simp add: seg_def upt_conv_Cons del: upt_Suc)

lemma min_scan_spec:
  "min_scan files c i qs best = None \<longleftrightarrow> best = None \<and> (\<forall>q \<in> set qs. snd q < fst q)"
  "min_scan files c i qs best = Some (m, j) \<Longrightarrow>
     (best = Some (m, j) \<or> (\<exists>k < length qs. j = i + k \<and> fst (qs ! k) \<le> snd (qs ! k) \<and> m = files ! fst (qs ! k))) \<and>
     (\<forall>m0 j0. best = Some (m0, j0) \<longrightarrow> compare_entries m m0 c \<le> 0) \<and>
     (\<forall>q \<in> set qs. fst q \<le> snd q \<longrightarrow> compare_entries m (files ! fst q) c \<le> 0)"
proof (induction qs arbitrary: i best)
  case Nil
  {
    case 1
    show ?case by simp
  next
    case 2
    then show ?case using ce.refl by auto
  }
next
  case (Cons q qs)
  obtain a b where q: "q = (a, b)" by fastforce
  {
    case 1
  let ?best = "if a \<le> b then (case best of None \<Rightarrow> Some (files ! a, i)
      | Some (m, j) \<Rightarrow> if compare_entries (files ! a) m c < 0 then Some (files ! a, i) else best) else best"
    have "min_scan files c i (q # qs) best = min_scan files c (i + 1) qs ?best" by (cases best) (auto simp: q)
    moreover have "?best = None \<longleftrightarrow> best = None \<and> b < a" by (cases best) (simp_all split: prod.splits)
    ultimately show ?case using Cons.IH(1) [of "i + 1" ?best] by (simp only: q) auto
  next
    case 2
  let ?best = "if a \<le> b then (case best of None \<Rightarrow> Some (files ! a, i)
      | Some (m, j) \<Rightarrow> if compare_entries (files ! a) m c < 0 then Some (files ! a, i) else best) else best"
    from 2 have "min_scan files c (i + 1) qs ?best = Some (m, j)" by (cases best) (auto simp: q)
    note ih = Cons.IH(2) [OF this]
    have A: "a \<le> b \<longrightarrow> compare_entries m (files ! a) c \<le> 0" "\<forall>m0 j0. best = Some (m0, j0) \<longrightarrow> compare_entries m m0 c \<le> 0"
    proof -
      show "a \<le> b \<longrightarrow> compare_entries m (files ! a) c \<le> 0"
      proof
        assume ab: "a \<le> b"
        then have "?best \<noteq> None" by (cases best) (simp_all split: prod.splits)
        then obtain m1 j1 where b: "?best = Some (m1, j1)" by fast
        then have "compare_entries m1 (files ! a) c \<le> 0" using ab ce.flip ce.refl by (auto split: option.splits if_splits)
        then show "compare_entries m (files ! a) c \<le> 0" using ih b ce.trans by blast
      qed
      show "\<forall>m0 j0. best = Some (m0, j0) \<longrightarrow> compare_entries m m0 c \<le> 0"
      proof (intro allI impI)
        fix m0 j0 assume b0: "best = Some (m0, j0)"
        then have "?best \<noteq> None" by (cases best) (simp_all split: prod.splits)
        then obtain m1 j1 where b: "?best = Some (m1, j1)" by fast
        then have "compare_entries m1 m0 c \<le> 0" using b0 ce.refl by (auto split: option.splits if_splits)
        then show "compare_entries m m0 c \<le> 0" using ih b ce.trans by blast
      qed
    qed
    have B: "best = Some (m, j) \<or> (\<exists>k < length (q # qs). j = i + k \<and> fst ((q # qs) ! k) \<le> snd ((q # qs) ! k) \<and> m = files ! fst ((q # qs) ! k))"
    proof -
      from ih consider "?best = Some (m, j)" | k where "k < length qs" "j = i + 1 + k" "fst (qs ! k) \<le> snd (qs ! k)" "m = files ! fst (qs ! k)" by blast
      then show ?thesis
      proof cases
        case 1
        then have "best = Some (m, j) \<or> j = i \<and> a \<le> b \<and> m = files ! a" by (auto split: option.splits if_splits)
        then show ?thesis by (auto simp: q intro: exI [of _ 0])
      next
        case (2 k)
        then show ?thesis by (auto intro!: exI [of _ "Suc k"])
      qed
    qed
    show ?case using A B ih unfolding q by auto
  }
qed

lemma sum_update:
  assumes "j < length qs" "fst (qs ! j) \<le> snd (qs ! j)"
  shows "sum_list (map (\<lambda>q. mset (seg files q)) qs) =
    add_mset (files ! fst (qs ! j)) (sum_list (map (\<lambda>q. mset (seg files q)) (qs[j := (fst (qs ! j) + 1, snd (qs ! j))])))"
proof -
  have "qs = take j qs @ qs ! j # drop (Suc j) qs" using assms(1) by (rule id_take_nth_drop)
  then have "sum_list (map (\<lambda>q. mset (seg files q)) qs) = sum_list (map (\<lambda>q. mset (seg files q)) (take j qs)) +
      (mset (seg files (qs ! j)) + sum_list (map (\<lambda>q. mset (seg files q)) (drop (Suc j) qs)))"
    by (metis list.simps(9) map_append sum_list.Cons sum_list.append)
  then show ?thesis using assms by (simp add: upd_conv_take_nth_drop seg_Cons)
qed

lemma merge_loop_spec:
  assumes "n = size (sum_list (map (\<lambda>q. mset (seg files q)) qs))" "\<forall>q \<in> set qs. ce.in_order c (seg files q)"
    "ce.in_order c out" "\<forall>x \<in> set out. \<forall>q \<in> set qs. \<forall>y \<in> set (seg files q). compare_entries x y c \<le> 0"
  shows "\<exists>zs. merge_loop n files c qs out = Some zs \<and> ce.in_order c zs \<and>
    mset zs = mset out + sum_list (map (\<lambda>q. mset (seg files q)) qs)"
  using assms
proof (induction n arbitrary: qs out)
  case 0
  then show ?case by simp
next
  case (Suc n)
  have "\<exists>q \<in> set qs. \<not> snd q < fst q"
  proof (rule ccontr)
    assume "\<not> ?thesis"
    then have "map (\<lambda>q. mset (seg files q)) qs = map (\<lambda>q. {#}) qs" by simp
    then have "sum_list (map (\<lambda>q. mset (seg files q)) qs) = {#}" by (simp del: map_eq_conv)
    then show False using Suc.prems(1) by simp
  qed
  then obtain m j where g: "get_min_entry files qs c = Some (m, j)"
    using min_scan_spec(1) [of files c 0 qs None] unfolding get_min_entry_def by fastforce
  from min_scan_spec(2) [OF this [unfolded get_min_entry_def]]
  have j: "j < length qs" "fst (qs ! j) \<le> snd (qs ! j)" "m = files ! fst (qs ! j)"
    and least: "\<forall>q \<in> set qs. fst q \<le> snd q \<longrightarrow> compare_entries m (files ! fst q) c \<le> 0" by auto
  let ?q = "(fst (qs ! j) + 1, snd (qs ! j))"
  have qj: "qs ! j \<in> set qs" using j(1) by simp
  have all: "\<forall>q \<in> set qs. \<forall>y \<in> set (seg files q). compare_entries m y c \<le> 0"
  proof (intro ballI)
    fix q y assume q: "q \<in> set qs" "y \<in> set (seg files q)"
    then have le: "fst q \<le> snd q" by (metis empty_iff list.set(1) not_le seg_empty)
    then have "ce.in_order c (files ! fst q # seg files (fst q + 1, snd q))" using Suc.prems(2) q(1) seg_Cons by metis
    then show "compare_entries m y c \<le> 0" using ce.min_head least q le seg_Cons by metis
  qed
  have sub: "set (seg files ?q) \<subseteq> set (seg files (qs ! j))" using seg_Cons [OF j(2)] by auto
  have in_q: "ce.in_order c (seg files ?q)" using Suc.prems(2) qj seg_Cons [OF j(2), of files] by (metis sorted_wrt.simps(2))
  have up: "\<forall>q \<in> set (qs[j := ?q]). P (set (seg files q))" if "\<forall>q \<in> set qs. P (set (seg files q))" "P (set (seg files ?q))" for P
    using that set_update_subset_insert [of qs j ?q] by auto
  have "\<exists>zs. merge_loop n files c (qs[j := ?q]) (out @ [m]) = Some zs \<and> ce.in_order c zs \<and>
      mset zs = mset (out @ [m]) + sum_list (map (\<lambda>q. mset (seg files q)) (qs[j := ?q]))"
  proof (rule Suc.IH)
    show "n = size (sum_list (map (\<lambda>q. mset (seg files q)) (qs[j := ?q])))"
      using Suc.prems(1) sum_update [OF j(1,2), of files] by simp
    show "\<forall>q \<in> set (qs[j := ?q]). ce.in_order c (seg files q)"
      using Suc.prems(2) in_q set_update_subset_insert [of qs j ?q] by auto
    have "\<forall>x \<in> set out. compare_entries x m c \<le> 0"
      using Suc.prems(4) qj j(3) seg_Cons [OF j(2), of files] by (metis list.set_intros(1))
    then show "ce.in_order c (out @ [m])" using Suc.prems(3) by (simp add: sorted_wrt_append)
    show "\<forall>x \<in> set (out @ [m]). \<forall>q \<in> set (qs[j := ?q]). \<forall>y \<in> set (seg files q). compare_entries x y c \<le> 0"
    proof (intro ballI)
      fix x q y assume a: "x \<in> set (out @ [m])" "q \<in> set (qs[j := ?q])" "y \<in> set (seg files q)"
      then obtain q' where "q' \<in> set qs" "y \<in> set (seg files q')"
        using set_update_subset_insert [of qs j ?q] qj sub by blast
      then show "compare_entries x y c \<le> 0" using a(1) all Suc.prems(4) by auto
    qed
  qed
  then show ?case using g sum_update [OF j(1,2), of files] j(3) by auto
qed

subsection \<open>The merge sort\<close>

definition sorted_range :: "nat \<Rightarrow> FileEntry list \<Rightarrow> FileEntry list \<Rightarrow> nat \<Rightarrow> nat \<Rightarrow> bool" where
  "sorted_range c files files' s e \<longleftrightarrow> length files' = length files \<and> (\<forall>i. i < s \<or> e < i \<longrightarrow> files' ! i = files ! i) \<and>
     mset (seg files' (s, e)) = mset (seg files (s, e)) \<and> ce.in_order c (seg files' (s, e))"

lemma seg_cong: "(\<And>i. fst q \<le> i \<Longrightarrow> i \<le> snd q \<Longrightarrow> f ! i = g ! i) \<Longrightarrow> seg f q = seg g q"
  by (simp add: seg_def del: upt_Suc)

lemma seg_split: "s \<le> m \<Longrightarrow> m \<le> e + 1 \<Longrightarrow> 0 < m \<Longrightarrow> seg f (s, e) = seg f (s, m - 1) @ seg f (m, e)"
  using upt_add_eq_append [of s m "e + 1 - m"] by (simp add: seg_def del: upt_Suc)

lemma replace_range:
  assumes "s \<le> e" "e < length f" "length out = e - s + 1"
  defines "g \<equiv> take s f @ out @ drop (e + 1) f"
  shows "length g = length f" "i < s \<or> e < i \<Longrightarrow> g ! i = f ! i" "seg g (s, e) = out"
proof -
  show l: "length g = length f" using assms by simp
  show "g ! i = f ! i" if "i < s \<or> e < i"
  proof (cases "i < s")
    case True
    then show ?thesis using assms by (simp add: nth_append)
  next
    case False
    then have "e < i" using that by simp
    then have "\<not> i < length (take s f)" "\<not> i - length (take s f) < length out" "e + 1 + (i - length (take s f) - length out) = i"
      using assms(1-3) by auto
    then show ?thesis using assms(2) unfolding g_def nth_append by (simp only: if_False nth_drop)
  qed
  show "seg g (s, e) = out"
    using assms by (intro nth_equalityI) (simp_all add: seg_def nth_append del: upt_Suc)
qed

lemma k_way_merge_spec:
  fixes s e :: nat
  defines "c \<equiv> (e - s + 1) div K_WAY"
  assumes "s \<le> e" "e < length f" "0 < c"
    and "ce.in_order t (seg f (s, s + c - 1))" "ce.in_order t (seg f (s + c, s + 2 * c - 1))"
      "ce.in_order t (seg f (s + 2 * c, s + 3 * c - 1))" "ce.in_order t (seg f (s + 3 * c, e))"
  shows "\<exists>g. k_way_merge f s e K_WAY t = Some g \<and> sorted_range t f g s e"
proof -
  let ?qs = "[(s, s + c - 1), (s + c, s + 2 * c - 1), (s + 2 * c, s + 3 * c - 1), (s + 3 * c, e)]"
  have c4: "4 * c \<le> e - s + 1" unfolding c_def K_WAY_def by simp
  have b: "s + 3 * c \<le> e" using c4 assms(2,4) by simp
  have qs: "map (\<lambda>i. (s + i * c, if i = K_WAY - 1 then e else s + (i + 1) * c - 1)) [0..<K_WAY] = ?qs"
    by (simp add: K_WAY_def numeral_eq_Suc algebra_simps)
  have parts: "seg f (s, e) = seg f (s, s + c - 1) @ seg f (s + c, s + 2 * c - 1) @ seg f (s + 2 * c, s + 3 * c - 1) @ seg f (s + 3 * c, e)"
    using seg_split [of s "s + c" e f] seg_split [of "s + c" "s + 2 * c" e f] seg_split [of "s + 2 * c" "s + 3 * c" e f] b assms(4) by simp
  have total: "sum_list (map (\<lambda>q. mset (seg f q)) ?qs) = mset (seg f (s, e))" unfolding parts by simp
  have "e - s + 1 = size (sum_list (map (\<lambda>q. mset (seg f q)) ?qs))" unfolding total using assms(2) by (simp add: seg_def del: upt_Suc)
  from merge_loop_spec [OF this, of t "[]"] assms(5-) total
  obtain zs where z: "merge_loop (e - s + 1) f t ?qs [] = Some zs" "ce.in_order t zs" "mset zs = mset (seg f (s, e))" by auto
  have "length zs = e - s + 1" using z(3) assms(2) by (simp add: seg_def del: upt_Suc flip: size_mset)
  note r = replace_range [OF assms(2,3) this]
  have "k_way_merge f s e K_WAY t = Some (take s f @ zs @ drop (e + 1) f)"
    unfolding k_way_merge_def Let_def c_def [symmetric] qs z(1) by simp
  moreover have "sorted_range t f (take s f @ zs @ drop (e + 1) f) s e"
    unfolding sorted_range_def using r z(2,3) by simp
  ultimately show ?thesis by blast
qed

lemma insertion_sort_spec:
  assumes "s \<le> e" "e < length f"
  shows "sorted_range t f (insertion_sort t s e f) s e"
proof -
  let ?pre = "take s f" and ?post = "drop (e + 1) f"
  have f: "f = ?pre @ [f ! s] @ seg f (s + 1, e) @ ?post"
  proof -
    have "take (e - s + 1) (drop s f) = seg f (s, e)"
      using assms by (intro nth_equalityI) (simp_all add: seg_def del: upt_Suc)
    then have "f = ?pre @ seg f (s, e) @ drop (e - s + 1) (drop s f)" by (metis append_take_drop_id)
    then show ?thesis using assms seg_Cons [of "(s, e)" f] by (simp add: add.commute)
  qed
  have len: "length ?pre = s" "length (seg f (s + 1, e)) = e - s" using assms by (simp_all add: seg_def del: upt_Suc)
  have u: "[s + 1..<e + 1] = [length ?pre + length [f ! s]..<length ?pre + length [f ! s] + length (seg f (s + 1, e))]"
    using len assms(1) by simp
  obtain zs where z: "foldl (\<lambda>fs i. ins_shift t (length ?pre) (fs ! i) i fs) (?pre @ [f ! s] @ seg f (s + 1, e) @ ?post)
      [s + 1..<e + 1] = ?pre @ zs @ ?post" "ce.in_order t zs" "mset zs = mset [f ! s] + mset (seg f (s + 1, e))"
    using ins_fold [of t "[f ! s]" ?pre "seg f (s + 1, e)" ?post] unfolding u by auto
  have "insertion_sort t s e f = ?pre @ zs @ ?post"
    using z(1) unfolding insertion_sort_def len(1) f [symmetric] .
  moreover have m: "mset zs = mset (seg f (s, e))" using z(3) seg_Cons [of "(s, e)" f] assms(1) by simp
  moreover have "length zs = e - s + 1" using m assms(1) by (simp add: seg_def del: upt_Suc flip: size_mset)
  ultimately show ?thesis unfolding sorted_range_def using replace_range [OF assms] z(2) by simp
qed

lemma sorted_range_frame:
  assumes "sorted_range t f g s e" "b < s \<or> e < a"
  shows "seg g (a, b) = seg f (a, b)"
  using assms by (intro seg_cong) (auto simp: sorted_range_def)

lemma parallel_merge_sort_spec:
  "s \<le> e \<Longrightarrow> e < length f \<Longrightarrow> \<exists>g. parallel_merge_sort t s e f = Some g \<and> sorted_range t f g s e"
proof (induction t s e f rule: parallel_merge_sort.induct)
  case (1 t s e f)
  note unf = parallel_merge_sort.simps [of t s e f]
  consider "s = e" | "s < e" "e - s \<le> K_WAY" | "s < e" "\<not> e - s \<le> K_WAY" using 1(5) by linarith
  then show ?case
  proof cases
    case 1
    then have "parallel_merge_sort t s e f = Some f" unfolding unf by simp
    then show ?thesis using 1 by (simp add: sorted_range_def seg_def)
  next
    case 2
    then show ?thesis using insertion_sort_spec [OF 1(5,6)] by (simp add: unf)
  next
    case 3
    define c where "c = (e - s + 1) div K_WAY"
    have c0: "0 < c" using K_WAY_chunk [of s e] 3 by (simp add: c_def)
    have "4 * c \<le> e - s + 1" unfolding c_def K_WAY_def by simp
    then have b: "s + 3 * c \<le> e" using c0 3 by simp
    have n: "\<not> e \<le> s" using 3 by simp
    have bd: "s \<le> s + c - 1" "s + c - 1 < length f" "s + c \<le> s + 2 * c - 1" "s + 2 * c - 1 < length f"
      "s + 2 * c \<le> s + 3 * c - 1" "s + 3 * c - 1 < length f" using b c0 1(6) by linarith+
    obtain f1 where f1: "parallel_merge_sort t s (s + c - 1) f = Some f1" "sorted_range t f f1 s (s + c - 1)"
      using 1(1) [OF n 3(2) c_def bd(1,2)] by blast
    have l1: "length f1 = length f" using f1(2) by (simp add: sorted_range_def)
    obtain f2 where f2: "parallel_merge_sort t (s + c) (s + 2 * c - 1) f1 = Some f2" "sorted_range t f1 f2 (s + c) (s + 2 * c - 1)"
      using 1(2) [OF n 3(2) c_def] bd(3,4) l1 f1(1) by metis
    have l2: "length f2 = length f" using f2(2) l1 by (simp add: sorted_range_def)
    obtain f3 where f3: "parallel_merge_sort t (s + 2 * c) (s + 3 * c - 1) f2 = Some f3" "sorted_range t f2 f3 (s + 2 * c) (s + 3 * c - 1)"
      using 1(3) [OF n 3(2) c_def] bd(5,6) l2 f1(1) f2(1) by metis
    have l3: "length f3 = length f" using f3(2) l2 by (simp add: sorted_range_def)
    obtain f4 where f4: "parallel_merge_sort t (s + 3 * c) e f3 = Some f4" "sorted_range t f3 f4 (s + 3 * c) e"
      using 1(4) [OF n 3(2) c_def] b 1(6) l3 f1(1) f2(1) f3(1) by metis
    have run: "parallel_merge_sort t s e f = k_way_merge f4 s e K_WAY t"
      unfolding unf Let_def c_def [symmetric] using n 3 f1(1) f2(1) f3(1) f4(1) by simp
    note lo = sorted_range_frame [OF _ disjI1] and hi = sorted_range_frame [OF _ disjI2]
    have lt: "s + c - 1 < s + 3 * c" "s + c - 1 < s + 2 * c" "s + c - 1 < s + c" "s + 2 * c - 1 < s + 3 * c" "s + 2 * c - 1 < s + 2 * c"
      "s + 3 * c - 1 < s + 3 * c" "s + c - 1 < s + 2 * c" "s + 2 * c - 1 < s + 3 * c" using c0 by linarith+
    have q1: "seg f4 (s, s + c - 1) = seg f1 (s, s + c - 1)"
      unfolding lo [OF f4(2) lt(1)] lo [OF f3(2) lt(2)] lo [OF f2(2) lt(3)] ..
    have q2: "seg f4 (s + c, s + 2 * c - 1) = seg f2 (s + c, s + 2 * c - 1)" "seg f1 (s + c, s + 2 * c - 1) = seg f (s + c, s + 2 * c - 1)"
      unfolding lo [OF f4(2) lt(4)] lo [OF f3(2) lt(5)] hi [OF f1(2) lt(3)] by (rule refl)+
    have q3: "seg f4 (s + 2 * c, s + 3 * c - 1) = seg f3 (s + 2 * c, s + 3 * c - 1)" "seg f2 (s + 2 * c, s + 3 * c - 1) = seg f (s + 2 * c, s + 3 * c - 1)"
      unfolding lo [OF f4(2) lt(6)] hi [OF f2(2) lt(5)] hi [OF f1(2) lt(2)] by (rule refl)+
    have q4: "seg f3 (s + 3 * c, e) = seg f (s + 3 * c, e)"
      unfolding hi [OF f3(2) lt(6)] hi [OF f2(2) lt(4)] hi [OF f1(2) lt(1)] ..
    note srt = f1(2) f2(2) f3(2) f4(2)
    have len: "length f4 = length f" using srt by (simp add: sorted_range_def)
    obtain g where g: "k_way_merge f4 s e K_WAY t = Some g" "sorted_range t f4 g s e"
      using k_way_merge_spec [of s e f4 t, folded c_def] 1(5,6) len c0 srt q1 q2(1) q3(1) unfolding sorted_range_def by auto
    have mm: "mset (seg f4 (s, e)) = mset (seg f (s, e))"
    proof -
      have parts: "mset (seg h (s, e)) = mset (seg h (s, s + c - 1)) + mset (seg h (s + c, s + 2 * c - 1)) +
          mset (seg h (s + 2 * c, s + 3 * c - 1)) + mset (seg h (s + 3 * c, e))" for h
        using seg_split [of s "s + c" e h] seg_split [of "s + c" "s + 2 * c" e h] seg_split [of "s + 2 * c" "s + 3 * c" e h] b c0 by simp
      show ?thesis unfolding parts using srt q1 q2 q3 q4 unfolding sorted_range_def by simp
    qed
    have "g ! i = f ! i" if "i < s \<or> e < i" for i
    proof -
      have o: "i < s \<or> s + c - 1 < i" "i < s + c \<or> s + 2 * c - 1 < i" "i < s + 2 * c \<or> s + 3 * c - 1 < i" "i < s + 3 * c \<or> e < i"
        using that b c0 by linarith+
      then show ?thesis using that srt g(2) unfolding sorted_range_def by metis
    qed
    then have "sorted_range t f g s e" using g(2) len mm unfolding sorted_range_def by simp
    then show ?thesis using run g(1) by simp
  qed
qed

lemma merge_sort_whole:
  assumes "files \<noteq> []"
  shows "\<exists>sorted. parallel_merge_sort column_type 0 (length files - 1) files = Some sorted \<and>
    mset sorted = mset files \<and> sorted_wrt (\<lambda>a b. compare_entries a b column_type \<le> 0) sorted"
proof -
  have whole: "seg g (0, length files - 1) = g" if "length g = length files" for g
    using assms that by (intro nth_equalityI) (simp_all add: seg_def del: upt_Suc)
  obtain g where g: "parallel_merge_sort column_type 0 (length files - 1) files = Some g"
    "sorted_range column_type files g 0 (length files - 1)"
    using parallel_merge_sort_spec [of 0 "length files - 1" files column_type] assms by (auto simp: Suc_le_lessD)
  then show ?thesis using whole [of g] whole [of files] unfolding sorted_range_def by auto
qed

text \<open>C12: the merge sort, threads joined, returns, and leaves the entries of the file list sorted by the
  chosen column: a permutation of the input in which no entry is greater than a later one.\<close>

theorem parallel_merge_sort_sorts:
  assumes "files \<noteq> []"
  shows "\<exists>sorted. parallel_merge_sort column_type 0 (length files - 1) files = Some sorted \<and>
    mset sorted = mset files \<and> sorted_wrt (\<lambda>a b. compare_entries a b column_type \<le> 0) sorted"
  using assms by (rule merge_sort_whole)

definition x_entry :: "uint \<Rightarrow> FileEntry" where
  "x_entry i = \<lparr>name = [97], id_field = i, timestamp = [50], sort_key = 0\<rparr>"

theorem parallel_merge_sort_sorts_witness:
  "\<exists>sorted. parallel_merge_sort 0 0 1 [x_entry 2, x_entry 1] = Some sorted \<and> mset sorted = {#x_entry 1, x_entry 2#} \<and>
     sorted_wrt (\<lambda>a b. compare_entries a b 0 \<le> 0) sorted"
  using parallel_merge_sort_sorts [of "[x_entry 2, x_entry 1]" 0] by (simp add: add_mset_commute)

text \<open>A long list is printed in the order of its column, each row once.\<close>

lemma dsort_main_many:
  assumes "LAZY_THRESHOLD < length files"
  shows "\<exists>out. dsort_main to_time sched files col = Some (map (\<lambda>f. (name f, id_field f, timestamp f, sort_key f)) out) \<and>
    mset out = mset (preprocess_sort_keys to_time files (column_of col)) \<and>
    sorted_wrt (\<lambda>a b. compare_entries a b (column_of col) \<le> 0) out"
proof -
  let ?files = "preprocess_sort_keys to_time files (column_of col)"
  have l: "length ?files = length files" by (simp add: preprocess_sort_keys_def)
  then have "?files \<noteq> []" using assms by auto
  from merge_sort_whole [OF this, of "column_of col"] show ?thesis
    using assms by (auto simp: dsort_main_def sort_files_def l)
qed

end
