(* ===== verification/LazyRW.thy ===== *)
theory LazyRW
  imports Prelude "HOL-Library.Multiset"
begin

text \<open>
  \<^verbatim>\<open>concurrency/Lazy-Read-Write/finaltry.c\<close>: requests to read, write or delete files, one thread each.  A request holds
  the lock of its file while it is decided and while it is completed; between the two it works on the file.  The
  steps of the threads interleave in any order; the clock only decides when a waiting request gives up.
\<close>

subsection \<open>The code\<close>

datatype operation = READ | WRITE | DELETE

record filenode =
  fnode_number :: int
  deletion_status :: bool
  number_of_readers :: int
  number_of_writers :: int
  total_occupants :: int

record request =
  request_number :: int
  user_number :: int
  file_number :: int
  operation :: operation
  request_time :: int
  send_time :: int

definition initialize_files :: "int \<Rightarrow> filenode" where
  "initialize_files = (\<lambda>i. \<lparr>fnode_number = i, deletion_status = False, number_of_readers = 0, number_of_writers = 0, total_occupants = 0\<rparr>)"

definition can_process_request :: "filenode \<Rightarrow> operation \<Rightarrow> int \<Rightarrow> bool" where
  "can_process_request f op c =
     (if deletion_status f then False
      else case op of
        READ \<Rightarrow> total_occupants f < c
      | WRITE \<Rightarrow> number_of_writers f = 0 \<and> total_occupants f = 0
      | DELETE \<Rightarrow> total_occupants f = 0)"

text \<open>The table has 1000 entries; a request for another index has no defined behaviour and takes no step below.\<close>

definition in_filelist :: "int \<Rightarrow> bool" where
  "in_filelist fn \<longleftrightarrow> 0 \<le> fn \<and> fn < 1000"

text \<open>Taking a request up, and completing it.\<close>

definition take_up :: "operation \<Rightarrow> filenode \<Rightarrow> filenode" where
  "take_up op f = (case op of
     READ \<Rightarrow> f\<lparr>number_of_readers := number_of_readers f + 1, total_occupants := total_occupants f + 1\<rparr>
   | WRITE \<Rightarrow> f\<lparr>number_of_writers := number_of_writers f + 1, total_occupants := total_occupants f + 1\<rparr>
   | DELETE \<Rightarrow> f\<lparr>deletion_status := True\<rparr>)"

definition complete :: "operation \<Rightarrow> filenode \<Rightarrow> filenode" where
  "complete op f = (case op of
     READ \<Rightarrow> f\<lparr>number_of_readers := number_of_readers f - 1, total_occupants := total_occupants f - 1\<rparr>
   | WRITE \<Rightarrow> f\<lparr>number_of_writers := number_of_writers f - 1, total_occupants := total_occupants f - 1\<rparr>
   | DELETE \<Rightarrow> f)"

datatype outcome = Waiting | Working | Declined | Cancelled | Completed

text \<open>One round of the loop of \<open>handle_request\<close> under the lock.\<close>

definition decide :: "int \<Rightarrow> operation \<Rightarrow> filenode \<Rightarrow> filenode \<times> outcome" where
  "decide c op f =
     (if deletion_status f then (f, Declined)
      else if can_process_request f op c then (take_up op f, Working)
      else (f, Waiting))"

record lazy =
  filelist :: "int \<Rightarrow> filenode"
  thread :: "nat \<Rightarrow> outcome"

inductive lstep :: "int \<Rightarrow> request list \<Rightarrow> lazy \<Rightarrow> lazy \<Rightarrow> bool" for c reqs where
  decided: "i < length reqs \<Longrightarrow> thread s i = Waiting \<Longrightarrow> fn = file_number (reqs ! i) \<Longrightarrow> in_filelist fn \<Longrightarrow>
    decide c (operation (reqs ! i)) (filelist s fn) = (f, r) \<Longrightarrow>
    lstep c reqs s (s\<lparr>filelist := (filelist s)(fn := f), thread := (thread s)(i := r)\<rparr>)"
| timed_out: "i < length reqs \<Longrightarrow> thread s i = Waiting \<Longrightarrow> lstep c reqs s (s\<lparr>thread := (thread s)(i := Cancelled)\<rparr>)"
| finished: "i < length reqs \<Longrightarrow> thread s i = Working \<Longrightarrow> fn = file_number (reqs ! i) \<Longrightarrow> in_filelist fn \<Longrightarrow>
    lstep c reqs s (s\<lparr>filelist := (filelist s)(fn := complete (operation (reqs ! i)) (filelist s fn)), thread := (thread s)(i := Completed)\<rparr>)"

inductive lreach :: "int \<Rightarrow> request list \<Rightarrow> lazy \<Rightarrow> bool" for c reqs where
  lstart: "lreach c reqs \<lparr>filelist = initialize_files, thread = (\<lambda>_. Waiting)\<rparr>"
| lnext: "lreach c reqs s \<Longrightarrow> lstep c reqs s t \<Longrightarrow> lreach c reqs t"










subsection \<open>Who works on a file\<close>

definition working :: "request list \<Rightarrow> lazy \<Rightarrow> operation \<Rightarrow> int \<Rightarrow> nat set" where
  "working reqs s op fn = {i. i < length reqs \<and> thread s i = Working \<and> operation (reqs ! i) = op \<and> file_number (reqs ! i) = fn}"

definition file_ok :: "int \<Rightarrow> nat \<Rightarrow> nat \<Rightarrow> nat \<Rightarrow> filenode \<Rightarrow> bool" where
  "file_ok c r w d f \<longleftrightarrow> number_of_readers f = int r \<and> number_of_writers f = int w \<and> total_occupants f = int (r + w) \<and>
     int (r + w) \<le> c \<and> w \<le> 1 \<and> d \<le> 1 \<and> (deletion_status f \<longrightarrow> r + w = 0) \<and> (d > 0 \<longrightarrow> deletion_status f)"

definition lazy_inv :: "int \<Rightarrow> request list \<Rightarrow> lazy \<Rightarrow> bool" where
  "lazy_inv c reqs s \<longleftrightarrow> (\<forall>fn. file_ok c (card (working reqs s READ fn)) (card (working reqs s WRITE fn)) (card (working reqs s DELETE fn)) (filelist s fn))"

text \<open>Requests for the examples.\<close>

definition x_reqs :: "request list" where
  "x_reqs = [\<lparr>request_number = 0, user_number = 1, file_number = 1, operation = READ, request_time = 0, send_time = -1\<rparr>]"

definition x_lazy :: lazy where
  "x_lazy = \<lparr>filelist = initialize_files(1 := take_up READ (initialize_files 1)), thread = (\<lambda>_. Waiting)(0 := Working)\<rparr>"


lemma finite_working [simp]: "finite (working reqs s op fn)"
  by (simp add: working_def)

lemma working_upd:
  assumes "i < length reqs"
  shows "working reqs (s\<lparr>filelist := F, thread := (thread s)(i := r)\<rparr>) op fn =
    (if r = Working \<and> operation (reqs ! i) = op \<and> file_number (reqs ! i) = fn then insert i (working reqs s op fn)
     else working reqs s op fn - {i})"
  using assms by (auto simp: working_def)

lemma card_start:
  assumes "i < length reqs" "thread s i = Waiting"
  shows "i \<notin> working reqs s op fn"
  using assms by (simp add: working_def)

lemma inv_decided:
  assumes "1 \<le> c" "lazy_inv c reqs s" "i < length reqs" "thread s i = Waiting" "fn = file_number (reqs ! i)"
    "decide c (operation (reqs ! i)) (filelist s fn) = (f, r)"
  shows "lazy_inv c reqs (s\<lparr>filelist := (filelist s)(fn := f), thread := (thread s)(i := r)\<rparr>)"
  unfolding lazy_inv_def
proof
  fix gn
  let ?t = "s\<lparr>filelist := (filelist s)(fn := f), thread := (thread s)(i := r)\<rparr>"
  let ?op = "operation (reqs ! i)"
  have n: "i \<notin> working reqs s op g" for op g by (rule card_start [OF assms(3,4)])
  have w: "working reqs ?t op g = (if r = Working \<and> ?op = op \<and> fn = g then insert i (working reqs s op g) else working reqs s op g)" for op g
    using working_upd [OF assms(3), where s = s and F = "(filelist s)(fn := f)" and r = r and op = op and fn = g] n assms(5) by simp
  have k: "card (working reqs ?t op g) = card (working reqs s op g) + (if r = Working \<and> ?op = op \<and> fn = g then 1 else 0)" for op g
    unfolding w using n by simp
  have ok: "file_ok c (card (working reqs s READ g)) (card (working reqs s WRITE g)) (card (working reqs s DELETE g)) (filelist s g)" for g
    using assms(2) by (simp add: lazy_inv_def)
  show "file_ok c (card (working reqs ?t READ gn)) (card (working reqs ?t WRITE gn)) (card (working reqs ?t DELETE gn)) (filelist ?t gn)"
    unfolding k using ok [of gn] ok [of fn] assms(1,6)
    by (cases ?op; cases "gn = fn")
      (auto simp: decide_def can_process_request_def take_up_def file_ok_def simp del: card_0_eq split: if_splits)
qed

lemma inv_finished:
  assumes "lazy_inv c reqs s" "i < length reqs" "thread s i = Working" "fn = file_number (reqs ! i)"
  shows "lazy_inv c reqs (s\<lparr>filelist := (filelist s)(fn := complete (operation (reqs ! i)) (filelist s fn)), thread := (thread s)(i := Completed)\<rparr>)"
  unfolding lazy_inv_def
proof
  fix gn
  let ?t = "s\<lparr>filelist := (filelist s)(fn := complete (operation (reqs ! i)) (filelist s fn)), thread := (thread s)(i := Completed)\<rparr>"
  let ?op = "operation (reqs ! i)"
  have m: "i \<in> working reqs s op g \<longleftrightarrow> ?op = op \<and> fn = g" for op g using assms by (auto simp: working_def)
  have w: "working reqs ?t op g = working reqs s op g - {i}" for op g
    using working_upd [OF assms(2), where s = s and r = Completed and op = op and fn = g] by simp
  have k: "card (working reqs ?t op g) = card (working reqs s op g) - (if ?op = op \<and> fn = g then 1 else 0)" for op g
    unfolding w using m [of op g] by (simp add: card_Diff_singleton_if)
  have pos: "card (working reqs s ?op fn) > 0" using m [of ?op fn] by (auto simp: card_gt_0_iff)
  have ok: "file_ok c (card (working reqs s READ g)) (card (working reqs s WRITE g)) (card (working reqs s DELETE g)) (filelist s g)" for g
    using assms(1) by (simp add: lazy_inv_def)
  show "file_ok c (card (working reqs ?t READ gn)) (card (working reqs ?t WRITE gn)) (card (working reqs ?t DELETE gn)) (filelist ?t gn)"
    unfolding k using ok [of gn] ok [of fn] pos
    by (cases ?op; cases "gn = fn") (auto simp: complete_def file_ok_def simp del: card_0_eq)
qed

lemma lreach_inv:
  assumes "1 \<le> c" "lreach c reqs s"
  shows "lazy_inv c reqs s"
  using assms(2)
proof (induction rule: lreach.induct)
  case lstart
  show ?case using assms(1) by (simp add: lazy_inv_def working_def initialize_files_def file_ok_def)
next
  case (lnext s t)
  from lnext.hyps(2) show ?case
  proof cases
    case (timed_out i)
    have "working reqs t op fn = working reqs s op fn" for op fn
      using card_start [OF timed_out(2,3), of op fn] working_upd [OF timed_out(2), where s = s and F = "filelist s" and r = Cancelled and op = op and fn = fn] timed_out(1) by simp
    then show ?thesis using lnext.IH timed_out(1) by (simp add: lazy_inv_def)
  qed (use lnext.IH assms(1) inv_decided inv_finished in blast)+
qed

text \<open>C14: in every interleaving, at most \<open>c\<close> users work on a file and at most one of them writes, a file being deleted
  or deleted has no reader and no writer, and it is deleted only once.\<close>

theorem lazy_limits:
  assumes "1 \<le> c" "lreach c reqs s"
  shows "int (card (working reqs s READ fn) + card (working reqs s WRITE fn)) \<le> c \<and> card (working reqs s WRITE fn) \<le> 1 \<and>
    card (working reqs s DELETE fn) \<le> 1 \<and>
    (deletion_status (filelist s fn) \<longrightarrow> working reqs s READ fn = {} \<and> working reqs s WRITE fn = {})"
  using lreach_inv [OF assms] by (auto simp: lazy_inv_def file_ok_def)

lemma x_lazy_reach: "lreach 2 x_reqs x_lazy"
proof -
  let ?s = "\<lparr>filelist = initialize_files, thread = (\<lambda>_. Waiting)\<rparr>"
  have "lstep 2 x_reqs ?s (?s\<lparr>filelist := (filelist ?s)(1 := take_up READ (initialize_files 1)), thread := (thread ?s)(0 := Working)\<rparr>)"
    by (rule decided) (simp_all add: x_reqs_def decide_def can_process_request_def initialize_files_def in_filelist_def)
  then show ?thesis using lnext [OF lstart] by (simp add: x_lazy_def)
qed

theorem lazy_limits_witness:
  "lreach 2 x_reqs x_lazy \<and> card (working x_reqs x_lazy WRITE 1) \<le> 1 \<and> \<not> deletion_status (filelist x_lazy 1)"
  using lazy_limits [OF _ x_lazy_reach, of 1] x_lazy_reach by (simp add: x_lazy_def take_up_def initialize_files_def)




















end
