(* ===== verification/Umalloc.thy ===== *)
theory Umalloc
  imports Prelude
begin

text \<open>
  The allocator of user programs (\<^verbatim>\<open>user/umalloc.c\<close>): a circular list of free blocks in order of address, with the first free
  fit.  Addresses are natural numbers, as the address space ends far below \<open>2 ^ 64\<close>; the sizes are 32-bit, with the
  wrap-around written out.  A header takes 16 bytes and sizes count headers.  \<^verbatim>\<open>sbrk\<close> is the system call with its \<open>int\<close> argument; whether the
  kernel has the memory for a new size is a parameter.
\<close>

subsection \<open>The code\<close>

record uheader =
  h_ptr :: nat
  h_size :: nat

record uheap =
  hdrs :: "nat \<Rightarrow> uheader"
  freep :: nat
  brk :: nat

definition wrap32 :: "nat \<Rightarrow> nat" where
  "wrap32 n = n mod 2 ^ 32"

definition to_int32 :: "nat \<Rightarrow> int" where
  "to_int32 n = (let m = n mod 2 ^ 32 in if m < 2 ^ 31 then int m else int m - 2 ^ 32)"

definition upd_ptr :: "nat \<Rightarrow> nat \<Rightarrow> (nat \<Rightarrow> uheader) \<Rightarrow> nat \<Rightarrow> uheader" where
  "upd_ptr a v h = h(a := (h a)\<lparr>h_ptr := v\<rparr>)"

definition upd_size :: "nat \<Rightarrow> nat \<Rightarrow> (nat \<Rightarrow> uheader) \<Rightarrow> nat \<Rightarrow> uheader" where
  "upd_size a v h = h(a := (h a)\<lparr>h_size := v\<rparr>)"

text \<open>The place of a block in the list.\<close>

partial_function (option) free_find :: "(nat \<Rightarrow> uheader) \<Rightarrow> nat \<Rightarrow> nat \<Rightarrow> nat option" where
  "free_find h bp p =
     (if bp > p \<and> bp < h_ptr (h p) then Some p
      else if p \<ge> h_ptr (h p) \<and> (bp > p \<or> bp < h_ptr (h p)) then Some p
      else free_find h bp (h_ptr (h p)))"

definition free_link :: "nat \<Rightarrow> nat \<Rightarrow> (nat \<Rightarrow> uheader) \<Rightarrow> nat \<Rightarrow> uheader" where
  "free_link bp p h =
     (let h1 = (if bp + 16 * h_size (h bp) = h_ptr (h p)
                then let g = upd_size bp (wrap32 (h_size (h bp) + h_size (h (h_ptr (h p))))) h
                     in upd_ptr bp (h_ptr (g (h_ptr (g p)))) g
                else upd_ptr bp (h_ptr (h p)) h)
      in if p + 16 * h_size (h1 p) = bp
         then let g = upd_size p (wrap32 (h_size (h1 p) + h_size (h1 bp))) h1
              in upd_ptr p (h_ptr (g bp)) g
         else upd_ptr p bp h1)"

definition ufree :: "nat \<Rightarrow> uheap \<Rightarrow> uheap option" where
  "ufree ap st =
     (let bp = ap - 16 in
      case free_find (hdrs st) bp (freep st) of
        None \<Rightarrow> None
      | Some p \<Rightarrow> Some (st\<lparr>hdrs := free_link bp p (hdrs st), freep := p\<rparr>))"

text \<open>The system call: the break before it, or \<open>None\<close> for -1.\<close>

definition sbrk :: "(nat \<Rightarrow> bool) \<Rightarrow> int \<Rightarrow> uheap \<Rightarrow> (nat \<times> uheap) option" where
  "sbrk room n st =
     (if n > 0 then if room (brk st + nat n) then Some (brk st, st\<lparr>brk := brk st + nat n\<rparr>) else None
      else if n < 0 then Some (brk st, if int (brk st) + n < 0 then st else st\<lparr>brk := nat (int (brk st) + n)\<rparr>)
      else Some (brk st, st))"

text \<open>The outer option is the loop of \<open>ufree\<close>; the inner result is 0 when the kernel gives no memory.\<close>

definition morecore :: "(nat \<Rightarrow> bool) \<Rightarrow> nat \<Rightarrow> uheap \<Rightarrow> (nat \<times> uheap) option" where
  "morecore room nu st =
     (let nu = (if nu < 4096 then 4096 else nu) in
      case sbrk room (to_int32 (nu * 16)) st of
        None \<Rightarrow> Some (0, st)
      | Some (hp, st) \<Rightarrow>
          (case ufree (hp + 16) (st\<lparr>hdrs := upd_size hp nu (hdrs st)\<rparr>) of
             None \<Rightarrow> None
           | Some st \<Rightarrow> Some (freep st, st)))"

text \<open>Taking \<open>nunits\<close> from the block \<open>p\<close> after \<open>prevp\<close>.\<close>

definition take_block :: "nat \<Rightarrow> nat \<Rightarrow> nat \<Rightarrow> uheap \<Rightarrow> nat \<times> uheap" where
  "take_block nunits prevp p st =
     (if h_size (hdrs st p) = nunits
      then (p + 16, st\<lparr>hdrs := upd_ptr prevp (h_ptr (hdrs st p)) (hdrs st), freep := prevp\<rparr>)
      else let h = upd_size p (h_size (hdrs st p) - nunits) (hdrs st);
               q = p + 16 * h_size (h p)
           in (q + 16, st\<lparr>hdrs := upd_size q nunits h, freep := prevp\<rparr>))"

partial_function (option) malloc_loop :: "(nat \<Rightarrow> bool) \<Rightarrow> nat \<Rightarrow> nat \<Rightarrow> nat \<Rightarrow> uheap \<Rightarrow> (nat \<times> uheap) option" where
  "malloc_loop room nunits prevp p st =
     (if h_size (hdrs st p) \<ge> nunits then Some (take_block nunits prevp p st)
      else if p = freep st
      then (case morecore room nunits st of
              None \<Rightarrow> None
            | Some (q, st) \<Rightarrow> if q = 0 then Some (0, st) else malloc_loop room nunits q (h_ptr (hdrs st q)) st)
      else malloc_loop room nunits p (h_ptr (hdrs st p)) st)"

definition nunits_of :: "nat \<Rightarrow> nat" where
  "nunits_of nbytes = wrap32 ((nbytes + 16 - 1) div 16 + 1)"

definition malloc :: "(nat \<Rightarrow> bool) \<Rightarrow> nat \<Rightarrow> nat \<Rightarrow> uheap \<Rightarrow> (nat \<times> uheap) option" where
  "malloc room base nbytes st =
     (let nunits = nunits_of nbytes;
          st = (if freep st = 0 then st\<lparr>hdrs := upd_size base 0 (upd_ptr base base (hdrs st)), freep := base\<rparr> else st)
      in malloc_loop room nunits (freep st) (h_ptr (hdrs st (freep st))) st)"

subsection \<open>The invariant\<close>

text \<open>Links along a list of blocks, the last one to \<open>e\<close>; the end of a block; blocks that do not overlap.\<close>

fun links :: "(nat \<Rightarrow> uheader) \<Rightarrow> nat list \<Rightarrow> nat \<Rightarrow> bool" where
  "links h [] e = True"
| "links h (x # xs) e = (h_ptr (h x) = (case xs of [] \<Rightarrow> e | y # _ \<Rightarrow> y) \<and> links h xs e)"

definition bend :: "(nat \<Rightarrow> uheader) \<Rightarrow> nat \<Rightarrow> nat" where
  "bend h x = x + 16 * h_size (h x)"

definition disjoint_blocks :: "(nat \<Rightarrow> uheader) \<Rightarrow> nat set \<Rightarrow> bool" where
  "disjoint_blocks h B \<longleftrightarrow> (\<forall>a\<in>B. \<forall>b\<in>B. a \<noteq> b \<longrightarrow> bend h a \<le> b \<or> bend h b \<le> a)"

text \<open>The addresses that a set of blocks takes up.\<close>

definition span :: "(nat \<Rightarrow> uheader) \<Rightarrow> nat set \<Rightarrow> nat set" where
  "span h B = (\<Union>b\<in>B. {b..<bend h b})"

text \<open>The free list \<open>base # fs\<close> and the blocks \<open>A\<close> in use, up to the break \<open>e\<close>.\<close>

definition ring_ok :: "nat \<Rightarrow> nat \<Rightarrow> (nat \<Rightarrow> uheader) \<Rightarrow> nat list \<Rightarrow> nat set \<Rightarrow> bool" where
  "ring_ok base e h fs A \<longleftrightarrow>
     links h (base # fs) base \<and> sorted_wrt (<) (base # fs) \<and> h_size (h base) = 0 \<and> A \<inter> set fs = {} \<and>
     disjoint_blocks h (A \<union> set fs) \<and> (\<forall>b\<in>A \<union> set fs. base < b \<and> 0 < h_size (h b) \<and> bend h b \<le> e)"

text \<open>The pairs of free blocks without a gap between them.\<close>

definition touching :: "(nat \<Rightarrow> uheader) \<Rightarrow> nat list \<Rightarrow> (nat \<times> nat) set" where
  "touching h fs = {(x, y). x \<in> set fs \<and> y \<in> set fs \<and> bend h x = y}"

definition heap_ok :: "nat \<Rightarrow> uheap \<Rightarrow> nat list \<Rightarrow> nat set \<Rightarrow> bool" where
  "heap_ok base st fs A \<longleftrightarrow>
     ring_ok base (brk st) (hdrs st) fs A \<and> touching (hdrs st) fs = {} \<and> freep st \<in> set (base # fs) \<and>
     0 < base \<and> base < brk st \<and> brk st \<le> 2 ^ 36"

lemma links_append: "links h (xs @ y # ys) e \<longleftrightarrow> links h xs y \<and> links h (y # ys) e"
  by (induction xs) (auto split: list.splits)

lemma links_suffix: "links h (xs @ ys) e \<Longrightarrow> links h ys e"
  by (induction xs) auto

lemma links_cong: "\<forall>x\<in>set xs. h_ptr (g x) = h_ptr (h x) \<Longrightarrow> links g xs e = links h xs e"
  by (induction xs) auto

lemma ring_okD:
  assumes "ring_ok base e h fs A"
  shows "links h (base # fs) base" "sorted_wrt (<) (base # fs)" "h_size (h base) = 0" "A \<inter> set fs = {}" "base \<notin> A" "base \<notin> set fs"
    "b \<in> A \<union> set fs \<Longrightarrow> base < b \<and> 0 < h_size (h b) \<and> bend h b \<le> e"
    "a \<in> A \<union> set fs \<Longrightarrow> b \<in> A \<union> set fs \<Longrightarrow> a \<noteq> b \<Longrightarrow> bend h a \<le> b \<or> bend h b \<le> a"
  using assms by (auto simp: ring_ok_def disjoint_blocks_def)

text \<open>Of two blocks in use or free the lower one ends before the other.\<close>

lemma ring_order:
  assumes "ring_ok base e h fs A" "a \<in> A \<union> set (base # fs)" "b \<in> A \<union> set fs" "a < b"
  shows "bend h a \<le> b"
proof (cases "a = base")
  case True
  then show ?thesis using ring_okD(3) [OF assms(1)] assms(4) by (simp add: bend_def)
next
  case False
  then have "a \<in> A \<union> set fs" using assms(2) by simp
  then show ?thesis using ring_okD(8) [OF assms(1) _ assms(3), of a] ring_okD(7) [OF assms(1,3)] assms(4) by (auto simp: bend_def)
qed

subsection \<open>Freeing\<close>

text \<open>The search ends at the last free block below the one freed.\<close>

lemma free_find_low:
  assumes "links h (qs @ p # ys) base" "sorted_wrt (<) (qs @ p # ys)" "p < bp" "\<forall>y\<in>set ys. bp < y" "base \<le> p" "base < bp"
  shows "free_find h bp (hd (qs @ [p])) = Some p"
  using assms
proof (induction qs)
  case Nil
  then show ?case by (subst free_find.simps) (auto split: list.splits)
next
  case (Cons q qs)
  have n: "h_ptr (h q) = hd (qs @ [p])" using Cons.prems(1) by (cases qs) auto
  have "q < hd (qs @ [p])" "hd (qs @ [p]) \<le> p" using Cons.prems(2) by (cases qs; auto)+
  then have "free_find h bp q = free_find h bp (hd (qs @ [p]))" using n Cons.prems(3) by (subst free_find.simps) auto
  then show ?case using Cons by simp
qed

lemma free_find_high:
  assumes "links h ys base" "sorted_wrt (<) ys" "\<forall>y\<in>set ys. bp < y" "base < bp" "ys \<noteq> []"
  shows "free_find h bp (hd ys) = free_find h bp base"
  using assms
proof (induction ys)
  case (Cons y ys)
  show ?case
  proof (cases ys)
    case Nil
    then show ?thesis using Cons.prems by (subst free_find.simps) auto
  next
    case (Cons z zs)
    then have "free_find h bp y = free_find h bp z" using Cons.prems by (subst free_find.simps) auto
    then show ?thesis using Cons Cons.IH Cons.prems by simp
  qed
qed simp

lemma split_ring:
  fixes b :: nat
  assumes "sorted_wrt (<) (b # fs)" "b < bp" "bp \<notin> set fs"
  shows "\<exists>xs p ys. b # fs = xs @ p # ys \<and> p < bp \<and> (\<forall>y\<in>set ys. bp < y)"
  using assms
proof (induction fs arbitrary: b)
  case (Cons f fs)
  show ?case
  proof (cases "f < bp")
    case True
    then obtain xs p ys where "f # fs = xs @ p # ys" "p < bp" "\<forall>y\<in>set ys. bp < y" using Cons.IH [of f] Cons.prems by auto
    then show ?thesis by (intro exI [of _ "b # xs"] exI [of _ p] exI [of _ ys]) simp
  next
    case False
    then have "bp < f" using Cons.prems(3) by force
    then have "\<forall>y\<in>set (f # fs). bp < y" using Cons.prems(1) by auto
    then show ?thesis using Cons.prems(2) by (intro exI [of _ "[]"] exI [of _ b] exI [of _ "f # fs"]) simp
  qed
qed (auto intro: exI [of _ "[]"])

lemma free_find_ok:
  assumes "links h all base" "sorted_wrt (<) all" "all = base # fs" "all = xs @ p # ys" "p < bp" "\<forall>y\<in>set ys. bp < y" "base < bp" "q \<in> set all"
  shows "free_find h bp q = Some p"
proof -
  have bp: "base \<le> p" using assms(2-4) by (cases xs) auto
  have low: "free_find h bp (hd (zs @ [p])) = Some p" if "xs = us @ zs" for us zs
  proof (rule free_find_low [where ys = ys])
    show "links h (zs @ p # ys) base" using assms(1) links_suffix [of h us "zs @ p # ys" base] by (simp add: assms(4) that)
    show "sorted_wrt (<) (zs @ p # ys)" using assms(2) by (simp add: assms(4) that sorted_wrt_append)
  qed (use assms(5-7) bp in auto)
  consider "q \<in> set ys" | "q = p" | "q \<in> set xs" using assms(4,8) by auto
  then show ?thesis
  proof cases
    case 1
    then obtain us zs where y: "ys = us @ q # zs" by (auto dest: split_list)
    then have "free_find h bp (hd (q # zs)) = free_find h bp base"
      using assms(2,4,6,7) links_suffix [of h "xs @ p # us" "q # zs" base] assms(1) by (intro free_find_high) (auto simp: sorted_wrt_append simp del: links.simps(2))
    moreover have "base = hd (xs @ [p])" using assms(3,4) by (cases xs) auto
    ultimately show ?thesis using low [of "[]" xs] by simp
  next
    case 2
    then show ?thesis using low [of xs "[]"] by simp
  next
    case 3
    then obtain us zs where "xs = us @ q # zs" by (auto dest: split_list)
    then show ?thesis using low [of us "q # zs"] by simp
  qed
qed

text \<open>Linking a block in without merging, and merging a block with the next one.\<close>

definition ins :: "nat \<Rightarrow> nat \<Rightarrow> (nat \<Rightarrow> uheader) \<Rightarrow> nat \<Rightarrow> uheader" where
  "ins bp p h = upd_ptr p bp (upd_ptr bp (h_ptr (h p)) h)"

definition join :: "nat \<Rightarrow> nat \<Rightarrow> (nat \<Rightarrow> uheader) \<Rightarrow> nat \<Rightarrow> uheader" where
  "join x y h = h(x := \<lparr>h_ptr = h_ptr (h y), h_size = h_size (h x) + h_size (h y)\<rparr>)"

lemmas upd_defs = upd_ptr_def upd_size_def ins_def join_def

lemma links_split:
  assumes "links h (xs @ x # ys) e"
  shows "h_ptr (h x) = (case ys of [] \<Rightarrow> e | y # _ \<Rightarrow> y)"
  using assms by (simp add: links_append)

lemma ins_ok:
  assumes R: "ring_ok base e h fs A" and s: "base # fs = xs @ p # ys" "p < bp" "\<forall>y\<in>set ys. bp < y" and bp: "bp \<in> A"
    and f: "base # fs' = xs @ p # bp # ys"
  shows "ring_ok base e (ins bp p h) fs' (A - {bp})"
proof -
  note D = ring_okD [OF R]
  let ?g = "ins bp p h"
  have "bp \<notin> set (base # fs)" using D(4,5) bp by auto
  then have bf: "bp \<notin> set (xs @ p # ys)" by (simp only: s(1) not_False_eq_True)
  have d: "distinct (xs @ p # ys)" using D(2) s(1) by (metis strict_sorted_iff)
  have sz: "h_size (?g x) = h_size (h x)" for x by (simp add: upd_defs)
  then have be: "bend ?g x = bend h x" for x by (simp add: bend_def)
  have set: "set fs' = insert bp (set fs)" using s(1) f D(6) bf by (cases xs) auto
  have l: "links h xs p" "links h ys base" "h_ptr (h p) = (case ys of [] \<Rightarrow> base | y # _ \<Rightarrow> y)"
    using D(1) unfolding s(1) by (simp_all add: links_append)
  have "links ?g xs p" "links ?g ys base" using l(1,2) d bf by (subst links_cong [where h = h]; auto simp: upd_defs)+
  then have "links ?g (xs @ p # bp # ys) base" using l(3) bf by (simp add: links_append upd_defs split: list.splits)
  moreover have "sorted_wrt (<) (xs @ p # bp # ys)" using D(2) s by (auto simp: sorted_wrt_append)
  moreover have "A - {bp} \<union> set fs' = A \<union> set fs" "(A - {bp}) \<inter> set fs' = {}" using set bp D(4) by auto
  ultimately show ?thesis using R unfolding ring_ok_def f disjoint_blocks_def sz be by simp
qed

lemma join_ok:
  assumes R: "ring_ok base e h fs A" and s: "base # fs = xs @ x # y # ys" "x \<noteq> base" "bend h x = y" and f: "base # fs' = xs @ x # ys"
  shows "ring_ok base e (join x y h) fs' A"
proof -
  note D = ring_okD [OF R]
  let ?g = "join x y h"
  have d: "distinct (xs @ x # y # ys)" using D(2) s(1) by (metis strict_sorted_iff)
  have xy: "x \<in> set fs" "y \<in> set fs" "set fs = insert y (set fs')" "y \<notin> set fs'" "x \<in> set fs'"
    using s(1,2) f d by (cases xs; auto)+
  have l: "links h xs x" "links h ys base" "h_ptr (h y) = (case ys of [] \<Rightarrow> base | z # _ \<Rightarrow> z)"
    using D(1) unfolding s(1) by (simp_all add: links_append)
  have "links ?g xs x" "links ?g ys base" using l(1,2) d by (subst links_cong [where h = h]; auto simp: upd_defs)+
  then have ll: "links ?g (xs @ x # ys) base" using l(3) by (simp add: links_append upd_defs split: list.splits)
  have so: "sorted_wrt (<) (xs @ x # ys)" using D(2) unfolding s(1) by (auto simp: sorted_wrt_append)
  have be: "bend ?g x = bend h y" "\<And>z. z \<noteq> x \<Longrightarrow> bend ?g z = bend h z" using s(3) by (simp_all add: bend_def join_def)
  have dx: "bend h a \<le> x \<or> bend h y \<le> a" if "a \<in> A \<union> set fs'" "a \<noteq> x" for a
  proof -
    have a: "a \<in> A \<union> set fs" "a \<noteq> y" "a < bend h a" using that xy D(4) D(7) [of a] by (auto simp: bend_def)
    then show ?thesis using D(8) [of a x] D(8) [of a y] xy(1,2) that(2) s(3) by fastforce
  qed
  have "disjoint_blocks ?g (A \<union> set fs')" unfolding disjoint_blocks_def
  proof (intro ballI impI)
    fix a b assume ab: "a \<in> A \<union> set fs'" "b \<in> A \<union> set fs'" "a \<noteq> b"
    then show "bend ?g a \<le> b \<or> bend ?g b \<le> a"
      using dx [of a] dx [of b] D(8) [of a b] xy(3) by (cases "a = x"; cases "b = x") (auto simp: be)
  qed
  then show ?thesis using R ll so s(2) xy D(7) [of y] s(3) unfolding ring_ok_def f by (auto simp: be join_def bend_def)
qed

text \<open>Neither gains or loses memory.\<close>

lemma span_ins: "span (ins bp p h) B = span h B"
proof -
  have "bend (ins bp p h) x = bend h x" for x by (simp add: bend_def upd_defs)
  then show ?thesis by (simp add: span_def)
qed

lemma span_join:
  assumes "x \<in> B" "y \<notin> B" "bend h x = y"
  shows "span (join x y h) B = span h (insert y B)"
proof -
  have be: "bend (join x y h) x = bend h y" "\<And>z. z \<noteq> x \<Longrightarrow> bend (join x y h) z = bend h z" using assms(3) by (simp_all add: bend_def join_def)
  have xy: "{x..<bend h y} = {x..<bend h x} \<union> {y..<bend h y}" using assms(3) by (auto simp: bend_def)
  have ins: "span g (insert z C) = {z..<bend g z} \<union> span g C" for g z C by (simp add: span_def)
  have rest: "span (join x y h) (B - {x}) = span h (B - {x})" unfolding span_def by (rule SUP_cong) (simp_all add: be(2))
  have B: "B = insert x (B - {x})" using assms(1) by blast
  have "span (join x y h) B = {x..<bend h y} \<union> span h (B - {x})" by (subst B) (simp only: ins be(1) rest)
  moreover have "span h (insert y B) = {y..<bend h y} \<union> ({x..<bend h x} \<union> span h (B - {x}))" by (subst B) (simp only: ins)
  ultimately show ?thesis unfolding xy by blast
qed

lemma touching_ins:
  assumes R: "ring_ok base e h fs A" and s: "base # fs = xs @ p # ys" "p < bp" "\<forall>y\<in>set ys. bp < y" and bp: "bp \<in> A"
    and f: "base # fs' = xs @ p # bp # ys" and t: "touching h fs = {}"
  shows "touching (ins bp p h) fs' \<subseteq> {(p, bp), (bp, h_ptr (h p))}"
proof -
  note D = ring_okD [OF R]
  have be: "bend (ins bp p h) x = bend h x" for x by (simp add: bend_def upd_defs)
  have bf: "bp \<notin> set fs" using D(4) bp by auto
  have set: "set fs' = insert bp (set fs)" "set (base # fs) = set xs \<union> {p} \<union> set ys" using s(1) f bf D(5,6) bp by (cases xs; force)+
  have so: "sorted_wrt (<) (xs @ p # ys)" "links h (xs @ p # ys) base" using D(1,2) s(1) by metis+
  have 1: "x = p" if "x \<in> set fs" "bend h x = bp" for x
  proof (rule ccontr)
    assume "x \<noteq> p"
    have "x < bp" using that D(7) [of x] by (auto simp: bend_def)
    moreover have "x \<in> set xs \<union> {p} \<union> set ys" using that(1) set(2) by auto
    ultimately have "x \<in> set xs" using \<open>x \<noteq> p\<close> s(3) by auto
    then have "x < p" "p \<in> set fs" using so(1) s(1) by (auto simp: sorted_wrt_append) (cases xs; auto)
    then show False using ring_order [OF R, of x p] that s(2) by simp
  qed
  have 2: "y = h_ptr (h p)" if "y \<in> set fs" "bend h bp = y" for y
  proof -
    have "bp < y" using that(2) D(7) [of bp] bp by (auto simp: bend_def)
    moreover have "y \<in> set xs \<union> {p} \<union> set ys" using that(1) set(2) by auto
    ultimately have "y \<in> set ys" using s(2) so(1) by (auto simp: sorted_wrt_append)
    then obtain z zs where ys: "ys = z # zs" "y = z \<or> z < y" using so(1) by (cases ys) (auto simp: sorted_wrt_append)
    have z: "z \<in> set fs" "bp < z" using s(1,3) ys(1) by (cases xs; auto)+
    then have "bend h bp \<le> z" using ring_order [OF R, of bp z] bp by simp
    then show ?thesis using ys that(2) links_split [OF so(2)] by auto
  qed
  have "bend h bp \<noteq> bp" using D(7) [of bp] bp by (simp add: bend_def)
  then show ?thesis using 1 2 t unfolding touching_def set(1) be by auto
qed

lemma touching_join:
  assumes "ring_ok base e h fs A" "base # fs = xs @ x # y # ys" "x \<noteq> base" "bend h x = y" "base # fs' = xs @ x # ys" "touching h fs \<subseteq> insert (x, y) S"
    "\<And>z. (y, z) \<notin> insert (x, y) S"
  shows "touching (join x y h) fs' \<subseteq> S"
proof -
  have d: "distinct (xs @ x # y # ys)" using ring_okD(2) [OF assms(1)] assms(2) by (metis strict_sorted_iff)
  have m: "set fs = insert y (set fs')" "y \<notin> set fs'" using assms(2,3,5) d by (cases xs; auto)+
  have be: "bend (join x y h) x = bend h y" "\<And>z. z \<noteq> x \<Longrightarrow> bend (join x y h) z = bend h z" using assms(4) by (simp_all add: bend_def join_def)
  show ?thesis
  proof (rule subsetI)
    fix q assume "q \<in> touching (join x y h) fs'"
    then obtain u v where q: "q = (u, v)" "u \<in> set fs'" "v \<in> set fs'" "bend (join x y h) u = v" by (auto simp: touching_def)
    have "u \<noteq> x"
    proof
      assume "u = x"
      then have "(y, v) \<in> touching h fs" using q m(1) by (simp add: touching_def be)
      then show False using assms(6,7) by blast
    qed
    then have "(u, v) \<in> touching h fs" "v \<noteq> y" using q m by (auto simp: touching_def be)
    then show "q \<in> S" using assms(6) q(1) by auto
  qed
qed

text \<open>What \<open>free_link\<close> does: link the block in, then merge it with the next one and with the one before it.\<close>

lemma free_link_eq:
  assumes "p \<noteq> bp" "bend h bp = n \<Longrightarrow> n \<noteq> p \<and> n \<noteq> bp \<and> h_size (h bp) + h_size (h n) < 2 ^ 32"
    "bend h p = bp \<Longrightarrow> h_size (h p) + (if bend h bp = n then h_size (h bp) + h_size (h n) else h_size (h bp)) < 2 ^ 32" "n = h_ptr (h p)"
  shows "free_link bp p h =
    (let g = (if bend h bp = n then join bp n (ins bp p h) else ins bp p h) in if bend h p = bp then join p bp g else g)"
proof -
  have w: "m < 2 ^ 32 \<Longrightarrow> wrap32 m = m" for m by (simp add: wrap32_def)
  show ?thesis
    using assms(1-3) w unfolding assms(4) by (cases "bend h bp = n"; cases "bend h p = bp")
      (auto simp: free_link_def Let_def bend_def upd_defs assms(4) fun_eq_iff)
qed

lemma sizes_fit:
  assumes "ring_ok base e h fs A" "e \<le> 2 ^ 36" "x \<in> A \<union> set fs" "y \<in> A \<union> set fs" "bend h x = y"
  shows "h_size (h x) + h_size (h y) < 2 ^ 32"
proof -
  have "bend h y \<le> e" "base < x" using ring_okD(7) [OF assms(1)] assms(3,4) by blast+
  then show ?thesis using assms(2,5) by (simp add: bend_def)
qed

lemma merge_ok:
  assumes R: "ring_ok base e h fs A" and s: "base # fs = xs @ x # y # ys" and t: "touching h fs \<subseteq> insert (x, y) S" "\<And>z. (y, z) \<notin> insert (x, y) S"
  defines "j \<equiv> bend h x = y"
  shows "\<exists>fs'. base # fs' = xs @ x # (if j then ys else y # ys) \<and> ring_ok base e (if j then join x y h else h) fs' A \<and>
    touching (if j then join x y h else h) fs' \<subseteq> S \<and> span (if j then join x y h else h) (set fs') = span h (set fs)"
proof (cases j)
  case True
  have "x \<noteq> base"
  proof
    assume "x = base"
    then have "y = base" using True ring_okD(3) [OF R] by (simp add: j_def bend_def)
    moreover have "y \<in> set fs" using s by (cases xs) auto
    ultimately show False using ring_okD(6) [OF R] by simp
  qed
  moreover obtain fs' where f: "base # fs' = xs @ x # ys" using s by (cases xs) auto
  moreover have d: "distinct (xs @ x # y # ys)" using ring_okD(2) [OF R] s by (metis strict_sorted_iff)
  have m: "set fs = insert y (set fs')" "y \<notin> set fs'" "x \<in> set fs'" using s f d \<open>x \<noteq> base\<close> by (cases xs; auto)+
  have "span (join x y h) (set fs') = span h (set fs)" unfolding m(1) using True by (intro span_join m) (simp add: j_def)
  ultimately show ?thesis
    using join_ok [OF R s _ _ f] touching_join [OF R s _ _ f t] True by (intro exI [where x = fs']) (simp add: j_def)
next
  case False
  then have "(x, y) \<notin> touching h fs" by (auto simp: touching_def j_def)
  then show ?thesis using False R s t(1) by auto
qed

lemma ufree_right:
  assumes R: "ring_ok base e h fs A" and s: "base # fs = xs @ p # ys" "p < bp" "\<forall>y\<in>set ys. bp < y" and bp: "bp \<in> A"
    and f: "base # fs0 = xs @ p # bp # ys" and T: "touching h fs = {}"
  defines "n \<equiv> h_ptr (h p)"
  shows "\<exists>ys1 fs1. base # fs1 = xs @ p # bp # ys1 \<and>
    ring_ok base e (if bend h bp = n then join bp n (ins bp p h) else ins bp p h) fs1 (A - {bp}) \<and>
    touching (if bend h bp = n then join bp n (ins bp p h) else ins bp p h) fs1 \<subseteq> {(p, bp)} \<and>
    span (if bend h bp = n then join bp n (ins bp p h) else ins bp p h) (set fs1) = span h (insert bp (set fs))"
proof -
  let ?g = "ins bp p h"
  have g: "ring_ok base e ?g fs0 (A - {bp})" by (rule ins_ok [OF R s bp f])
  have t: "touching ?g fs0 \<subseteq> {(p, bp), (bp, n)}" unfolding n_def by (rule touching_ins [OF R s bp f T])
  have be: "bend ?g bp = bend h bp" by (simp add: bend_def upd_defs)
  have "bp \<notin> set (base # fs)" using ring_okD(4,5) [OF R] bp by auto
  then have "set fs0 = insert bp (set fs)" using s(1) f ring_okD(6) [OF R] by (cases xs) auto
  then have sp: "span ?g (set fs0) = span h (insert bp (set fs))" by (simp add: span_ins)
  have n: "n = (case ys of [] \<Rightarrow> base | y # _ \<Rightarrow> y)" unfolding n_def using links_split ring_okD(1) [OF R] unfolding s(1) by blast
  show ?thesis
  proof (cases ys)
    case Nil
    have "base < bp" using ring_okD(7) [OF R, of bp] bp by simp
    then have "bend h bp \<noteq> n" "(bp, n) \<notin> touching ?g fs0" using n Nil ring_okD(6) [OF g] by (auto simp: bend_def touching_def)
    then show ?thesis using g t f sp by auto
  next
    case (Cons y zs)
    then have y: "n = y" "bp < y" using n s(3) by auto
    have "\<And>z. (y, z) \<notin> {(bp, y), (p, bp)}" using y s(2) by auto
    from merge_ok [OF g _ _ this, of "xs @ [p]" zs] t be y(1) f Cons obtain fs1 where
      "base # fs1 = (xs @ [p]) @ bp # (if bend h bp = y then zs else y # zs)"
      "ring_ok base e (if bend h bp = y then join bp y ?g else ?g) fs1 (A - {bp})" "touching (if bend h bp = y then join bp y ?g else ?g) fs1 \<subseteq> {(p, bp)}"
      "span (if bend h bp = y then join bp y ?g else ?g) (set fs1) = span h (insert bp (set fs))"
      using sp by (auto simp: insert_commute)
    then show ?thesis unfolding y(1) by (intro exI [where x = "if bend h bp = y then zs else y # zs"] exI [where x = fs1]) simp
  qed
qed

lemma free_link_ok:
  assumes R: "ring_ok base e h fs A" and s: "base # fs = xs @ p # ys" "p < bp" "\<forall>y\<in>set ys. bp < y" and bp: "bp \<in> A"
    and T: "touching h fs = {}" and e: "e \<le> 2 ^ 36"
  defines "g \<equiv> free_link bp p h"
  shows "\<exists>fs'. ring_ok base e g fs' (A - {bp}) \<and> touching g fs' = {} \<and> p \<in> set (base # fs') \<and>
    (\<forall>a\<in>A - {bp}. h_size (g a) = h_size (h a)) \<and> span g (set fs') = span h (insert bp (set fs)) \<and> (h_size (h bp) \<le> h_size (g p) \<or> h_size (h bp) \<le> h_size (g (h_ptr (g p))))"
proof -
  let ?n = "h_ptr (h p)" and ?B = "A - {bp}"
  note D = ring_okD [OF R]
  have bb: "base < bp" "bp < bend h bp" "p \<notin> A"
  proof -
    show "base < bp" "bp < bend h bp" using D(7) [of bp] bp by (auto simp: bend_def)
    have "p \<in> set (base # fs)" by (simp add: s(1))
    then show "p \<notin> A" using D(4,5) by auto
  qed
  obtain fsi where f: "base # fsi = xs @ p # bp # ys" using s(1) by (cases xs) auto
  have n: "?n = (case ys of [] \<Rightarrow> base | y # _ \<Rightarrow> y)" using links_split D(1) unfolding s(1) by blast
  let ?hr = "if bend h bp = ?n then join bp ?n (ins bp p h) else ins bp p h"
  obtain ysr fsr where r: "base # fsr = xs @ p # bp # ysr" "ring_ok base e ?hr fsr ?B" "touching ?hr fsr \<subseteq> {(p, bp)}"
    "span ?hr (set fsr) = span h (insert bp (set fs))"
    using ufree_right [OF R s bp f T] by blast
  let ?hl = "if bend ?hr p = bp then join p bp ?hr else ?hr"
  obtain fsl where l: "base # fsl = xs @ p # (if bend ?hr p = bp then ysr else bp # ysr)" "ring_ok base e ?hl fsl ?B" "touching ?hl fsl \<subseteq> {}"
    "span ?hl (set fsl) = span ?hr (set fsr)"
    using merge_ok [OF r(2,1), of "{}"] r(3) s(2) by auto
  have bend_p: "bend ?hr p = bend h p" using s(2) by (simp add: bend_def upd_defs)
  have sz: "h_size (?hr bp) = (if bend h bp = ?n then h_size (h bp) + h_size (h ?n) else h_size (h bp))" by (simp add: upd_defs)
  have "g = ?hl" unfolding g_def
  proof (subst free_link_eq [where n = ?n])
    show "?n \<noteq> p \<and> ?n \<noteq> bp \<and> h_size (h bp) + h_size (h ?n) < 2 ^ 32" if "bend h bp = ?n"
    proof -
      have "?n \<in> set fs" using n that bb s(1) by (cases ys; cases xs) auto
      then show ?thesis using that bb(2) s(2) sizes_fit [OF R e, of bp ?n] bp by auto
    qed
    show "h_size (h p) + (if bend h bp = ?n then h_size (h bp) + h_size (h ?n) else h_size (h bp)) < 2 ^ 32" if "bend h p = bp"
    proof -
      have "p \<noteq> base" using that D(3) bb(1) by (auto simp: bend_def)
      then have "p \<in> ?B \<union> set fsr" "bp \<in> ?B \<union> set fsr" using r(1) by (cases xs; auto)+
      then show ?thesis using sizes_fit [OF r(2) e, of p bp] that bend_p sz s(2) by (auto simp: upd_defs)
    qed
  qed (use s(2) in \<open>simp_all add: Let_def bend_p\<close>)
  moreover have "p \<in> set (base # fsl)" by (simp add: l(1))
  moreover have "\<forall>a\<in>?B. h_size (?hl a) = h_size (h a)" using bb(3) by (auto simp: upd_defs)
  moreover have "h_size (h bp) \<le> h_size (?hl p) \<or> h_size (h bp) \<le> h_size (?hl (h_ptr (?hl p)))" using s(2) by (auto simp: upd_defs)
  ultimately show ?thesis using l(2-4) r(4) by (intro exI [where x = fsl]) simp
qed

lemma ufree_ok:
  assumes H: "heap_ok base st fs A" and bp: "bp \<in> A"
  shows "\<exists>st' fs'. ufree (bp + 16) st = Some st' \<and> heap_ok base st' fs' (A - {bp}) \<and> brk st' = brk st \<and>
    (\<forall>a\<in>A - {bp}. h_size (hdrs st' a) = h_size (hdrs st a)) \<and> span (hdrs st') (set fs') = span (hdrs st) (insert bp (set fs)) \<and>
    (h_size (hdrs st bp) \<le> h_size (hdrs st' (freep st')) \<or> h_size (hdrs st bp) \<le> h_size (hdrs st' (h_ptr (hdrs st' (freep st')))))"
proof -
  let ?h = "hdrs st"
  have R: "ring_ok base (brk st) ?h fs A" and T: "touching ?h fs = {}" and b: "freep st \<in> set (base # fs)" "0 < base" "base < brk st" "brk st \<le> 2 ^ 36"
    using H by (auto simp: heap_ok_def)
  note D = ring_okD [OF R]
  have bb: "base < bp" "bp \<notin> set fs" using D(4) D(7) [of bp] bp by auto
  obtain xs p ys where s: "base # fs = xs @ p # ys" "p < bp" "\<forall>y\<in>set ys. bp < y" using split_ring [OF D(2) bb] by blast
  have "free_find ?h bp (freep st) = Some p" by (rule free_find_ok [OF D(1,2) refl s bb(1) b(1)])
  then have "ufree (bp + 16) st = Some (st\<lparr>hdrs := free_link bp p ?h, freep := p\<rparr>)" by (simp add: ufree_def Let_def)
  then show ?thesis using free_link_ok [OF R s bp T b(4)] b(2-4) by (auto simp: heap_ok_def)
qed

subsection \<open>Allocating\<close>

lemma links_inj:
  assumes "links h xs e" "distinct xs" "e \<notin> set (tl xs)" "x \<in> set xs" "y \<in> set xs" "h_ptr (h x) = h_ptr (h y)"
  shows "x = y"
  using assms
proof (induction xs arbitrary: x y)
  case (Cons z zs)
  have z: "h_ptr (h z) \<noteq> h_ptr (h u)" if m: "u \<in> set zs" for u
  proof -
    obtain us vs where u: "zs = us @ u # vs" using split_list [OF m] by blast
    then have "h_ptr (h u) = (case vs of [] \<Rightarrow> e | v # _ \<Rightarrow> v)" using Cons.prems(1) links_split [of h us u vs e] by simp
    moreover have "h_ptr (h z) = hd (us @ [u])" using Cons.prems(1) u by (cases us) auto
    ultimately show ?thesis using Cons.prems(2,3) u by (cases us; cases vs) auto
  qed
  have "e \<notin> set (tl zs)" using Cons.prems(3) by (cases zs) auto
  then show ?case using Cons.IH [of x y] Cons.prems z by (auto simp: eq_commute [of "h_ptr (h z)"])
qed simp

lemma pred_split:
  assumes R: "ring_ok base e h fs A" and q: "q \<in> set (base # fs)" "h_ptr (h q) = x" "x \<in> set fs"
  shows "\<exists>xs ys. base # fs = xs @ q # x # ys"
proof -
  obtain us ys where u: "fs = us @ x # ys" using q(3) by (auto dest: split_list)
  obtain xs y where xy: "base # us = xs @ [y]" by (metis append_butlast_last_id list.distinct(1))
  have a: "base # fs = xs @ y # x # ys" using u xy by simp
  have "h_ptr (h y) = x" using ring_okD(1) [OF R] links_split [of h xs y "x # ys" base] unfolding a by simp
  moreover have "distinct (base # fs)" using ring_okD(2) [OF R] by (metis strict_sorted_iff)
  moreover have "y \<in> set (base # fs)" by (simp add: a)
  ultimately have "q = y" using links_inj [OF ring_okD(1) [OF R], of q y] ring_okD(6) [OF R] q by simp
  then show ?thesis using a by blast
qed

lemma unlink_ok:
  assumes R: "ring_ok base e h fs A" and s: "base # fs = xs @ q # x # ys" and f: "base # fs' = xs @ q # ys" and T: "touching h fs = {}"
  defines "g \<equiv> upd_ptr q (h_ptr (h x)) h"
  shows "ring_ok base e g fs' (insert x A) \<and> touching g fs' = {}"
proof -
  note D = ring_okD [OF R]
  have d: "distinct (xs @ q # x # ys)" using D(2) s by (metis strict_sorted_iff)
  have m: "set fs = insert x (set fs')" "x \<notin> set fs'" using s f d by (cases xs; auto)+
  have l: "links h xs q" "links h ys base" "h_ptr (h x) = (case ys of [] \<Rightarrow> base | z # _ \<Rightarrow> z)"
    using D(1) unfolding s by (simp_all add: links_append)
  have "links g xs q" "links g ys base" using l(1,2) d by (subst links_cong [where h = h]; auto simp: g_def upd_ptr_def)+
  then have ll: "links g (xs @ q # ys) base" using l(3) by (simp add: links_append g_def upd_ptr_def split: list.splits)
  have so: "sorted_wrt (<) (xs @ q # ys)" using D(2) unfolding s by (auto simp: sorted_wrt_append)
  have sz: "h_size (g z) = h_size (h z)" "bend g z = bend h z" for z by (simp_all add: g_def upd_ptr_def bend_def)
  have "insert x A \<union> set fs' = A \<union> set fs" "insert x A \<inter> set fs' = {}" using m D(4) by auto
  then show ?thesis using R ll so T m(1) unfolding ring_ok_def f disjoint_blocks_def sz touching_def by auto
qed

lemma split_ok:
  assumes R: "ring_ok base e h fs A" and x: "x \<in> set fs" and T: "touching h fs = {}" and n: "0 < n" "n < h_size (h x)"
  defines "a \<equiv> x + 16 * (h_size (h x) - n)"
  defines "g \<equiv> upd_size a n (upd_size x (h_size (h x) - n) h)"
  shows "ring_ok base e g fs (insert a A) \<and> touching g fs = {} \<and> a \<notin> A \<and> a \<noteq> x"
proof -
  note D = ring_okD [OF R]
  have ax: "x < a" "a < bend h x" "a + 16 * n = bend h x" using n by (auto simp: a_def bend_def)
  have out: "bend h b \<le> x \<or> bend h x \<le> b" "b < bend h b" if "b \<in> A \<union> set fs" "b \<noteq> x" for b
    using D(8) [of b x] D(7) [of b] that x by (auto simp: bend_def)
  have na: "a \<notin> A \<union> set fs"
  proof
    assume "a \<in> A \<union> set fs"
    then show False using out [of a] ax by auto
  qed
  have be: "bend g x = a" "bend g a = bend h x" "\<And>z. z \<noteq> x \<Longrightarrow> z \<noteq> a \<Longrightarrow> bend g z = bend h z"
    using ax by (auto simp: g_def upd_size_def bend_def a_def)
  have sz: "h_size (g x) = h_size (h x) - n" "h_size (g a) = n" "\<And>z. z \<noteq> x \<Longrightarrow> z \<noteq> a \<Longrightarrow> h_size (g z) = h_size (h z)"
    using ax by (auto simp: g_def upd_size_def)
  have "base \<noteq> a" "base \<noteq> x" using D(7) [of x] x ax by auto
  moreover have "links g (base # fs) base" using D(1) by (subst links_cong [where h = h]) (auto simp: g_def upd_size_def)
  moreover have "disjoint_blocks g (insert a A \<union> set fs)" unfolding disjoint_blocks_def
  proof (intro ballI impI)
    fix b c assume bc: "b \<in> insert a A \<union> set fs" "c \<in> insert a A \<union> set fs" "b \<noteq> c"
    have o: "z = a \<or> z = x \<or> (z \<in> A \<union> set fs \<and> z \<noteq> x \<and> z \<noteq> a)" if "z \<in> insert a A \<union> set fs" for z using that na by auto
    show "bend g b \<le> c \<or> bend g c \<le> b"
      using o [OF bc(1)] o [OF bc(2)] bc(3) out [of b] out [of c] D(8) [of b c] ax by (elim disjE) (auto simp: be)
  qed
  moreover have "base < b \<and> 0 < h_size (g b) \<and> bend g b \<le> e" if m: "b \<in> insert a A \<union> set fs" for b
  proof -
    consider "b = a" | "b = x" | "b \<in> A \<union> set fs" "b \<noteq> x" "b \<noteq> a" using m by auto
    then show ?thesis
    proof cases
      case 3
      then show ?thesis using D(7) [of b] by (simp add: be sz)
    qed (use D(7) [of x] x ax n in \<open>auto simp: be sz\<close>)
  qed
  moreover have "bend g u \<noteq> v" if "u \<in> set fs" "v \<in> set fs" for u v
  proof (cases "u = x")
    case False
    then have "bend g u = bend h u" using that(1) na by (intro be(3)) auto
    then show ?thesis using that T by (auto simp: touching_def)
  qed (use that(2) na be(1) in auto)
  then have "touching g fs = {}" by (auto simp: touching_def)
  ultimately show ?thesis using R na ax by (auto simp: ring_ok_def g_def upd_size_def)
qed

text \<open>The memory that \<open>sbrk\<close> adds is a block of its own.\<close>

lemma grow_fresh:
  assumes "heap_ok base st fs A"
  shows "brk st \<notin> A \<union> set (base # fs)"
proof
  assume m: "brk st \<in> A \<union> set (base # fs)"
  have R: "ring_ok base (brk st) (hdrs st) fs A" "base < brk st" using assms by (simp_all add: heap_ok_def)
  then have "brk st \<in> A \<union> set fs" using m by auto
  then show False using ring_okD(7) [OF R(1), of "brk st"] by (auto simp: bend_def)
qed

lemma grow_ok:
  assumes H: "heap_ok base st fs A" and n: "0 < n" "brk st + n * 16 \<le> 2 ^ 36"
  shows "heap_ok base (st\<lparr>brk := brk st + n * 16, hdrs := upd_size (brk st) n (hdrs st)\<rparr>) fs (insert (brk st) A)"
proof -
  let ?h = "hdrs st" and ?a = "brk st"
  let ?g = "upd_size ?a n ?h"
  have R: "ring_ok base ?a ?h fs A" and T: "touching ?h fs = {}" and b: "freep st \<in> set (base # fs)" "0 < base" "base < ?a"
    using H by (auto simp: heap_ok_def)
  note D = ring_okD [OF R]
  have na: "?a \<notin> A \<union> set fs" "?a \<noteq> base" using grow_fresh [OF H] by auto
  have be: "bend ?g ?a = ?a + n * 16" "\<And>z. z \<noteq> ?a \<Longrightarrow> bend ?g z = bend ?h z" by (simp_all add: upd_size_def bend_def)
  have sz: "h_size (?g ?a) = n" "\<And>z. z \<noteq> ?a \<Longrightarrow> h_size (?g z) = h_size (?h z)" by (simp_all add: upd_size_def)
  have "links ?g (base # fs) base" using D(1) by (subst links_cong [where h = ?h]) (auto simp: upd_size_def)
  moreover have "disjoint_blocks ?g (insert ?a A \<union> set fs)"
    unfolding disjoint_blocks_def
  proof (intro ballI impI)
    fix b c assume "b \<in> insert ?a A \<union> set fs" "c \<in> insert ?a A \<union> set fs" "b \<noteq> c"
    then show "bend ?g b \<le> c \<or> bend ?g c \<le> b" using D(7) [of b] D(7) [of c] D(8) [of b c] by (cases "b = ?a"; cases "c = ?a") (auto simp: be)
  qed
  moreover have "\<forall>z\<in>insert ?a A \<union> set fs. base < z \<and> 0 < h_size (?g z) \<and> bend ?g z \<le> ?a + n * 16"
  proof
    fix z assume "z \<in> insert ?a A \<union> set fs"
    then show "base < z \<and> 0 < h_size (?g z) \<and> bend ?g z \<le> ?a + n * 16"
      using D(7) [of z] b(3) n na by (cases "z = ?a") (auto simp: be sz)
  qed
  moreover have "bend ?g z = bend ?h z" if "z \<in> set fs" for z using that na by (intro be(2)) auto
  then have "touching ?g fs = touching ?h fs" by (simp add: touching_def cong: conj_cong)
  ultimately show ?thesis using R T b n na by (auto simp: heap_ok_def ring_ok_def upd_size_def)
qed

lemma take_ok:
  assumes H: "heap_ok base st fs A" and q: "q \<in> set (base # fs)" "h_ptr (hdrs st q) = x" "x \<in> set fs" and n: "0 < n" "n \<le> h_size (hdrs st x)"
  shows "\<exists>a st' fs'. take_block n q x st = (a + 16, st') \<and> a \<notin> A \<and> heap_ok base st' fs' (insert a A) \<and> h_size (hdrs st' a) = n \<and>
    (\<forall>b\<in>A. h_size (hdrs st' b) = h_size (hdrs st b))"
proof -
  let ?h = "hdrs st"
  have R: "ring_ok base (brk st) ?h fs A" and T: "touching ?h fs = {}" and b: "0 < base" "base < brk st" "brk st \<le> 2 ^ 36"
    using H by (auto simp: heap_ok_def)
  note D = ring_okD [OF R]
  have xA: "x \<notin> A" using D(4) q(3) by auto
  show ?thesis
  proof (cases "h_size (?h x) = n")
    case True
    let ?g = "upd_ptr q (h_ptr (?h x)) ?h"
    obtain xs ys where s: "base # fs = xs @ q # x # ys" using pred_split [OF R q] by blast
    obtain fs' where f: "base # fs' = xs @ q # ys" using s by (cases xs) auto
    have "ring_ok base (brk st) ?g fs' (insert x A) \<and> touching ?g fs' = {}" by (rule unlink_ok [OF R s f T])
    moreover have "q \<in> set (base # fs')" by (simp add: f)
    ultimately show ?thesis using True b xA by (auto simp: take_block_def heap_ok_def upd_ptr_def intro!: exI [where x = x] exI [where x = fs'])
  next
    case False
    let ?a = "x + 16 * (h_size (?h x) - n)"
    let ?g = "upd_size ?a n (upd_size x (h_size (?h x) - n) ?h)"
    have "ring_ok base (brk st) ?g fs (insert ?a A) \<and> touching ?g fs = {} \<and> ?a \<notin> A \<and> ?a \<noteq> x"
      using False n by (intro split_ok [OF R q(3) T]) auto
    then show ?thesis using False n b q(1) H xA by (intro exI [where x = ?a] exI [where x = fs])
      (auto simp: take_block_def heap_ok_def upd_size_def Let_def)
  qed
qed

lemma morecore_ok:
  assumes H: "heap_ok base st fs A" and room: "\<And>m. room m \<Longrightarrow> m \<le> 2 ^ 36" and n: "n * 16 < 2 ^ 31"
  shows "morecore room n st = Some (0, st) \<and> \<not> room (brk st + max 4096 n * 16) \<or> (\<exists>st' fs'. morecore room n st = Some (freep st', st') \<and> heap_ok base st' fs' A \<and>
    (\<forall>b\<in>A. h_size (hdrs st' b) = h_size (hdrs st b)) \<and>
    (n \<le> h_size (hdrs st' (freep st')) \<or> n \<le> h_size (hdrs st' (h_ptr (hdrs st' (freep st'))))))"
proof -
  define nu where "nu = (if n < 4096 then 4096 else n)"
  have nu: "n \<le> nu" "0 < nu" "nu * 16 < 2 ^ 31" using n by (auto simp: nu_def)
  then have i: "to_int32 (nu * 16) = int (nu * 16)" "nat (int nu * 16) = nu * 16" by (simp_all add: to_int32_def Let_def nat_mult_distrib)
  show ?thesis
  proof (cases "room (brk st + nu * 16)")
    case False
    moreover have "max 4096 n = nu" by (simp add: nu_def)
    ultimately show ?thesis using nu i by (simp add: morecore_def sbrk_def nu_def [symmetric] Let_def)
  next
    case True
    let ?st = "st\<lparr>brk := brk st + nu * 16, hdrs := upd_size (brk st) nu (hdrs st)\<rparr>"
    have e: "brk st + nu * 16 \<le> 2 ^ 36" "brk st \<notin> A" using room [OF True] grow_fresh [OF H] by auto
    have "heap_ok base ?st fs (insert (brk st) A)" by (rule grow_ok [OF H nu(2) e(1)])
    from ufree_ok [OF this, of "brk st"] obtain st' fs' where u: "ufree (brk st + 16) ?st = Some st'" "heap_ok base st' fs' A"
        "\<forall>a\<in>A. h_size (hdrs st' a) = h_size (hdrs ?st a)" "nu \<le> h_size (hdrs st' (freep st')) \<or> nu \<le> h_size (hdrs st' (h_ptr (hdrs st' (freep st'))))"
      using e(2) by (auto simp: upd_size_def)
    have "sbrk room (to_int32 (nu * 16)) st = Some (brk st, st\<lparr>brk := brk st + nu * 16\<rparr>)" using True nu(2) i by (simp add: sbrk_def)
    then have "morecore room n st = Some (freep st', st')" using u(1) by (simp add: morecore_def nu_def [symmetric] Let_def)
    moreover have "h_size (hdrs st' b) = h_size (hdrs st b)" if "b \<in> A" for b using u(3) that e(2) by (auto simp: upd_size_def)
    moreover have "n \<le> h_size (hdrs st' (freep st')) \<or> n \<le> h_size (hdrs st' (h_ptr (hdrs st' (freep st'))))" using u(4) nu(1) by linarith
    ultimately show ?thesis using u(2) by blast
  qed
qed

text \<open>The scan of the ring: it takes the first block that is large enough, or comes back to where it started.\<close>

lemma scan:
  assumes "links (hdrs st) ws z" "ws \<noteq> []" "last ws = freep st" "distinct ws" "set ws \<subseteq> B" "q \<in> B" "h_ptr (hdrs st q) = hd ws"
  shows "(\<exists>u\<in>B. h_ptr (hdrs st u) \<in> B \<and> n \<le> h_size (hdrs st (h_ptr (hdrs st u))) \<and>
      malloc_loop room n q (hd ws) st = Some (take_block n u (h_ptr (hdrs st u)) st)) \<or>
    ((\<forall>w\<in>set ws. h_size (hdrs st w) < n) \<and> malloc_loop room n q (hd ws) st =
      (case morecore room n st of
         None \<Rightarrow> None
       | Some (p, st) \<Rightarrow> if p = 0 then Some (0, st) else malloc_loop room n p (h_ptr (hdrs st p)) st))"
  using assms
proof (induction ws arbitrary: q)
  case (Cons w ws)
  consider (fits) "n \<le> h_size (hdrs st w)" | (last) "h_size (hdrs st w) < n" "w = freep st" | (more) "h_size (hdrs st w) < n" "w \<noteq> freep st" by linarith
  then show ?case
  proof cases
    case fits
    then have "malloc_loop room n q (hd (w # ws)) st = Some (take_block n q w st)" by (subst malloc_loop.simps) simp
    then show ?thesis using fits Cons.prems(5-7) by (intro disjI1 bexI [where x = q]) simp_all
  next
    case last
    then have "ws = []" using Cons.prems(3,4) by (cases ws rule: rev_cases) auto
    then show ?thesis using last by (subst (2) malloc_loop.simps) (simp split: option.splits prod.splits)
  next
    case more
    then have ws: "ws \<noteq> []" "h_ptr (hdrs st w) = hd ws" "links (hdrs st) ws z" using Cons.prems(1,3) by (auto split: list.splits)
    have "malloc_loop room n q (hd (w # ws)) st = malloc_loop room n w (hd ws) st" using more ws(2) by (subst malloc_loop.simps) simp
    then show ?thesis using Cons.IH [OF ws(3,1), of w] Cons.prems(3-5) ws(1,2) more(1) by simp
  qed
qed simp

text \<open>The whole ring, in the order of the scan.\<close>

lemma ring_walk:
  assumes "heap_ok base st fs A"
  shows "\<exists>ws z. links (hdrs st) ws z \<and> ws \<noteq> [] \<and> last ws = freep st \<and> distinct ws \<and> set ws = set (base # fs) \<and> h_ptr (hdrs st (freep st)) = hd ws"
proof -
  have R: "ring_ok base (brk st) (hdrs st) fs A" "freep st \<in> set (base # fs)" using assms by (auto simp: heap_ok_def)
  obtain us vs where s: "base # fs = us @ freep st # vs" using split_list [OF R(2)] by blast
  have d: "distinct (us @ freep st # vs)" using ring_okD(2) [OF R(1)] s by (metis strict_sorted_iff)
  have l: "links (hdrs st) us (freep st)" "links (hdrs st) vs base" "h_ptr (hdrs st (freep st)) = (case vs of [] \<Rightarrow> base | v # _ \<Rightarrow> v)"
    using ring_okD(1) [OF R(1)] unfolding s by (simp_all add: links_append)
  have h: "hd (us @ [freep st]) = base" using s by (cases us) auto
  have "links (hdrs st) (us @ [freep st]) (h_ptr (hdrs st (freep st)))" using l(1) by (simp add: links_append)
  then have "links (hdrs st) (vs @ us @ [freep st]) (h_ptr (hdrs st (freep st)))"
    using l(2) h links_append [of "hdrs st" vs "hd (us @ [freep st])" "tl (us @ [freep st])"] by (cases us) auto
  moreover have "hd (vs @ us @ [freep st]) = h_ptr (hdrs st (freep st))" using l(3) h by (cases vs) auto
  moreover have "set (vs @ us @ [freep st]) = set (base # fs)" unfolding s by auto
  ultimately show ?thesis using d by (intro exI [where x = "vs @ us @ [freep st]"] exI [where x = "h_ptr (hdrs st (freep st))"]) auto
qed

text \<open>A result of an allocation of \<open>n\<close> units: none, if no free block is large enough and the kernel has refused to extend the heap, or a new block of that size.\<close>

definition alloc_ok :: "(nat \<Rightarrow> bool) \<Rightarrow> nat \<Rightarrow> nat \<Rightarrow> uheap \<Rightarrow> nat set \<Rightarrow> nat \<Rightarrow> uheap \<Rightarrow> bool" where
  "alloc_ok room base n st A r st' \<longleftrightarrow>
     (\<forall>b\<in>A. h_size (hdrs st' b) = h_size (hdrs st b)) \<and>
     (if r = 0 then \<exists>fs. heap_ok base st' fs A \<and> (\<forall>f\<in>set fs. h_size (hdrs st' f) < n) \<and> \<not> room (brk st + max 4096 n * 16)
      else \<exists>a fs. r = a + 16 \<and> a \<notin> A \<and> h_size (hdrs st' a) = n \<and> heap_ok base st' fs (insert a A))"

lemma take_alloc:
  assumes H: "heap_ok base st fs A" and u: "u \<in> set (base # fs)" "h_ptr (hdrs st u) \<in> set (base # fs)" "n \<le> h_size (hdrs st (h_ptr (hdrs st u)))" and n: "0 < n"
  shows "\<exists>r st'. take_block n u (h_ptr (hdrs st u)) st = (r, st') \<and> r \<noteq> 0 \<and> alloc_ok room base n st A r st'"
proof -
  have "h_size (hdrs st base) = 0" using H by (simp add: heap_ok_def ring_ok_def)
  then have "h_ptr (hdrs st u) \<in> set fs" using u(2,3) n by auto
  from take_ok [OF H u(1) refl this n u(3)] obtain a st' fs' where
    "take_block n u (h_ptr (hdrs st u)) st = (a + 16, st')" "a \<notin> A" "heap_ok base st' fs' (insert a A)" "h_size (hdrs st' a) = n"
    "\<forall>b\<in>A. h_size (hdrs st' b) = h_size (hdrs st b)" by blast
  then show ?thesis by (intro exI [where x = "a + 16"] exI [where x = st']) (auto simp: alloc_ok_def)
qed

lemma malloc_loop_ok:
  assumes H: "heap_ok base st fs A" and room: "\<And>m. room m \<Longrightarrow> m \<le> 2 ^ 36" and n: "0 < n" "n * 16 < 2 ^ 31"
  shows "\<exists>r st'. malloc_loop room n (freep st) (h_ptr (hdrs st (freep st))) st = Some (r, st') \<and> alloc_ok room base n st A r st'"
proof -
  have step: "(\<exists>r st'. malloc_loop room n (freep st) (h_ptr (hdrs st (freep st))) st = Some (r, st') \<and> r \<noteq> 0 \<and> alloc_ok room base n st A r st') \<or>
      ((\<forall>w\<in>set (base # fs). h_size (hdrs st w) < n) \<and> malloc_loop room n (freep st) (h_ptr (hdrs st (freep st))) st =
        (case morecore room n st of None \<Rightarrow> None | Some (p, st) \<Rightarrow> if p = 0 then Some (0, st) else malloc_loop room n p (h_ptr (hdrs st p)) st))"
    if H: "heap_ok base st fs A" for st fs
  proof -
    obtain ws z where w: "links (hdrs st) ws z" "ws \<noteq> []" "last ws = freep st" "distinct ws" "set ws = set (base # fs)" "h_ptr (hdrs st (freep st)) = hd ws"
      using ring_walk [OF H] by blast
    have f: "freep st \<in> set (base # fs)" using H by (simp add: heap_ok_def)
    show ?thesis using scan [OF w(1-4) eq_refl [OF w(5)] f w(6), of n room] take_alloc [OF H _ _ _ n(1), where room = room] unfolding w(5,6) by fastforce
  qed
  consider "morecore room n st = Some (0, st)" "\<not> room (brk st + max 4096 n * 16)" | st' fs' where "morecore room n st = Some (freep st', st')" "heap_ok base st' fs' A"
      "\<forall>b\<in>A. h_size (hdrs st' b) = h_size (hdrs st b)" "n \<le> h_size (hdrs st' (freep st')) \<or> n \<le> h_size (hdrs st' (h_ptr (hdrs st' (freep st'))))"
    using morecore_ok [OF H room n(2)] by blast
  then show ?thesis
  proof cases
    case 1
    show ?thesis
    proof (cases "\<forall>w\<in>set (base # fs). h_size (hdrs st w) < n")
      case True
      then have "alloc_ok room base n st A 0 st" using H 1(2) by (auto simp: alloc_ok_def)
      then show ?thesis using step [OF H] 1(1) by auto
    next
      case False
      then show ?thesis using step [OF H] by blast
    qed
  next
    case 2
    have "freep st' \<in> set (base # fs')" "freep st' \<noteq> 0" using 2(2) ring_okD(7) [of base "brk st'" "hdrs st'" fs' A "freep st'"] by (auto simp: heap_ok_def)
    moreover have "h_ptr (hdrs st' (freep st')) \<in> set (base # fs')" using ring_walk [OF 2(2)] by (metis hd_in_set)
    ultimately have "\<not> (\<forall>w\<in>set (base # fs'). h_size (hdrs st' w) < n)" using 2(4) by (meson not_less)
    then obtain r st'' where r: "malloc_loop room n (freep st') (h_ptr (hdrs st' (freep st'))) st' = Some (r, st'')" "r \<noteq> 0" "alloc_ok room base n st' A r st''"
      using step [OF 2(2)] by blast
    then have "alloc_ok room base n st A r st''" using 2(3) by (auto simp: alloc_ok_def)
    then show ?thesis using step [OF H] 2(1) r(1) \<open>freep st' \<noteq> 0\<close> by auto
  qed
qed

subsection \<open>Properties\<close>

text \<open>The heap of a program before the first \<open>malloc\<close>, or with the blocks \<open>A\<close> in use.\<close>

definition heap_inv :: "nat \<Rightarrow> uheap \<Rightarrow> nat set \<Rightarrow> bool" where
  "heap_inv base st A \<longleftrightarrow>
     (if freep st = 0 then A = {} \<and> 0 < base \<and> base < brk st \<and> brk st \<le> 2 ^ 36 else \<exists>fs. heap_ok base st fs A)"

lemma heap_ok_freep: "heap_ok base st fs A \<Longrightarrow> freep st \<noteq> 0"
  using ring_okD(7) [of base "brk st" "hdrs st" fs A "freep st"] by (auto simp: heap_ok_def)

lemma first_ok:
  assumes "0 < base" "base < brk st" "brk st \<le> 2 ^ 36"
  shows "heap_ok base (st\<lparr>hdrs := upd_size base 0 (upd_ptr base base (hdrs st)), freep := base\<rparr>) [] {}"
  using assms by (simp add: heap_ok_def ring_ok_def disjoint_blocks_def touching_def upd_size_def upd_ptr_def)

lemma nunits_bounds:
  assumes "nbytes + 32 < 2 ^ 31"
  shows "0 < nunits_of nbytes" "nunits_of nbytes * 16 < 2 ^ 31" "nbytes \<le> 16 * (nunits_of nbytes - 1)"
proof -
  have "nunits_of nbytes = (nbytes + 15) div 16 + 1" using assms by (simp add: nunits_of_def wrap32_def)
  then show "0 < nunits_of nbytes" "nunits_of nbytes * 16 < 2 ^ 31" "nbytes \<le> 16 * (nunits_of nbytes - 1)" using assms by simp_all
qed

lemma malloc_keeps:
  assumes H: "heap_inv base st A" and room: "\<And>m. room m \<Longrightarrow> m \<le> 2 ^ 36" and n: "nbytes + 32 < 2 ^ 31"
  shows "\<exists>r st'. malloc room base nbytes st = Some (r, st') \<and> alloc_ok room base (nunits_of nbytes) st A r st'"
proof (cases "freep st = 0")
  case True
  let ?st = "st\<lparr>hdrs := upd_size base 0 (upd_ptr base base (hdrs st)), freep := base\<rparr>"
  have "heap_ok base ?st [] {}" and A: "A = {}" using H True by (auto simp: heap_inv_def intro: first_ok)
  from malloc_loop_ok [OF this(1) room nunits_bounds(1,2) [OF n]] obtain r st' where
    m: "malloc_loop room (nunits_of nbytes) (freep ?st) (h_ptr (hdrs ?st (freep ?st))) ?st = Some (r, st')" "alloc_ok room base (nunits_of nbytes) ?st {} r st'" by blast
  have "malloc room base nbytes st = Some (r, st')" using m(1) True by (simp add: malloc_def Let_def)
  moreover have "alloc_ok room base (nunits_of nbytes) st A r st'" 
  proof -
    have "brk ?st = brk st" by simp
    then show ?thesis using m(2) unfolding A alloc_ok_def by (simp only: ball_empty)
  qed
  ultimately show ?thesis by blast
next
  case False
  then obtain fs where "heap_ok base st fs A" using H by (auto simp: heap_inv_def)
  from malloc_loop_ok [OF this room nunits_bounds(1,2) [OF n]] show ?thesis using False by (simp add: malloc_def Let_def)
qed

definition x_heap :: uheap where
  "x_heap = \<lparr>hdrs = (\<lambda>_. \<lparr>h_ptr = 0, h_size = 0\<rparr>), freep = 0, brk = 8192\<rparr>"

lemma x_heap_inv: "heap_inv 4096 x_heap {}"
  by (simp add: heap_inv_def x_heap_def)

text \<open>C7: \<open>malloc\<close> returns for every request of at most \<open>2 ^ 31 - 33\<close> bytes.  Its result is a block that was not in use, that overlaps no other block in use
  and no free block, and that has room for the bytes asked for; or it is 0, with the heap still well formed, and then no free block is large
  enough and the kernel has refused to extend the heap.  The blocks in use keep their sizes.\<close>

theorem malloc_safe:
  assumes "heap_inv base st A" "\<forall>m. room m \<longrightarrow> m \<le> 2 ^ 36" "nbytes + 32 < 2 ^ 31"
  shows "\<exists>r st'. malloc room base nbytes st = Some (r, st') \<and> (\<forall>b\<in>A. h_size (hdrs st' b) = h_size (hdrs st b)) \<and>
    (if r = 0 then heap_inv base st' A \<and> \<not> room (brk st + max 4096 (nunits_of nbytes) * 16) \<and>
       (\<exists>fs. ring_ok base (brk st') (hdrs st') fs A \<and> (\<forall>f\<in>set fs. h_size (hdrs st' f) < nunits_of nbytes))
     else \<exists>a. r = a + 16 \<and> a \<notin> A \<and> nbytes \<le> 16 * (h_size (hdrs st' a) - 1) \<and> heap_inv base st' (insert a A) \<and>
       disjoint_blocks (hdrs st') (insert a A))"
proof -
  obtain r st' where m: "malloc room base nbytes st = Some (r, st')" "alloc_ok room base (nunits_of nbytes) st A r st'"
    using malloc_keeps [OF assms(1) _ assms(3), of room] assms(2) by blast
  have d: "heap_ok base st' fs B \<Longrightarrow> heap_inv base st' B \<and> disjoint_blocks (hdrs st') B \<and> ring_ok base (brk st') (hdrs st') fs B" for fs B
    using heap_ok_freep [of base st' fs B] by (auto simp: heap_inv_def heap_ok_def ring_ok_def disjoint_blocks_def)
  show ?thesis
  proof (cases "r = 0")
    case True
    then show ?thesis using m d unfolding alloc_ok_def by (intro exI [where x = r] exI [where x = st']) auto
  next
    case False
    then show ?thesis using m nunits_bounds(3) [OF assms(3)] d unfolding alloc_ok_def by (intro exI [where x = r] exI [where x = st']) auto
  qed
qed

text \<open>The first request of a program gets memory, as the kernel has room.\<close>

theorem malloc_safe_witness:
  "heap_inv 4096 x_heap {} \<and> (\<exists>r st'. malloc (\<lambda>m. m \<le> 2 ^ 27) 4096 100 x_heap = Some (r, st') \<and> 16 \<le> r)"
proof -
  let ?room = "\<lambda>m :: nat. m \<le> 2 ^ 27"
  have b: "\<forall>m. ?room m \<longrightarrow> m \<le> 2 ^ 36" "(100 :: nat) + 32 < 2 ^ 31" by auto
  have "?room (brk x_heap + max 4096 (nunits_of 100) * 16)" by (simp add: x_heap_def nunits_of_def wrap32_def)
  then show ?thesis using malloc_safe [OF x_heap_inv b] x_heap_inv by (metis le_add2)
qed

text \<open>C8: \<open>free\<close> of a block in use returns, whatever the order in which blocks are freed.  The block goes back to the free list: the memory of the free
  blocks afterwards is that of the free blocks before together with that of the block, and the list is again a ring in order of address whose
  blocks overlap nothing in use and never touch each other, so that adjacent free blocks have been merged.  The other blocks in use keep
  their sizes.\<close>

theorem free_keeps_heap:
  assumes "heap_ok base st fs A" "a \<in> A"
  shows "\<exists>st' fs'. ufree (a + 16) st = Some st' \<and> heap_ok base st' fs' (A - {a}) \<and>
    span (hdrs st') (set fs') = span (hdrs st) (set fs) \<union> {a..<bend (hdrs st) a} \<and> touching (hdrs st') fs' = {} \<and> brk st' = brk st \<and>
    (\<forall>b\<in>A - {a}. h_size (hdrs st' b) = h_size (hdrs st b))"
proof -
  from ufree_ok [OF assms] obtain st' fs' where u: "ufree (a + 16) st = Some st'" "heap_ok base st' fs' (A - {a})" "brk st' = brk st"
    "\<forall>b\<in>A - {a}. h_size (hdrs st' b) = h_size (hdrs st b)" "span (hdrs st') (set fs') = span (hdrs st) (insert a (set fs))" by blast
  then show ?thesis by (intro exI [where x = st'] exI [where x = fs']) (auto simp: heap_ok_def span_def)
qed

definition x_used :: uheap where
  "x_used = \<lparr>hdrs = (\<lambda>_. \<lparr>h_ptr = 0, h_size = 0\<rparr>)(4096 := \<lparr>h_ptr = 4096, h_size = 0\<rparr>, 5000 := \<lparr>h_ptr = 0, h_size = 3\<rparr>), freep = 4096, brk = 8192\<rparr>"

theorem free_keeps_heap_witness:
  "heap_ok 4096 x_used [] {5000} \<and> (\<exists>st' fs'. ufree 5016 x_used = Some st' \<and> heap_ok 4096 st' fs' {} \<and> span (hdrs st') (set fs') = {5000..<5048})"
proof -
  have h: "heap_ok 4096 x_used [] {5000}"
    by (simp add: heap_ok_def ring_ok_def x_used_def disjoint_blocks_def touching_def bend_def)
  have s: "span (hdrs x_used) (set []) \<union> {5000..<bend (hdrs x_used) 5000} = {5000..<5048}" by (simp add: span_def bend_def x_used_def)
  show ?thesis using free_keeps_heap [OF h, of 5000] h unfolding s by auto
qed

text \<open>A request of 2 GB makes \<open>morecore\<close> call \<open>sbrk\<close> with a negative number, which leaves the break where it is and
  reports success: \<open>malloc\<close> returns memory the program does not have.\<close>

lemma malloc_2GB: "\<exists>st'. malloc (\<lambda>m. m \<le> 2 ^ 27) 4096 (2 ^ 31) x_heap = Some (8208, st') \<and> brk st' = 8192"
proof -
  let ?st = "x_heap\<lparr>hdrs := upd_size 4096 0 (upd_ptr 4096 4096 (hdrs x_heap)), freep := 4096\<rparr>" and ?n = "134217729 :: nat"
  let ?r = "\<lambda>m :: nat. m \<le> 2 ^ 27"
  have f: "free_find (hdrs (?st\<lparr>hdrs := upd_size 8192 ?n (hdrs ?st)\<rparr>)) 8192 4096 = Some 4096"
    by (subst free_find.simps) (simp add: upd_size_def upd_ptr_def)
  let ?su = "?st\<lparr>hdrs := free_link 8192 4096 (upd_size 8192 ?n (hdrs ?st)), freep := 4096\<rparr>"
  have m: "morecore ?r ?n ?st = Some (4096, ?su)"
    using f by (simp add: morecore_def to_int32_def Let_def sbrk_def ufree_def x_heap_def)
  have l: "h_ptr (hdrs ?su 4096) = 8192" "h_size (hdrs ?su 8192) = ?n" by (simp_all add: free_link_def upd_size_def upd_ptr_def x_heap_def Let_def)
  have "malloc_loop ?r ?n 4096 4096 ?st = malloc_loop ?r ?n 4096 8192 ?su"
    using m l(1) by (subst malloc_loop.simps) (simp add: upd_size_def)
  also have "\<dots> = Some (take_block ?n 4096 8192 ?su)" using l(2) by (subst malloc_loop.simps) simp
  finally have "malloc ?r 4096 (2 ^ 31) x_heap = Some (take_block ?n 4096 8192 ?su)"
    by (simp add: malloc_def nunits_of_def wrap32_def x_heap_def upd_size_def upd_ptr_def Let_def)
  then show ?thesis using l(2) by (simp add: take_block_def x_heap_def)
qed

end
