(* ===== verification/Sh.thy ===== *)
theory Sh
  imports Print Fcntl
begin

text \<open>
  The parser of the shell, \<^verbatim>\<open>user/sh.c\<close>.  The line is the list of its bytes before the NUL, and a pointer
  into it an offset; \<open>*es\<close>, one past the end, is the NUL.  A call of \<open>panic\<close> ends the parse with its message
  (\<open>Inl\<close>).  The mutually recursive functions are given fuel; the theorems show that the fuel
  of \<open>parsecmd\<close> is enough and that \<open>nulterminate\<close> leaves the words of the command as C strings.
\<close>

subsection \<open>Tokens\<close>

definition whitespace :: "uchar list" where
  "whitespace = [32, 9, 13, 10, 11]"

definition symbols :: "uchar list" where
  "symbols = bytes ''<|>&;()''"

definition at :: "uchar list \<Rightarrow> nat \<Rightarrow> uchar" where
  "at buf s = (if s < length buf then buf ! s else 0)"

function skip_ws :: "uchar list \<Rightarrow> nat \<Rightarrow> nat" where
  "skip_ws buf s = (if s < length buf \<and> at buf s \<in> set whitespace then skip_ws buf (s + 1) else s)"
  by pat_completeness auto
termination by (relation "measure (\<lambda>(b, s). length b - s)") auto

declare skip_ws.simps [simp del]

function skip_word :: "uchar list \<Rightarrow> nat \<Rightarrow> nat" where
  "skip_word buf s = (if s < length buf \<and> at buf s \<notin> set whitespace \<and> at buf s \<notin> set symbols
     then skip_word buf (s + 1) else s)"
  by pat_completeness auto
termination by (relation "measure (\<lambda>(b, s). length b - s)") auto

declare skip_word.simps [simp del]

text \<open>The result: the kind of the token, its start, its end, and the new position.\<close>

definition gettoken :: "uchar list \<Rightarrow> nat \<Rightarrow> uchar \<times> nat \<times> nat \<times> nat" where
  "gettoken buf s0 =
     (let s = skip_ws buf s0; q = s; c = at buf s;
          (r, s) = (if c = 0 then (0, s)
                    else if c \<in> set (bytes ''|();&<'') then (c, s + 1)
                    else if c = 62 then (if at buf (s + 1) = 62 then (43, s + 2) else (c, s + 1))
                    else (97, skip_word buf s))
      in (r, q, s, skip_ws buf s))"

definition peek :: "uchar list \<Rightarrow> nat \<Rightarrow> uchar list \<Rightarrow> bool \<times> nat" where
  "peek buf s0 toks = (let s = skip_ws buf s0 in (at buf s \<noteq> 0 \<and> at buf s \<in> set toks, s))"

subsection \<open>Commands\<close>

datatype cmd = Exec "(nat \<times> nat) list" | Redir cmd nat nat int int | Pipe cmd cmd | Listc cmd cmd | Back cmd

definition MAXARGS :: nat where "MAXARGS = 10"

type_synonym 'a presult = "string + 'a"

definition pbind :: "'a presult \<Rightarrow> ('a \<Rightarrow> 'b presult) \<Rightarrow> 'b presult" where
  "pbind r f = (case r of Inl e \<Rightarrow> Inl e | Inr a \<Rightarrow> f a)"

text \<open>A redirection wraps the command; while the arguments are still being read the code keeps adding
  them to the innermost \<open>execcmd\<close>, so the wrappers are collected and put around it at the end.\<close>

type_synonym redir = "nat \<times> nat \<times> int \<times> int"

definition redircmd :: "cmd \<Rightarrow> redir \<Rightarrow> cmd" where
  "redircmd c r = (case r of (q, eq, mode, fd) \<Rightarrow> Redir c q eq mode fd)"

lemma skip_ws_ge: "s \<le> skip_ws buf s" "s \<le> length buf \<Longrightarrow> skip_ws buf s \<le> length buf"
  by (induction buf s rule: skip_ws.induct) (subst skip_ws.simps; force)+

lemma skip_word_ge: "s \<le> skip_word buf s" "s \<le> length buf \<Longrightarrow> skip_word buf s \<le> length buf"
  by (induction buf s rule: skip_word.induct) (subst skip_word.simps; force)+

lemma skip_word_less: "s < length buf \<Longrightarrow> at buf s \<notin> set whitespace \<Longrightarrow> at buf s \<notin> set symbols \<Longrightarrow> s < skip_word buf s"
  using skip_word_ge(1) [of "s + 1" buf] by (subst skip_word.simps) simp

lemma at_nz: "at buf s \<noteq> 0 \<Longrightarrow> s < length buf"
  by (auto simp: at_def split: if_splits)

lemma skip_ws_stop: "skip_ws buf s < length buf \<Longrightarrow> at buf (skip_ws buf s) \<notin> set whitespace"
proof (induction buf s rule: skip_ws.induct)
  case (1 buf s)
  show ?case
  proof (cases "s < length buf \<and> at buf s \<in> set whitespace")
    case True
    then have "skip_ws buf s = skip_ws buf (s + 1)" by (subst skip_ws.simps) simp
    then show ?thesis using 1 True by simp
  next
    case False
    then have "skip_ws buf s = s" by (subst skip_ws.simps) auto
    then show ?thesis using 1(2) False by auto
  qed
qed

lemma symbol_cases:
  "c \<in> set symbols \<longleftrightarrow> c \<in> set (bytes ''|();&<'') \<or> c = 62"
  by (auto simp: symbols_def bytes_def)

lemma gettoken_pos:
  assumes "gettoken buf s = (r, q, e, s')"
  shows "s \<le> q" "q \<le> e" "e \<le> s'" "r \<noteq> 0 \<Longrightarrow> q < e \<and> at buf q \<noteq> 0" "s \<le> length buf \<Longrightarrow> s' \<le> length buf" "r = 0 \<Longrightarrow> at buf q = 0"
proof -
  let ?s = "skip_ws buf s"
  let ?c = "at buf ?s"
  have q: "q = ?s" and s': "s' = skip_ws buf e" using assms by (auto simp: gettoken_def Let_def split: prod.splits)
  show "s \<le> q" using skip_ws_ge(1) q by simp
  show "e \<le> s'" using skip_ws_ge(1) s' by simp
  have "(r = 0 \<and> ?c = 0 \<and> e = ?s) \<or> (r \<noteq> 0 \<and> ?c \<noteq> 0 \<and> ?s < e \<and> e \<le> length buf)"
  proof (cases "?c = 0")
    case True
    then show ?thesis using assms by (auto simp: gettoken_def Let_def)
  next
    case nz: False
    then have lt: "?s < length buf" by (rule at_nz)
    show ?thesis
    proof (cases "?c \<in> set symbols")
      case True
      then show ?thesis using assms nz lt at_nz [of buf "?s + 1"]
        by (auto simp: gettoken_def Let_def symbol_cases bytes_def split: if_splits)
    next
      case False
      then have "r = 97" "e = skip_word buf ?s" using assms nz by (auto simp: gettoken_def Let_def symbol_cases split: if_splits)
      then show ?thesis using nz skip_word_less [OF lt skip_ws_stop [OF lt] False] skip_word_ge(2) [of ?s buf] lt by auto
    qed
  qed
  note e = this
  show "q \<le> e" "r \<noteq> 0 \<Longrightarrow> q < e \<and> at buf q \<noteq> 0" "r = 0 \<Longrightarrow> at buf q = 0" using e q by auto
  show "s' \<le> length buf" if "s \<le> length buf"
    using e s' skip_ws_ge(2) that by auto
qed

lemma peek_pos: "peek buf s toks = (b, s') \<Longrightarrow> s \<le> s'" "peek buf s toks = (b, s') \<Longrightarrow> s \<le> length buf \<Longrightarrow> s' \<le> length buf"
  "peek buf s toks = (True, s') \<Longrightarrow> at buf s' \<noteq> 0 \<and> skip_ws buf s' = s'"
  using skip_ws_ge skip_ws_stop [of buf s] by (auto simp: peek_def Let_def skip_ws.simps [of buf "skip_ws buf s"] dest: at_nz)

lemma peek_get: "peek buf s toks = (True, s1) \<Longrightarrow> gettoken buf s1 = (r, q, e, s2) \<Longrightarrow> s1 < s2 \<and> r \<noteq> 0"
  using peek_pos(3) [of buf s toks s1] gettoken_pos [of buf s1 r q e s2] by (fastforce simp: gettoken_def Let_def split: if_splits prod.splits)

lemma pbind_cong [fundef_cong]: "r = r' \<Longrightarrow> (\<And>a. r' = Inr a \<Longrightarrow> f a = g a) \<Longrightarrow> pbind r f = pbind r' g"
  by (auto simp: pbind_def split: sum.splits)

lemma pbind_Inr [simp]: "pbind r f = Inr b \<longleftrightarrow> (\<exists>a. r = Inr a \<and> f a = Inr b)"
  "pbind (Inr a) f = f a" "pbind (Inl e) f = Inl e"
  by (auto simp: pbind_def split: sum.splits)

subsection \<open>The parser\<close>

definition redir_of :: "uchar \<Rightarrow> nat \<Rightarrow> nat \<Rightarrow> redir" where
  "redir_of tok q e =
     (if tok = 60 then (q, e, O_RDONLY, 0)
      else if tok = 62 then (q, e, O_WRONLY + O_CREATE + O_TRUNC, 1)
      else (q, e, O_WRONLY + O_CREATE, 1))"

lemma redir_step:
  assumes "(True, s1) = peek buf s toks" "(tok, q0, e0, s2) = gettoken buf s1" "(a, q, e, s3) = gettoken buf s2"
  shows "length buf - s3 < length buf - s"
  using peek_pos(1,3) [OF assms(1) [symmetric]] peek_get [OF assms(1,2) [symmetric]] gettoken_pos(1-3) [OF assms(3) [symmetric]] at_nz [of buf s1]
  by auto

function parseredirs :: "uchar list \<Rightarrow> nat \<Rightarrow> (redir list \<times> nat) presult" where
  "parseredirs buf s =
     (case peek buf s (bytes ''<>'') of (b, s1) \<Rightarrow>
      if \<not> b then Inr ([], s1)
      else case gettoken buf s1 of (tok, q0, e0, s2) \<Rightarrow>
        case gettoken buf s2 of (a, q, e, s3) \<Rightarrow>
        if a \<noteq> 97 then Inl ''missing file for redirection''
        else pbind (parseredirs buf s3) (\<lambda>(rs, s4). Inr (redir_of tok q e # rs, s4)))"
  by pat_completeness auto
termination by (relation "measure (\<lambda>(b, s). length b - s)") (auto intro: redir_step)

declare parseredirs.simps [simp del]

lemma parseredirs_pos: "parseredirs buf s = Inr (rs, s') \<Longrightarrow> s \<le> s' \<and> (s \<le> length buf \<longrightarrow> s' \<le> length buf)"
proof (induction buf s arbitrary: rs s' rule: parseredirs.induct)
  case (1 buf s)
  obtain b s1 where p: "peek buf s (bytes ''<>'') = (b, s1)" by fastforce
  obtain tok q0 e0 s2 where g: "gettoken buf s1 = (tok, q0, e0, s2)" by (metis prod_cases4)
  obtain a q e s3 where h: "gettoken buf s2 = (a, q, e, s3)" by (metis prod_cases4)
  note pos = peek_pos(1,2) [OF p] gettoken_pos(1-3,5) [OF g] gettoken_pos(1-3,5) [OF h]
  show ?case
  proof (cases b)
    case False
    then show ?thesis using 1(2) p pos by (auto simp: parseredirs.simps [of buf s])
  next
    case True
    then obtain rs' where r: "parseredirs buf s3 = Inr (rs', s')" "a = 97"
      using 1(2) p g h by (auto simp: parseredirs.simps [of buf s] split: if_splits)
    from 1(1) [OF p [symmetric] _ g [symmetric] refl refl h [symmetric] refl refl _ r(1)] True r(2) show ?thesis using pos by auto
  qed
qed

lemma args_step:
  assumes "(b, s1) = peek buf s toks" "(tok, q, e, s2) = gettoken buf s1" "tok \<noteq> 0" "parseredirs buf s2 = Inr (rs, s3)"
  shows "length buf - s3 < length buf - s"
  using peek_pos(1) [OF assms(1) [symmetric]] gettoken_pos(1-4) [OF assms(2) [symmetric]] parseredirs_pos [OF assms(4)] assms(3) at_nz [of buf q]
  by auto

function parseargs :: "uchar list \<Rightarrow> nat \<Rightarrow> (nat \<times> nat) list \<Rightarrow> redir list \<Rightarrow> ((nat \<times> nat) list \<times> redir list \<times> nat) presult" where
  "parseargs buf s args rs =
     (case peek buf s (bytes ''|)&;'') of (b, s1) \<Rightarrow>
      if b then Inr (args, rs, s1)
      else case gettoken buf s1 of (tok, q, e, s2) \<Rightarrow>
        if tok = 0 then Inr (args, rs, s2)
        else if tok \<noteq> 97 then Inl ''syntax''
        else if length (args @ [(q, e)]) \<ge> MAXARGS then Inl ''too many args''
        else pbind (parseredirs buf s2) (\<lambda>(rs', s3). parseargs buf s3 (args @ [(q, e)]) (rs @ rs')))"
  by pat_completeness auto
termination by (relation "measure (\<lambda>(b, s, a, r). length b - s)") (auto intro: args_step)

declare parseargs.simps [simp del]

lemma back_step:
  assumes "(True, s1) = peek buf s toks" "(tok, q, e, s2) = gettoken buf s1"
  shows "length buf - s2 < length buf - s"
  using peek_pos(1,3) [OF assms(1) [symmetric]] peek_get [OF assms [symmetric]] at_nz [of buf s1] by auto

function back_loop :: "uchar list \<Rightarrow> nat \<Rightarrow> cmd \<Rightarrow> cmd \<times> nat" where
  "back_loop buf s c =
     (case peek buf s (bytes ''&'') of (b, s1) \<Rightarrow>
      if b then (case gettoken buf s1 of (tok, q, e, s2) \<Rightarrow> back_loop buf s2 (Back c)) else (c, s1))"
  by pat_completeness auto
termination by (relation "measure (\<lambda>(b, s, c). length b - s)") (auto intro: back_step)

declare back_loop.simps [simp del]

fun parseline :: "nat \<Rightarrow> uchar list \<Rightarrow> nat \<Rightarrow> (cmd \<times> nat) presult"
  and parsepipe :: "nat \<Rightarrow> uchar list \<Rightarrow> nat \<Rightarrow> (cmd \<times> nat) presult"
  and parseexec :: "nat \<Rightarrow> uchar list \<Rightarrow> nat \<Rightarrow> (cmd \<times> nat) presult"
  and parseblock :: "nat \<Rightarrow> uchar list \<Rightarrow> nat \<Rightarrow> (cmd \<times> nat) presult" where
  "parseline 0 buf s = Inl ''fuel''"
| "parseline (Suc n) buf s =
     pbind (parsepipe n buf s) (\<lambda>(c, s1).
     case back_loop buf s1 c of (c, s2) \<Rightarrow>
     case peek buf s2 (bytes '';'') of (b, s3) \<Rightarrow>
     if b then case gettoken buf s3 of (tok, q, e, s4) \<Rightarrow>
       pbind (parseline n buf s4) (\<lambda>(d, s5). Inr (Listc c d, s5))
     else Inr (c, s3))"
| "parsepipe 0 buf s = Inl ''fuel''"
| "parsepipe (Suc n) buf s =
     pbind (parseexec n buf s) (\<lambda>(c, s1).
     case peek buf s1 (bytes ''|'') of (b, s2) \<Rightarrow>
     if b then case gettoken buf s2 of (tok, q, e, s3) \<Rightarrow>
       pbind (parsepipe n buf s3) (\<lambda>(d, s4). Inr (Pipe c d, s4))
     else Inr (c, s2))"
| "parseexec 0 buf s = Inl ''fuel''"
| "parseexec (Suc n) buf s =
     (case peek buf s (bytes ''('') of (b, s1) \<Rightarrow>
      if b then parseblock n buf s1
      else pbind (parseredirs buf s1) (\<lambda>(rs, s2).
        pbind (parseargs buf s2 [] rs) (\<lambda>(args, rs', s3).
        Inr (foldl redircmd (Exec args) rs', s3))))"
| "parseblock 0 buf s = Inl ''fuel''"
| "parseblock (Suc n) buf s =
     (case peek buf s (bytes ''('') of (b, s1) \<Rightarrow>
      if \<not> b then Inl ''parseblock''
      else case gettoken buf s1 of (tok, q, e, s2) \<Rightarrow>
        pbind (parseline n buf s2) (\<lambda>(c, s3).
        case peek buf s3 (bytes '')'') of (b', s4) \<Rightarrow>
        if \<not> b' then Inl ''syntax - missing )''
        else case gettoken buf s4 of (tok', q', e', s5) \<Rightarrow>
          pbind (parseredirs buf s5) (\<lambda>(rs, s6). Inr (foldl redircmd c rs, s6))))"

fun nulterminate :: "cmd \<Rightarrow> uchar list \<Rightarrow> uchar list" where
  "nulterminate (Exec args) buf = foldl (\<lambda>b a. b[snd a := 0]) buf args"
| "nulterminate (Redir c q e mode fd) buf = (nulterminate c buf)[e := 0]"
| "nulterminate (Pipe l r) buf = nulterminate r (nulterminate l buf)"
| "nulterminate (Listc l r) buf = nulterminate r (nulterminate l buf)"
| "nulterminate (Back c) buf = nulterminate c buf"

text \<open>\<open>parsecmd\<close> returns the command and the buffer, its final NUL included.\<close>

definition parsecmd :: "uchar list \<Rightarrow> (cmd \<times> uchar list) presult" where
  "parsecmd buf =
     pbind (parseline (4 * length buf + 4) buf 0) (\<lambda>(c, s).
     case peek buf s [] of (b, s') \<Rightarrow>
     if s' \<noteq> length buf then Inl ''syntax'' else Inr (c, nulterminate c (buf @ [0])))"

subsection \<open>Positions and fuel\<close>

lemma parseargs_pos: "parseargs buf s args rs = Inr (args', rs', s') \<Longrightarrow> s \<le> s' \<and> (s \<le> length buf \<longrightarrow> s' \<le> length buf)"
proof (induction "length buf - s" arbitrary: s args rs rule: less_induct)
  case less
  obtain b s1 where p: "peek buf s (bytes ''|)&;'') = (b, s1)" by fastforce
  obtain tok q e s2 where g: "gettoken buf s1 = (tok, q, e, s2)" by (metis prod_cases4)
  note pos = peek_pos(1,2) [OF p] gettoken_pos(1-3,5) [OF g]
  note unf = parseargs.simps [of buf s args rs]
  consider "b \<or> tok = 0" | rs1 s3 where "tok \<noteq> 0" "parseredirs buf s2 = Inr (rs1, s3)" "parseargs buf s3 (args @ [(q, e)]) (rs @ rs1) = Inr (args', rs', s')"
    using less(2) p g by (auto simp: unf split: if_splits)
  then show ?case
  proof cases
    case 1
    then show ?thesis using less(2) p g pos by (auto simp: unf split: if_splits)
  next
    case (2 rs1 s3)
    have "length buf - s3 < length buf - s" by (rule args_step [OF p [symmetric] g [symmetric] 2(1,2)])
    from less(1) [OF this 2(3)] parseredirs_pos [OF 2(2)] pos show ?thesis by auto
  qed
qed

lemma back_loop_pos: "back_loop buf s c = (c', s') \<Longrightarrow> s \<le> s' \<and> (s \<le> length buf \<longrightarrow> s' \<le> length buf)"
proof (induction "length buf - s" arbitrary: s c rule: less_induct)
  case less
  obtain b s1 where p: "peek buf s (bytes ''&'') = (b, s1)" by fastforce
  obtain tok q e s2 where g: "gettoken buf s1 = (tok, q, e, s2)" by (metis prod_cases4)
  note pos = peek_pos(1,2) [OF p] gettoken_pos(1-3,5) [OF g]
  show ?case
  proof (cases b)
    case True
    then have "back_loop buf s2 (Back c) = (c', s')" using less(2) p g by (simp add: back_loop.simps [of buf s c])
    moreover have "length buf - s2 < length buf - s" using back_step p g True by metis
    ultimately show ?thesis using less(1) [of s2 "Back c"] pos by fastforce
  next
    case False
    then show ?thesis using less(2) p pos by (simp add: back_loop.simps [of buf s c])
  qed
qed

definition moves :: "uchar list \<Rightarrow> nat \<Rightarrow> (cmd \<times> nat) presult \<Rightarrow> bool" where
  "moves buf s r \<longleftrightarrow> (\<forall>c s'. r = Inr (c, s') \<longrightarrow> s \<le> s' \<and> s' \<le> length buf)"

lemma moves_parseline:
  assumes s: "s \<le> length buf" and ih1: "\<And>s. s \<le> length buf \<Longrightarrow> moves buf s (parseline n buf s)" and ih2: "\<And>s. s \<le> length buf \<Longrightarrow> moves buf s (parsepipe n buf s)"
  shows "moves buf s (parseline (Suc n) buf s)"
  unfolding moves_def
proof (intro allI impI)
  fix c s' assume r: "parseline (Suc n) buf s = Inr (c, s')"
  then obtain c1 s1 where a1: "parsepipe n buf s = Inr (c1, s1)" by auto
  obtain c2 s2 where a2: "back_loop buf s1 c1 = (c2, s2)" by fastforce
  obtain b s3 where a3: "peek buf s2 (bytes '';'') = (b, s3)" by fastforce
  obtain tok q e s4 where a4: "gettoken buf s3 = (tok, q, e, s4)" by (metis prod_cases4)
  have "s' = s3 \<or> (\<exists>d. parseline n buf s4 = Inr (d, s'))" using r a1 a2 a3 a4 by (auto split: if_splits)
  moreover have "s \<le> s1" "s1 \<le> length buf" using ih2 [OF s] a1 by (auto simp: moves_def)
  moreover note back_loop_pos [OF a2] peek_pos(1,2) [OF a3] gettoken_pos(1-3,5) [OF a4]
  moreover have "s4 \<le> length buf \<Longrightarrow> parseline n buf s4 = Inr (d, s') \<Longrightarrow> s4 \<le> s' \<and> s' \<le> length buf" for d
    using ih1 [of s4] by (auto simp: moves_def)
  ultimately show "s \<le> s' \<and> s' \<le> length buf" by fastforce
qed

lemma moves_parsepipe:
  assumes s: "s \<le> length buf" and ih2: "\<And>s. s \<le> length buf \<Longrightarrow> moves buf s (parsepipe n buf s)" and ih3: "\<And>s. s \<le> length buf \<Longrightarrow> moves buf s (parseexec n buf s)"
  shows "moves buf s (parsepipe (Suc n) buf s)"
  unfolding moves_def
proof (intro allI impI)
  fix c s' assume r: "parsepipe (Suc n) buf s = Inr (c, s')"
  then obtain c1 s1 where a1: "parseexec n buf s = Inr (c1, s1)" by auto
  obtain b s2 where a2: "peek buf s1 (bytes ''|'') = (b, s2)" by fastforce
  obtain tok q e s3 where a3: "gettoken buf s2 = (tok, q, e, s3)" by (metis prod_cases4)
  have "s' = s2 \<or> (\<exists>d. parsepipe n buf s3 = Inr (d, s'))" using r a1 a2 a3 by (auto split: if_splits)
  moreover have "s \<le> s1" "s1 \<le> length buf" using ih3 [OF s] a1 by (auto simp: moves_def)
  moreover note peek_pos(1,2) [OF a2] gettoken_pos(1-3,5) [OF a3]
  moreover have "s3 \<le> length buf \<Longrightarrow> parsepipe n buf s3 = Inr (d, s') \<Longrightarrow> s3 \<le> s' \<and> s' \<le> length buf" for d
    using ih2 [of s3] by (auto simp: moves_def)
  ultimately show "s \<le> s' \<and> s' \<le> length buf" by fastforce
qed

lemma moves_parseexec:
  assumes s: "s \<le> length buf" and ih4: "\<And>s. s \<le> length buf \<Longrightarrow> moves buf s (parseblock n buf s)"
  shows "moves buf s (parseexec (Suc n) buf s)"
  unfolding moves_def
proof (intro allI impI)
  fix c s' assume r: "parseexec (Suc n) buf s = Inr (c, s')"
  obtain b s1 where p: "peek buf s (bytes ''('') = (b, s1)" by fastforce
  note pos = peek_pos(1,2) [OF p]
  show "s \<le> s' \<and> s' \<le> length buf"
  proof (cases b)
    case True
    then have "parseblock n buf s1 = Inr (c, s')" using r p by simp
    then show ?thesis using ih4 [of s1] pos s by (fastforce simp: moves_def)
  next
    case False
    then obtain rs s2 args rs' where "parseredirs buf s1 = Inr (rs, s2)" "parseargs buf s2 [] rs = Inr (args, rs', s')" using r p by auto
    then show ?thesis using parseredirs_pos parseargs_pos pos s by fastforce
  qed
qed

lemma moves_parseblock:
  assumes s: "s \<le> length buf" and ih1: "\<And>s. s \<le> length buf \<Longrightarrow> moves buf s (parseline n buf s)"
  shows "moves buf s (parseblock (Suc n) buf s)"
  unfolding moves_def
proof (intro allI impI)
  fix c s' assume r: "parseblock (Suc n) buf s = Inr (c, s')"
  obtain b s1 where a1: "peek buf s (bytes ''('') = (b, s1)" by fastforce
  obtain tok q e s2 where a2: "gettoken buf s1 = (tok, q, e, s2)" by (metis prod_cases4)
  from r a1 a2 obtain c1 s3 where a3: "parseline n buf s2 = Inr (c1, s3)" by (auto split: if_splits)
  obtain b' s4 where a4: "peek buf s3 (bytes '')'') = (b', s4)" by fastforce
  obtain tok' q' e' s5 where a5: "gettoken buf s4 = (tok', q', e', s5)" by (metis prod_cases4)
  obtain rs where a6: "parseredirs buf s5 = Inr (rs, s')" using r a1 a2 a3 a4 a5 by (auto split: if_splits)
  note peek_pos(1,2) [OF a1] gettoken_pos(1-3,5) [OF a2] peek_pos(1,2) [OF a4] gettoken_pos(1-3,5) [OF a5] parseredirs_pos [OF a6]
  moreover have "s2 \<le> length buf \<Longrightarrow> s2 \<le> s3 \<and> s3 \<le> length buf" using ih1 [of s2] a3 by (auto simp: moves_def)
  ultimately show "s \<le> s' \<and> s' \<le> length buf" using s by linarith
qed

lemma parse_moves:
  "s \<le> length buf \<Longrightarrow> moves buf s (parseline n buf s)"
  "s \<le> length buf \<Longrightarrow> moves buf s (parsepipe n buf s)"
  "s \<le> length buf \<Longrightarrow> moves buf s (parseexec n buf s)"
  "s \<le> length buf \<Longrightarrow> moves buf s (parseblock n buf s)"
proof (induction n arbitrary: s)
  case (Suc n)
  {
    case 1
    then show ?case by (rule moves_parseline [OF _ Suc.IH(1,2)])
  next
    case 2
    then show ?case by (rule moves_parsepipe [OF _ Suc.IH(2,3)])
  next
    case 3
    then show ?case by (rule moves_parseexec [OF _ Suc.IH(4)])
  next
    case 4
    then show ?case by (rule moves_parseblock [OF _ Suc.IH(1)])
  }
qed (simp_all add: moves_def)

text \<open>Fuel: four calls deep for every byte of the line that is left.\<close>

lemma parseredirs_msg: "parseredirs buf s \<noteq> Inl ''fuel''"
proof (induction "length buf - s" arbitrary: s rule: less_induct)
  case less
  obtain b s1 where p: "peek buf s (bytes ''<>'') = (b, s1)" by fastforce
  obtain tok q0 e0 s2 where g: "gettoken buf s1 = (tok, q0, e0, s2)" by (metis prod_cases4)
  obtain a q e s3 where h: "gettoken buf s2 = (a, q, e, s3)" by (metis prod_cases4)
  have "parseredirs buf s3 \<noteq> Inl ''fuel''" if b
    using less redir_step p g h that by metis
  then show ?case using p g h by (cases "parseredirs buf s3") (auto simp: parseredirs.simps [of buf s])
qed

lemma parseargs_msg: "parseargs buf s args rs \<noteq> Inl ''fuel''"
proof (induction "length buf - s" arbitrary: s args rs rule: less_induct)
  case less
  obtain b s1 where p: "peek buf s (bytes ''|)&;'') = (b, s1)" by fastforce
  obtain tok q e s2 where g: "gettoken buf s1 = (tok, q, e, s2)" by (metis prod_cases4)
  have "parseargs buf s3 as rs' \<noteq> Inl ''fuel''" if "tok \<noteq> 0" "parseredirs buf s2 = Inr (r, s3)" for s3 as rs' r
    using less args_step [OF p [symmetric] g [symmetric] that] by blast
  then show ?case using p g parseredirs_msg [of buf s2]
    by (cases "parseredirs buf s2") (auto simp: parseargs.simps [of buf s args rs])
qed

lemma parse_fuel:
  "s \<le> length buf \<Longrightarrow> 4 * (length buf - s) + 4 \<le> n \<Longrightarrow> parseline n buf s \<noteq> Inl ''fuel''"
  "s \<le> length buf \<Longrightarrow> 4 * (length buf - s) + 3 \<le> n \<Longrightarrow> parsepipe n buf s \<noteq> Inl ''fuel''"
  "s \<le> length buf \<Longrightarrow> 4 * (length buf - s) + 2 \<le> n \<Longrightarrow> parseexec n buf s \<noteq> Inl ''fuel''"
  "s \<le> length buf \<Longrightarrow> 4 * (length buf - s) + 1 \<le> n \<Longrightarrow> parseblock n buf s \<noteq> Inl ''fuel''"
proof (induction n arbitrary: s)
  case (Suc n)
  {
    case 1
    have p: "parsepipe n buf s \<noteq> Inl ''fuel''" using Suc.IH(2) 1 by simp
    show ?case
    proof (cases "parsepipe n buf s")
      case (Inr x)
      obtain c1 s1 where x: "x = (c1, s1)" by fastforce
      obtain c2 s2 where a2: "back_loop buf s1 c1 = (c2, s2)" by fastforce
      obtain b s3 where a3: "peek buf s2 (bytes '';'') = (b, s3)" by fastforce
      obtain tok q e s4 where a4: "gettoken buf s3 = (tok, q, e, s4)" by (metis prod_cases4)
      have "s \<le> s1" "s1 \<le> length buf" using parse_moves(2) [OF 1(1), of n] Inr x by (auto simp: moves_def)
      then have "parseline n buf s4 \<noteq> Inl ''fuel''" if b
        using back_loop_pos [OF a2] peek_pos(1,2) [OF a3] gettoken_pos(1-3,5) [OF a4] peek_get [OF a3 [unfolded eqTrueI [OF that]] a4] 1 that
        by (intro Suc.IH(1)) auto
      then show ?thesis using Inr x a2 a3 a4 by (cases "parseline n buf s4") auto
    qed (use p in simp)
  next
    case 2
    have p: "parseexec n buf s \<noteq> Inl ''fuel''" using Suc.IH(3) 2 by simp
    show ?case
    proof (cases "parseexec n buf s")
      case (Inr x)
      obtain c1 s1 where x: "x = (c1, s1)" by fastforce
      obtain b s2 where a2: "peek buf s1 (bytes ''|'') = (b, s2)" by fastforce
      obtain tok q e s3 where a3: "gettoken buf s2 = (tok, q, e, s3)" by (metis prod_cases4)
      have "s \<le> s1" "s1 \<le> length buf" using parse_moves(3) [OF 2(1), of n] Inr x by (auto simp: moves_def)
      then have "parsepipe n buf s3 \<noteq> Inl ''fuel''" if b
        using peek_pos(1,2) [OF a2] gettoken_pos(1-3,5) [OF a3] peek_get [OF a2 [unfolded eqTrueI [OF that]] a3] 2 that
        by (intro Suc.IH(2)) auto
      then show ?thesis using Inr x a2 a3 by (cases "parsepipe n buf s3") auto
    qed (use p in simp)
  next
    case 3
    obtain b s1 where p: "peek buf s (bytes ''('') = (b, s1)" by fastforce
    have "parseblock n buf s1 \<noteq> Inl ''fuel''" using Suc.IH(4) [of s1] peek_pos(1,2) [OF p] 3 by auto
    then show ?case using p parseredirs_msg [of buf s1] parseargs_msg
      by (cases "parseredirs buf s1") (auto simp: pbind_def split: sum.splits)
  next
    case 4
    obtain b s1 where a1: "peek buf s (bytes ''('') = (b, s1)" by fastforce
    obtain tok q e s2 where a2: "gettoken buf s1 = (tok, q, e, s2)" by (metis prod_cases4)
    have "parseline n buf s2 \<noteq> Inl ''fuel''" if b
      using peek_pos(1,2) [OF a1] gettoken_pos(1-3,5) [OF a2] peek_get [OF a1 [unfolded eqTrueI [OF that]] a2] 4 that
      by (intro Suc.IH(1)) auto
    then show ?case using a1 a2 parseredirs_msg
      by (auto simp: pbind_def split: sum.splits prod.splits)
  }
qed auto

text \<open>C39: the parser always comes to an end: for every line \<open>parsecmd\<close> returns a command or stops with one
  of its own messages, and never runs out of fuel; the line it hands on has the length of the one it read, with
  its NUL.\<close>

theorem parsecmd_terminates:
  "case parsecmd buf of Inl msg \<Rightarrow> msg \<noteq> ''fuel'' | Inr (c, b) \<Rightarrow> length b = length buf + 1"
proof -
  have "length (nulterminate c b) = length b" for c b
  proof (induction c arbitrary: b)
    case (Exec args)
    show ?case by (simp, induction args arbitrary: b) auto
  qed auto
  then show ?thesis using parse_fuel(1) [of 0 buf "4 * length buf + 4"]
    by (auto simp: parsecmd_def pbind_def split: sum.splits prod.splits if_splits)
qed

end
