(* ===== verification/Uprog.thy ===== *)
theory Uprog
  imports Sh
begin

text \<open>
  Programs that run in user space: the execution of commands in \<^verbatim>\<open>user/sh.c\<close> and the small utilities.  A program is the tree of the system calls
  it makes, each with what follows for every result; a fork has the program of the child and that of the parent.  The
  descriptors of the processes that a program makes are described by \<open>may_exec\<close>.
\<close>

subsection \<open>Programs\<close>

datatype sysreq = SWait | SOpen "uchar list" int | SClose int | SDup int | SWrite int "uchar list" | SKill int
  | SLink "uchar list" "uchar list" | SUnlink "uchar list" | SMkdir "uchar list" | SChdir "uchar list" | SSleep int

datatype uprog = UExit int | USys sysreq "int \<Rightarrow> uprog" | UExec "uchar list" "uchar list list" uprog
  | UFork uprog "int \<Rightarrow> uprog" | UPipe "(int \<times> int) option \<Rightarrow> uprog"

text \<open>The library's \<^verbatim>\<open>fprintf\<close> writes one character at a time.\<close>

definition fput :: "int \<Rightarrow> uchar list \<Rightarrow> uprog \<Rightarrow> uprog" where
  "fput fd bs k = foldr (\<lambda>c k. USys (SWrite fd [c]) (\<lambda>_. k)) bs k"

definition then_do :: "sysreq \<Rightarrow> uprog \<Rightarrow> uprog" where
  "then_do r k = USys r (\<lambda>_. k)"

subsection \<open>The shell\<close>

definition sh_panic :: "string \<Rightarrow> uprog" where
  "sh_panic s = fput 2 (bytes s @ [10]) (UExit 1)"

definition fork1 :: "uprog \<Rightarrow> uprog \<Rightarrow> uprog" where
  "fork1 child parent = UFork child (\<lambda>pid. if pid = -1 then sh_panic ''fork'' else parent)"

definition word_at :: "uchar list \<Rightarrow> nat \<Rightarrow> uchar list" where
  "word_at buf q = takeWhile (\<lambda>c. c \<noteq> 0) (drop q buf)"

fun runcmd :: "uchar list \<Rightarrow> cmd \<Rightarrow> uprog" where
  "runcmd buf (Exec args) =
     (case args of
        [] \<Rightarrow> UExit 1
      | (q, _) # _ \<Rightarrow>
          UExec (word_at buf q) (map (\<lambda>a. word_at buf (fst a)) args)
            (fput 2 (bytes ''exec '' @ word_at buf q @ bytes '' failed'' @ [10]) (UExit 0)))"
| "runcmd buf (Redir c q e mode fd) =
     then_do (SClose fd)
       (USys (SOpen (word_at buf q) mode) (\<lambda>r.
          if r < 0 then fput 2 (bytes ''open '' @ word_at buf q @ bytes '' failed'' @ [10]) (UExit 1)
          else runcmd buf c))"
| "runcmd buf (Listc l r) = fork1 (runcmd buf l) (then_do SWait (runcmd buf r))"
| "runcmd buf (Pipe l r) =
     UPipe (\<lambda>p. case p of
        None \<Rightarrow> sh_panic ''pipe''
      | Some (p0, p1) \<Rightarrow>
          fork1 (then_do (SClose 1) (then_do (SDup p1) (then_do (SClose p0) (then_do (SClose p1) (runcmd buf l)))))
         (fork1 (then_do (SClose 0) (then_do (SDup p0) (then_do (SClose p0) (then_do (SClose p1) (runcmd buf r)))))
         (then_do (SClose p0) (then_do (SClose p1) (then_do SWait (then_do SWait (UExit 0)))))))"
| "runcmd buf (Back c) = fork1 (runcmd buf c) (UExit 0)"

text \<open>One line of the main loop, \<open>k\<close> being the rest of it: a change of directory, or a child that runs the command.  The text the parser prints
  before a syntax error is left out.\<close>

definition sh_line :: "uchar list \<Rightarrow> uprog \<Rightarrow> uprog" where
  "sh_line buf k =
     (if take 3 buf = bytes ''cd ''
      then let dir = drop 3 (butlast buf)
           in USys (SChdir dir) (\<lambda>r. if r < 0 then fput 2 (bytes ''cannot cd '' @ dir @ [10]) k else k)
      else fork1 (case parsecmd buf of
                    Inl e \<Rightarrow> sh_panic e
                  | Inr (c, b) \<Rightarrow> runcmd b c)
             (then_do SWait k))"

subsection \<open>Utilities\<close>

text \<open>The arguments are those after the name of the program.\<close>

fun echo :: "uchar list list \<Rightarrow> uprog" where
  "echo [] = UExit 0"
| "echo (a # as) = then_do (SWrite 1 a) (then_do (SWrite 1 (if as \<noteq> [] then [32] else [10])) (echo as))"

primrec kill_loop :: "uchar list list \<Rightarrow> uprog" where
  "kill_loop [] = UExit 0"
| "kill_loop (a # as) = then_do (SKill (sint (atoi a))) (kill_loop as)"

definition kill_main :: "uchar list list \<Rightarrow> uprog" where
  "kill_main as = (if as = [] then fput 2 (bytes ''usage: kill pid...'' @ [10]) (UExit 1) else kill_loop as)"

definition ln_main :: "uchar list list \<Rightarrow> uprog" where
  "ln_main as = (case as of
     [a, b] \<Rightarrow> USys (SLink a b) (\<lambda>r. if r < 0 then fput 2 (bytes ''link '' @ a @ [32] @ b @ bytes '': failed'' @ [10]) (UExit 0) else UExit 0)
   | _ \<Rightarrow> fput 2 (bytes ''Usage: ln old new'' @ [10]) (UExit 1))"

primrec rm_loop :: "uchar list list \<Rightarrow> uprog" where
  "rm_loop [] = UExit 0"
| "rm_loop (a # as) = USys (SUnlink a) (\<lambda>r. if r < 0 then fput 2 (bytes ''rm: '' @ a @ bytes '' failed to delete'' @ [10]) (UExit 0) else rm_loop as)"

definition rm_main :: "uchar list list \<Rightarrow> uprog" where
  "rm_main as = (if as = [] then fput 2 (bytes ''Usage: rm files...'' @ [10]) (UExit 1) else rm_loop as)"

primrec mkdir_loop :: "uchar list list \<Rightarrow> uprog" where
  "mkdir_loop [] = UExit 0"
| "mkdir_loop (a # as) = USys (SMkdir a) (\<lambda>r. if r < 0 then fput 2 (bytes ''mkdir: '' @ a @ bytes '' failed to create'' @ [10]) (UExit 0) else mkdir_loop as)"

definition mkdir_main :: "uchar list list \<Rightarrow> uprog" where
  "mkdir_main as = (if as = [] then fput 2 (bytes ''Usage: mkdir files...'' @ [10]) (UExit 1) else mkdir_loop as)"

definition zombie_main :: uprog where
  "zombie_main = UFork (UExit 0) (\<lambda>pid. if pid > 0 then then_do (SSleep 5) (UExit 0) else UExit 0)"

subsection \<open>Descriptors\<close>

text \<open>What a descriptor stands for, and the descriptor the kernel gives out next: the lowest that is free.  A pipe is named by the
  process that makes it and a count.\<close>

datatype fobj = FGiven nat | FFile "uchar list" int | FRead "nat list" | FWrite "nat list"

type_synonym fdtab = "nat \<Rightarrow> fobj option"

definition lowest :: "fdtab \<Rightarrow> nat option" where
  "lowest d = find (\<lambda>i. d i = None) [0..<16]"

text \<open>\<open>may_exec p d pp k e\<close>: a process with the program \<open>p\<close> and the descriptors \<open>d\<close>, or one of its descendants, may come to run the program, with
  the arguments and descriptors, of \<open>e\<close>.  Calls may fail; \<open>pp\<close> names the process and \<open>k\<close> counts its forks and pipes.\<close>

inductive may_exec :: "uprog \<Rightarrow> fdtab \<Rightarrow> nat list \<Rightarrow> nat \<Rightarrow> uchar list \<times> uchar list list \<times> fdtab \<Rightarrow> bool" where
  exec_now: "may_exec (UExec a av f) d pp k (a, av, d)"
| exec_fails: "may_exec f d pp k e \<Longrightarrow> may_exec (UExec a av f) d pp k e"
| fork_child: "may_exec c d (k # pp) 0 e \<Longrightarrow> may_exec (UFork c f) d pp k e"
| fork_parent: "may_exec (f pid) d pp (Suc k) e \<Longrightarrow> 0 < pid \<Longrightarrow> may_exec (UFork c f) d pp k e"
| fork_fails: "may_exec (f (-1)) d pp k e \<Longrightarrow> may_exec (UFork c f) d pp k e"
| pipe_ok: "lowest d = Some i \<Longrightarrow> lowest (d(i \<mapsto> FRead (k # pp))) = Some j \<Longrightarrow>
    may_exec (f (Some (int i, int j))) (d(i \<mapsto> FRead (k # pp), j \<mapsto> FWrite (k # pp))) pp (Suc k) e \<Longrightarrow> may_exec (UPipe f) d pp k e"
| pipe_fails: "may_exec (f None) d pp k e \<Longrightarrow> may_exec (UPipe f) d pp k e"
| close_fd: "0 \<le> fd \<Longrightarrow> may_exec (f r) (d(nat fd := None)) pp k e \<Longrightarrow> may_exec (USys (SClose fd) f) d pp k e"
| dup_ok: "0 \<le> fd \<Longrightarrow> d (nat fd) = Some ob \<Longrightarrow> lowest d = Some i \<Longrightarrow> may_exec (f (int i)) (d(i \<mapsto> ob)) pp k e \<Longrightarrow> may_exec (USys (SDup fd) f) d pp k e"
| dup_fails: "fd < 0 \<or> d (nat fd) = None \<or> lowest d = None \<Longrightarrow> may_exec (f (-1)) d pp k e \<Longrightarrow> may_exec (USys (SDup fd) f) d pp k e"
| open_ok: "lowest d = Some i \<Longrightarrow> may_exec (f (int i)) (d(i \<mapsto> FFile a m)) pp k e \<Longrightarrow> may_exec (USys (SOpen a m) f) d pp k e"
| open_fails: "may_exec (f (-1)) d pp k e \<Longrightarrow> may_exec (USys (SOpen a m) f) d pp k e"
| other_call: "may_exec (f r) d pp k e \<Longrightarrow> \<not> (\<exists>fd. q = SClose fd \<or> q = SDup fd) \<Longrightarrow> \<not> (\<exists>a m. q = SOpen a m) \<Longrightarrow> may_exec (USys q f) d pp k e"

inductive_simps may_exec_simps:
  "may_exec (UExit n) d pp k e"
  "may_exec (UExec a av f) d pp k e"
  "may_exec (UFork c f) d pp k e"
  "may_exec (UPipe f) d pp k e"
  "may_exec (USys (SClose fd) f) d pp k e"
  "may_exec (USys (SDup fd) f) d pp k e"
  "may_exec (USys (SOpen a m) f) d pp k e"
  "may_exec (USys SWait f) d pp k e"
  "may_exec (USys (SWrite fd bs) f) d pp k e"

lemma may_exec_fput [simp]: "may_exec (fput fd bs p) d pp k e = may_exec p d pp k e"
  by (induction bs) (simp_all add: fput_def may_exec_simps)

lemma may_exec_panic [simp]: "\<not> may_exec (sh_panic s) d pp k e"
  by (simp add: sh_panic_def may_exec_simps)

lemma may_exec_fork1: "may_exec (fork1 c p) d pp k e \<longleftrightarrow> may_exec c d (k # pp) 0 e \<or> may_exec p d pp (Suc k) e"
  by (auto simp: fork1_def may_exec_simps intro: exI [where x = 1])

lemma may_exec_close: "0 \<le> fd \<Longrightarrow> may_exec (then_do (SClose fd) p) d pp k e \<longleftrightarrow> may_exec p (d(nat fd := None)) pp k e"
  by (simp add: then_do_def may_exec_simps)

lemma may_exec_wait: "may_exec (then_do SWait p) d pp k e \<longleftrightarrow> may_exec p d pp k e"
  by (simp add: then_do_def may_exec_simps)

lemma may_exec_dup: "0 \<le> fd \<Longrightarrow> d (nat fd) = Some ob \<Longrightarrow> lowest d = Some i \<Longrightarrow> may_exec (then_do (SDup fd) p) d pp k e \<longleftrightarrow> may_exec p (d(i \<mapsto> ob)) pp k e"
  by (simp add: then_do_def may_exec_simps)

lemmas may_exec_steps = may_exec_fork1 may_exec_close may_exec_wait may_exec_dup

subsection \<open>What the shell's commands run with\<close>

lemma std_fds:
  assumes "dom d = {0, 1, 2 :: nat}"
  shows "d 0 \<noteq> None" "d 1 \<noteq> None" "d 2 \<noteq> None" "3 \<le> i \<Longrightarrow> d i = None"
proof -
  have k: "d j \<noteq> None \<longleftrightarrow> j = 0 \<or> j = 1 \<or> j = 2" for j unfolding domIff [symmetric] assms by simp
  show "d 0 \<noteq> None" "d 1 \<noteq> None" "d 2 \<noteq> None" by (simp_all only: k) simp_all
  show "d i = None" if "3 \<le> i" using k [of i] that by linarith
qed

lemma dom_std:
  assumes "dom d = {0, 1, 2 :: nat}" "i \<in> {0, 1}"
  shows "dom (d(i \<mapsto> z)) = {0, 1, 2}"
proof -
  have "dom (d(i \<mapsto> z)) = insert i (dom d)" by simp
  then show ?thesis using assms(2) unfolding assms(1) by auto
qed

lemma lowest_std:
  assumes "dom d = {0, 1, 2 :: nat}"
  shows "lowest d = Some 3" "lowest (d(3 \<mapsto> x)) = Some 4" "lowest (d(3 \<mapsto> x, 4 \<mapsto> y, 1 := None)) = Some 1" "lowest (d(3 \<mapsto> x, 4 \<mapsto> y, 0 := None)) = Some 0"
    "lowest (d(0 := None)) = Some 0" "lowest (d(1 := None)) = Some 1"
proof -
  have l: "[0..<16] = 0 # 1 # 2 # 3 # 4 # [5..<16 :: nat]" by (simp add: upt_conv_Cons)
  show "lowest d = Some 3" "lowest (d(3 \<mapsto> x)) = Some 4" "lowest (d(3 \<mapsto> x, 4 \<mapsto> y, 1 := None)) = Some 1" "lowest (d(3 \<mapsto> x, 4 \<mapsto> y, 0 := None)) = Some 0"
    "lowest (d(0 := None)) = Some 0" "lowest (d(1 := None)) = Some 1"
    using std_fds(1-3) [OF assms] std_fds(4) [OF assms, of 3] std_fds(4) [OF assms, of 4] unfolding lowest_def l by simp_all
qed

text \<open>A pipeline runs its left side with the write end of a new pipe as standard output and its right side with the
  read end as standard input, and with nothing else of the pipe.\<close>

lemma pipe_wiring:
  assumes "dom d = {0, 1, 2 :: nat}"
  shows "may_exec (runcmd buf (Pipe l r)) d pp k e \<longleftrightarrow>
    may_exec (runcmd buf l) (d(1 \<mapsto> FWrite (k # pp))) (Suc k # pp) 0 e \<or> may_exec (runcmd buf r) (d(0 \<mapsto> FRead (k # pp))) (Suc (Suc k) # pp) 0 e"
proof -
  note L = lowest_std [OF assms]
  let ?R = "FRead (k # pp)" and ?W = "FWrite (k # pp)"
  let ?p = "d(3 \<mapsto> ?R, 4 \<mapsto> ?W)"
  have n: "d 3 = None" "d 4 = None" using std_fds(4) [OF assms] by simp_all
  have c: "?p(1 := None, 1 \<mapsto> ?W, 3 := None, 4 := None) = d(1 \<mapsto> ?W)" "?p(0 := None, 0 \<mapsto> ?R, 3 := None, 4 := None) = d(0 \<mapsto> ?R)"
    using n by (auto simp: fun_eq_iff)
  have cl: "may_exec (then_do (SClose 0) q) f qq m e = may_exec q (f(0 := None)) qq m e" "may_exec (then_do (SClose 1) q) f qq m e = may_exec q (f(1 := None)) qq m e"
      "may_exec (then_do (SClose 3) q) f qq m e = may_exec q (f(3 := None)) qq m e" "may_exec (then_do (SClose 4) q) f qq m e = may_exec q (f(4 := None)) qq m e" for q f qq m
    by (simp_all add: may_exec_close)
  have du: "may_exec (then_do (SDup 4) q) (?p(1 := None)) qq m e = may_exec q (?p(1 := None, 1 \<mapsto> ?W)) qq m e"
      "may_exec (then_do (SDup 3) q) (?p(0 := None)) qq m e = may_exec q (?p(0 := None, 0 \<mapsto> ?R)) qq m e" for q qq m
    using L(3,4) by (intro may_exec_dup; simp)+
  have "may_exec (runcmd buf (Pipe l r)) d pp k e \<longleftrightarrow>
      may_exec (runcmd buf l) (?p(1 := None, 1 \<mapsto> ?W, 3 := None, 4 := None)) (Suc k # pp) 0 e \<or>
      may_exec (runcmd buf r) (?p(0 := None, 0 \<mapsto> ?R, 3 := None, 4 := None)) (Suc (Suc k) # pp) 0 e"
    by (simp add: may_exec_simps(4) L may_exec_fork1 cl may_exec_wait du may_exec_simps(1) del: fun_upd_apply One_nat_def)
  then show ?thesis unfolding c .
qed

text \<open>The parser redirects descriptors 0 and 1 only, as shown below.\<close>

fun redirs_ok :: "cmd \<Rightarrow> bool" where
  "redirs_ok (Exec as) = True"
| "redirs_ok (Redir c q e mode fd) = ((fd = 0 \<or> fd = 1) \<and> redirs_ok c)"
| "redirs_ok (Listc l r) = (redirs_ok l \<and> redirs_ok r)"
| "redirs_ok (Pipe l r) = (redirs_ok l \<and> redirs_ok r)"
| "redirs_ok (Back c) = redirs_ok c"

lemma exec_std:
  assumes "may_exec (runcmd buf c) d pp k e" "dom d = {0, 1, 2 :: nat}" "redirs_ok c"
  shows "dom (snd (snd e)) = {0, 1, 2}"
  using assms
proof (induction c arbitrary: d pp k)
  case (Exec as)
  have "snd (snd e) = d" using Exec.prems(1) by (auto simp: may_exec_simps(1,2) split: list.splits)
  then show ?case using Exec.prems(2) by simp
next
  case (Redir c q x mode fd)
  note L = lowest_std [OF Redir.prems(2)]
  have fd: "fd = 0 \<or> fd = 1" "redirs_ok c" using Redir.prems(3) by auto
  have u: "d(i := None, i \<mapsto> z) = d(i \<mapsto> z)" for i z by (rule fun_upd_upd)
  have "may_exec (runcmd buf c) (d(nat fd \<mapsto> FFile (word_at buf q) mode)) pp k e"
    using Redir.prems(1) L(5) L(6) [unfolded One_nat_def] fd(1) by (elim disjE) (simp_all add: may_exec_close may_exec_simps(1,7) u del: fun_upd_apply fun_upd_upd)
  moreover have "dom (d(nat fd \<mapsto> FFile (word_at buf q) mode)) = {0, 1, 2}" using fd(1) by (intro dom_std [OF Redir.prems(2)]) auto
  ultimately show ?case by (rule Redir.IH [OF _ _ fd(2)])
next
  case (Pipe l r)
  have s: "dom (d(1 \<mapsto> z)) = {0, 1, 2}" "dom (d(0 \<mapsto> z)) = {0, 1, 2}" for z by (rule dom_std [OF Pipe.prems(2)]; simp)+
  have o: "redirs_ok l" "redirs_ok r" using Pipe.prems(3) by simp_all
  from Pipe.prems(1) [unfolded pipe_wiring [OF Pipe.prems(2)]] show ?case
    by (elim disjE) (erule Pipe.IH(1) [OF _ s(1) o(1)] Pipe.IH(2) [OF _ s(2) o(2)])+
next
  case (Listc l r)
  have o: "redirs_ok l" "redirs_ok r" using Listc.prems(3) by simp_all
  have "may_exec (runcmd buf l) d (k # pp) 0 e \<or> may_exec (runcmd buf r) d pp (Suc k) e"
    using Listc.prems(1) by (simp add: may_exec_fork1 may_exec_wait)
  then show ?case using Listc.IH(1) [OF _ Listc.prems(2) o(1)] Listc.IH(2) [OF _ Listc.prems(2) o(2)] by blast
next
  case (Back c)
  have "may_exec (runcmd buf c) d (k # pp) 0 e" using Back.prems(1) by (simp add: may_exec_fork1 may_exec_simps(1))
  then show ?case by (rule Back.IH [OF _ Back.prems(2)]) (use Back.prems(3) in simp)
qed

lemma parseredirs_fds: "parseredirs buf s = Inr (rs, s') \<Longrightarrow> \<forall>r\<in>set rs. snd (snd (snd r)) \<in> {0, 1}"
proof (induction buf s arbitrary: rs s' rule: parseredirs.induct)
  case (1 buf s)
  obtain b s1 where p: "peek buf s (bytes ''<>'') = (b, s1)" by fastforce
  obtain tok q0 e0 s2 where g: "gettoken buf s1 = (tok, q0, e0, s2)" by (metis prod_cases4)
  obtain a q e s3 where h: "gettoken buf s2 = (a, q, e, s3)" by (metis prod_cases4)
  show ?case
  proof (cases b)
    case False
    then show ?thesis using 1(2) p by (auto simp: parseredirs.simps [of buf s])
  next
    case True
    then obtain rs' where r: "parseredirs buf s3 = Inr (rs', s')" "a = 97" "rs = redir_of tok q e # rs'"
      using 1(2) p g h by (auto simp: parseredirs.simps [of buf s] split: if_splits)
    have "\<forall>r\<in>set rs'. snd (snd (snd r)) \<in> {0, 1}"
      using 1(1) [OF p [symmetric] _ g [symmetric] refl refl h [symmetric] refl refl _ r(1)] True r(2) by simp
    then show ?thesis using r(3) by (simp add: redir_of_def)
  qed
qed

lemma parseargs_fds:
  "parseargs buf s args rs = Inr (args', rs', s') \<Longrightarrow> \<forall>r\<in>set rs. snd (snd (snd r)) \<in> {0, 1} \<Longrightarrow> \<forall>r\<in>set rs'. snd (snd (snd r)) \<in> {0, 1}"
proof (induction buf s args rs rule: parseargs.induct)
  case (1 buf s args rs)
  obtain b s1 where p: "peek buf s (bytes ''|)&;'') = (b, s1)" by fastforce
  obtain tok q e s2 where g: "gettoken buf s1 = (tok, q, e, s2)" by (metis prod_cases4)
  show ?case
  proof (cases "b \<or> tok = 0")
    case True
    then show ?thesis using 1(2,3) p g by (auto simp: parseargs.simps [of buf s] split: if_splits)
  next
    case False
    then obtain rs2 s3 where r: "parseredirs buf s2 = Inr (rs2, s3)" "parseargs buf s3 (args @ [(q, e)]) (rs @ rs2) = Inr (args', rs', s')"
        "tok = 97" "\<not> length (args @ [(q, e)]) \<ge> MAXARGS"
      using 1(2) p g by (auto simp: parseargs.simps [of buf s] pbind_def split: if_splits sum.splits)
    have "\<forall>r\<in>set (rs @ rs2). snd (snd (snd r)) \<in> {0, 1}" using 1(3) parseredirs_fds [OF r(1)] by auto
    then show ?thesis
      using 1(1) [OF p [symmetric] _ g [symmetric] refl refl _ _ _ r(1) refl r(2)] False r by auto
  qed
qed

lemma foldl_redirs: "redirs_ok c \<Longrightarrow> \<forall>r\<in>set rs. snd (snd (snd r)) \<in> {0, 1} \<Longrightarrow> redirs_ok (foldl redircmd c rs)"
  by (induction rs arbitrary: c) (auto simp: redircmd_def split: prod.splits)

lemma redirs_args: "parseredirs buf s1 = Inr (rs, s2) \<Longrightarrow> parseargs buf s2 [] rs = Inr (args, rs', s3) \<Longrightarrow> redirs_ok (foldl redircmd (Exec args) rs')"
  by (rule foldl_redirs) (simp, rule parseargs_fds [OF _ parseredirs_fds])

lemma redirs_block: "parseredirs buf s1 = Inr (rs, s2) \<Longrightarrow> redirs_ok c \<Longrightarrow> redirs_ok (foldl redircmd c rs)"
  by (rule foldl_redirs [OF _ parseredirs_fds])

lemma back_redirs: "redirs_ok c \<Longrightarrow> redirs_ok (fst (back_loop buf s c))"
  by (induction buf s c rule: back_loop.induct) (subst back_loop.simps; auto split: prod.splits)

lemma parse_redirs:
  "parseline n buf s = Inr (c, s') \<Longrightarrow> redirs_ok c"
  "parsepipe n buf s = Inr (c, s') \<Longrightarrow> redirs_ok c"
  "parseexec n buf s = Inr (c, s') \<Longrightarrow> redirs_ok c"
  "parseblock n buf s = Inr (c, s') \<Longrightarrow> redirs_ok c"
proof (induction n arbitrary: s c s')
  case (Suc n)
  {
    case 1
    then show ?case using Suc.IH(1,2) back_redirs by (auto simp: pbind_def split: if_splits sum.splits prod.splits) (metis fst_conv)+
  next
    case 2
    then show ?case using Suc.IH(2,3) by (auto simp: pbind_def split: if_splits sum.splits prod.splits)
  next
    case 3
    then show ?case using Suc.IH(4) redirs_args by (auto simp: pbind_def split: if_splits sum.splits prod.splits)
  next
    case 4
    then show ?case using Suc.IH(1) redirs_block by (auto simp: pbind_def split: if_splits sum.splits prod.splits)
  }
qed simp_all

lemma parsecmd_redirs: "parsecmd line = Inr (c, buf) \<Longrightarrow> redirs_ok c"
  by (auto simp: parsecmd_def pbind_def split: sum.splits prod.splits if_splits dest: parse_redirs(1))

text \<open>C15: run in a process with the three standard descriptors, every program that a command line starts has exactly the three standard
  descriptors open, so no end of a pipe leaks into a program that would keep the pipe open; and a pipeline connects the standard output of its
  left side to the standard input of its right side by a new pipe.\<close>

theorem shell_wiring:
  assumes "dom d = {0, 1, 2 :: nat}" "parsecmd line = Inr (c, buf)"
  shows "(may_exec (runcmd buf c) d pp k e \<longrightarrow> dom (snd (snd e)) = {0, 1, 2}) \<and>
    (c = Pipe l r \<longrightarrow> (may_exec (runcmd buf c) d pp k e \<longleftrightarrow>
      may_exec (runcmd buf l) (d(1 \<mapsto> FWrite (k # pp))) (Suc k # pp) 0 e \<or> may_exec (runcmd buf r) (d(0 \<mapsto> FRead (k # pp))) (Suc (Suc k) # pp) 0 e))"
proof (intro conjI impI)
  show "dom (snd (snd e)) = {0, 1, 2}" if "may_exec (runcmd buf c) d pp k e" by (rule exec_std [OF that assms(1) parsecmd_redirs [OF assms(2)]])
  show "may_exec (runcmd buf c) d pp k e \<longleftrightarrow>
      may_exec (runcmd buf l) (d(1 \<mapsto> FWrite (k # pp))) (Suc k # pp) 0 e \<or> may_exec (runcmd buf r) (d(0 \<mapsto> FRead (k # pp))) (Suc (Suc k) # pp) 0 e"
    if "c = Pipe l r" unfolding that by (rule pipe_wiring [OF assms(1)])
qed

definition x_fds :: fdtab where
  "x_fds = (\<lambda>i. if i < 3 then Some (FGiven i) else None)"

lemma x_parse: "parsecmd (bytes ''a|b'') = Inr (Pipe (Exec [(0, 1)]) (Exec [(2, 3)]), [97, 0, 98, 0])"
  by code_simp

theorem shell_wiring_witness:
  "parsecmd (bytes ''a|b'') = Inr (Pipe (Exec [(0, 1)]) (Exec [(2, 3)]), [97, 0, 98, 0]) \<and>
   may_exec (runcmd [97, 0, 98, 0] (Pipe (Exec [(0, 1)]) (Exec [(2, 3)]))) x_fds [] 0 ([97], [[97]], x_fds(1 \<mapsto> FWrite [0])) \<and>
   dom (x_fds(1 \<mapsto> FWrite [0])) = {0, 1, 2}"
proof -
  have d: "dom x_fds = {0, 1, 2}" by (auto simp: x_fds_def split: if_splits)
  have "may_exec (runcmd [97, 0, 98, 0] (Exec [(0, 1)])) (x_fds(1 \<mapsto> FWrite [0])) [1] 0 ([97], [[97]], x_fds(1 \<mapsto> FWrite [0]))"
    by (simp add: word_at_def may_exec_simps(2))
  then show ?thesis
    using shell_wiring [OF d x_parse, of "[]" 0 "([97], [[97]], x_fds(1 \<mapsto> FWrite [0]))" "Exec [(0, 1)]" "Exec [(2, 3)]"] x_parse by simp
qed

end
