(* ===== verification/Ulib.thy ===== *)
theory Ulib
  imports Str Print
begin

text \<open>
  The string routines of user programs (\<^verbatim>\<open>user/ulib.c\<close>) where they differ from the kernel's, and two programs that read their input to the end,
  \<^verbatim>\<open>user/wc.c\<close> and \<^verbatim>\<open>user/cat.c\<close>.  A loop that ends only at a NUL, or at the end of the input, is a partial function, shown to return.
\<close>

subsection \<open>The library\<close>

partial_function (option) u_strcpy :: "memory \<Rightarrow> addr \<Rightarrow> addr \<Rightarrow> memory option" where
  "u_strcpy m s t = (if m t = 0 then Some (m(s := m t)) else u_strcpy (m(s := m t)) (s + 1) (t + 1))"

partial_function (option) u_strcmp :: "memory \<Rightarrow> addr \<Rightarrow> addr \<Rightarrow> int option" where
  "u_strcmp m p q = (if m p \<noteq> 0 \<and> m p = m q then u_strcmp m (p + 1) (q + 1) else Some (uint (m p) - uint (m q)))"

text \<open>The inner option is the null pointer.\<close>

partial_function (option) u_strchr :: "memory \<Rightarrow> addr \<Rightarrow> uchar \<Rightarrow> addr option option" where
  "u_strchr m s c = (if m s = 0 then Some None else if m s = c then Some (Some s) else u_strchr m (s + 1) c)"

definition u_memmove :: "memory \<Rightarrow> addr \<Rightarrow> addr \<Rightarrow> int \<Rightarrow> memory" where
  "u_memmove m dst src n =
     (if src > dst then move_up (nat n) m dst src
      else move_down (nat n) m (dst + of_int n) (src + of_int n))"

definition u_memcpy :: "memory \<Rightarrow> addr \<Rightarrow> addr \<Rightarrow> uint \<Rightarrow> memory" where
  "u_memcpy m dst src n = u_memmove m dst src (sint n)"

text \<open>\<open>gets\<close>: the bytes put in the buffer before the NUL, and what is left to read; \<open>rd\<close> reads one byte.\<close>

primrec gets_loop :: "('f \<Rightarrow> (uchar \<times> 'f) option) \<Rightarrow> nat \<Rightarrow> 'f \<Rightarrow> uchar list \<times> 'f" where
  "gets_loop rd 0 f = ([], f)"
| "gets_loop rd (Suc n) f =
     (case rd f of
        None \<Rightarrow> ([], f)
      | Some (c, f') \<Rightarrow>
          if c = 10 \<or> c = 13 then ([c], f')
          else let (cs, f'') = gets_loop rd n f' in (c # cs, f''))"

definition u_gets :: "('f \<Rightarrow> (uchar \<times> 'f) option) \<Rightarrow> int \<Rightarrow> 'f \<Rightarrow> uchar list \<times> 'f" where
  "u_gets rd n f = gets_loop rd (nat (n - 1)) f"

subsection \<open>Counting and copying\<close>

type_synonym counts = "int \<times> int \<times> int \<times> bool"

definition wc_byte :: "uchar \<Rightarrow> counts \<Rightarrow> counts" where
  "wc_byte b = (\<lambda>(l, w, c, inword).
     let c = c + 1; l = (if b = 10 then l + 1 else l)
     in if b \<in> set (bytes '' '' @ [13, 9, 10, 11]) then (l, w, c, False)
        else if \<not> inword then (l, w + 1, c, True)
        else (l, w, c, inword))"

text \<open>A read gives \<open>None\<close> on an error, and no bytes at the end.\<close>

partial_function (option) wc_loop :: "('f \<Rightarrow> nat \<Rightarrow> uchar list option \<times> 'f) \<Rightarrow> 'f \<Rightarrow> counts \<Rightarrow> (string + counts) option" where
  "wc_loop rd f st =
     (case rd f 512 of
        (None, f') \<Rightarrow> Some (Inl ''wc: read error'')
      | (Some new, f') \<Rightarrow> if new = [] then Some (Inr st) else wc_loop rd f' (fold wc_byte new st))"

definition wc :: "('f \<Rightarrow> nat \<Rightarrow> uchar list option \<times> 'f) \<Rightarrow> 'f \<Rightarrow> (string + counts) option" where
  "wc rd f = wc_loop rd f (0, 0, 0, False)"

text \<open>\<open>wr\<close> is the number of bytes a write to standard output takes; the result has the bytes written.\<close>

partial_function (option) cat :: "('f \<Rightarrow> nat \<Rightarrow> uchar list option \<times> 'f) \<Rightarrow> (uchar list \<Rightarrow> int) \<Rightarrow> 'f \<Rightarrow> uchar list \<Rightarrow> (string + uchar list) option" where
  "cat rd wr f out =
     (case rd f 512 of
        (None, f') \<Rightarrow> Some (Inl ''cat: read error'')
      | (Some new, f') \<Rightarrow>
          if new = [] then Some (Inr out)
          else if wr new \<noteq> int (length new) then Some (Inl ''cat: write error'')
          else cat rd wr f' (out @ new))"

subsection \<open>What the library computes\<close>

lemma u_strcmp_cstr:
  assumes "cstr m p ps" "cstr m q qs"
  shows "\<exists>v. u_strcmp m p q = Some v \<and> (v = 0 \<longleftrightarrow> ps = qs)"
  using assms
proof (induction ps arbitrary: p q qs)
  case Nil
  then show ?case using cstr_zero [of m q qs] by (subst u_strcmp.simps) (auto simp: uint_0_iff)
next
  case (Cons c ps)
  show ?case
  proof (cases qs)
    case Nil
    then show ?thesis using Cons.prems by (subst u_strcmp.simps) (auto simp: uint_0_iff)
  next
    case (Cons d ds)
    then show ?thesis using Cons.prems Cons.IH [of "p + 1" "q + 1" ds] by (subst u_strcmp.simps) (auto simp: uint_diff_0)
  qed
qed

lemma u_strcpy_cstr:
  assumes "cstr m t cs" "length cs < 2 ^ 32" "\<And>i j. i < j \<Longrightarrow> j \<le> length cs \<Longrightarrow> s + of_nat i \<noteq> t + of_nat j"
  shows "u_strcpy m s t = Some (mstore m s (cs @ [0]))"
  using assms
proof (induction cs arbitrary: m s t)
  case Nil
  then show ?case by (subst u_strcpy.simps) (simp add: mstore_Cons)
next
  case (Cons c cs)
  have "cstr (m(s := c)) (t + 1) cs"
  proof (rule cstr_upd)
    show "cstr m (t + 1) cs" using Cons.prems(1) by simp
    show "s \<noteq> t + 1 + of_nat j" if "j \<le> length cs" for j using Cons.prems(3) [of 0 "Suc j"] that by (simp add: algebra_simps)
  qed
  moreover have "s + 1 + of_nat i \<noteq> t + 1 + of_nat j" if "i < j" "j \<le> length cs" for i j
    using Cons.prems(3) [of "Suc i" "Suc j"] that by (simp add: algebra_simps)
  ultimately have "u_strcpy (m(s := c)) (s + 1) (t + 1) = Some (mstore (m(s := c)) (s + 1) (cs @ [0]))"
    using Cons.prems(2) by (intro Cons.IH) (simp_all del: fun_upd_apply)
  then show ?case using Cons.prems(1,2) by (subst u_strcpy.simps) (simp add: mstore_Cons)
qed

lemma u_memmove_eq:
  assumes "0 \<le> n" "n < 2 ^ 31" "unat src + nat n < 2 ^ 64" "unat dst + nat n < 2 ^ 64"
  shows "u_memmove m dst src n = mstore m dst (mload m src (nat n))"
proof -
  have u: "unat (src + of_nat i) = unat src + i" "unat (dst + of_nat i) = unat dst + i" if "i < nat n" for i
    using unat_in_range [of src "nat n" i] unat_in_range [of dst "nat n" i] assms(3,4) that by simp_all
  have l: "nat n \<le> 2 ^ 64" using assms(2) by simp
  show ?thesis
  proof (cases "src > dst")
    case True
    have "dst + of_nat i \<noteq> src + of_nat j" if "i < j" "j < nat n" for i j
    proof
      assume "dst + of_nat i = src + of_nat j"
      then have "unat dst + i = unat src + j" using u(1) [of j] u(2) [of i] that by simp
      then show False using True that(1) by (simp add: word_less_nat_alt)
    qed
    then show ?thesis using True move_up_eq [OF l] by (simp add: u_memmove_def)
  next
    case False
    have "dst + of_nat j \<noteq> src + of_nat i" if "i < j" "j < nat n" for i j
    proof
      assume "dst + of_nat j = src + of_nat i"
      then have "unat dst + j = unat src + i" using u(1) [of i] u(2) [of j] that by simp
      then show False using False that(1) by (simp add: word_less_nat_alt)
    qed
    moreover have "of_int n = (of_nat (nat n) :: addr)" using assms(1) by (simp add: of_nat_nat)
    ultimately show ?thesis using False move_down_eq [OF l] by (simp add: u_memmove_def)
  qed
qed

text \<open>\<open>gets\<close> takes a line, with its end, cut at the size of the buffer.\<close>

definition rd_list :: "uchar list \<Rightarrow> (uchar \<times> uchar list) option" where
  "rd_list f = (case f of [] \<Rightarrow> None | c # cs \<Rightarrow> Some (c, cs))"

lemma gets_loop_line:
  "fst (gets_loop rd_list n f) = take n (takeWhile (\<lambda>c. c \<noteq> 10 \<and> c \<noteq> 13) f @ take 1 (dropWhile (\<lambda>c. c \<noteq> 10 \<and> c \<noteq> 13) f))"
proof (induction n arbitrary: f)
  case (Suc n)
  show ?case
  proof (cases f)
    case (Cons c cs)
    obtain ds g where g: "gets_loop rd_list n cs = (ds, g)" by fastforce
    moreover have "rd_list f = Some (c, cs)" by (simp add: Cons rd_list_def)
    ultimately show ?thesis using Suc [of cs] Cons by simp
  qed (simp add: rd_list_def)
qed simp

subsection \<open>What the programs compute\<close>

text \<open>A reference: the newlines, the bytes that begin a word, and all bytes.\<close>

definition is_space :: "uchar \<Rightarrow> bool" where
  "is_space b \<longleftrightarrow> b \<in> {32, 13, 9, 10, 11}"

fun words_from :: "bool \<Rightarrow> uchar list \<Rightarrow> nat" where
  "words_from inword [] = 0"
| "words_from inword (b # bs) = (if is_space b then words_from False bs else (if inword then 0 else 1) + words_from True bs)"

definition reads_all :: "('f \<Rightarrow> nat \<Rightarrow> uchar list option \<times> 'f) \<Rightarrow> ('f \<Rightarrow> uchar list) \<Rightarrow> bool" where
  "reads_all rd content \<longleftrightarrow> (\<forall>f n. \<exists>new f'. rd f n = (Some new, f') \<and> content f = new @ content f' \<and> (new = [] \<longrightarrow> n = 0 \<or> content f = []))"

lemma reads_allD:
  assumes "reads_all rd content" "n \<noteq> 0"
  shows "\<exists>new f'. rd f n = (Some new, f') \<and> content f = new @ content f' \<and> (new = [] \<longrightarrow> content f = [])"
  using spec [OF spec [OF assms(1) [unfolded reads_all_def], of f], of n] assms(2) by auto

lemma wc_byte_eq:
  "wc_byte b (l, w, c, i) = (if b = 10 then l + 1 else l, if \<not> is_space b \<and> \<not> i then w + 1 else w, c + 1, \<not> is_space b)"
proof -
  have "b \<in> set (bytes '' '' @ [13, 9, 10, 11]) \<longleftrightarrow> is_space b" by (auto simp: is_space_def bytes_def)
  then show ?thesis unfolding wc_byte_def by (simp add: Let_def)
qed

lemma wc_bytes:
  "\<exists>i. fold wc_byte bs (l, w, c, inword) = (l + int (count_list bs 10), w + int (words_from inword bs), c + int (length bs), i)"
proof (induction bs arbitrary: l w c inword)
  case (Cons b bs)
  show ?case using Cons [of "if b = 10 then l + 1 else l" "if \<not> is_space b \<and> \<not> inword then w + 1 else w" "c + 1" "\<not> is_space b"]
    by (auto simp: wc_byte_eq is_space_def)
qed simp

lemma wc_loop_fold:
  assumes "reads_all rd content"
  shows "wc_loop rd f st = Some (Inr (fold wc_byte (content f) st))"
proof (induction "length (content f)" arbitrary: f st rule: less_induct)
  case less
  obtain new f' where r: "rd f 512 = (Some new, f')" "content f = new @ content f'" "new = [] \<longrightarrow> content f = []"
    using reads_allD [OF assms, of 512 f] by auto
  show ?case
  proof (cases "new = []")
    case True
    then show ?thesis using r by (subst wc_loop.simps) simp
  next
    case False
    then have "wc_loop rd f' (fold wc_byte new st) = Some (Inr (fold wc_byte (content f') (fold wc_byte new st)))" using less r(2) by simp
    then show ?thesis using False r by (subst wc_loop.simps) simp
  qed
qed

text \<open>\<open>wc\<close> counts as the reference does, however the reads cut the input.\<close>

lemma wc_counts:
  assumes "reads_all rd content"
  shows "\<exists>i. wc rd f = Some (Inr (int (count_list (content f) 10), int (words_from False (content f)), int (length (content f)), i))"
  using wc_loop_fold [OF assms] wc_bytes [of "content f" 0 0 0 False] by (auto simp: wc_def)

lemma cat_copies:
  assumes "reads_all rd content" "\<forall>bs. wr bs = int (length bs)"
  shows "cat rd wr f out = Some (Inr (out @ content f))"
proof (induction "length (content f)" arbitrary: f out rule: less_induct)
  case less
  obtain new f' where r: "rd f 512 = (Some new, f')" "content f = new @ content f'" "new = [] \<longrightarrow> content f = []"
    using reads_allD [OF assms(1), of 512 f] by auto
  show ?case
  proof (cases "new = []")
    case True
    then show ?thesis using r by (subst cat.simps) simp
  next
    case False
    then have "cat rd wr f' (out @ new) = Some (Inr ((out @ new) @ content f'))" using less r(2) by simp
    then show ?thesis using False r assms(2) by (subst cat.simps) simp
  qed
qed

end
