(* ===== verification/Ls.thy ===== *)
theory Ls
  imports Dir Print
begin

text \<open>
  \<^verbatim>\<open>user/ls.c\<close>.  What the system calls of the program return is a record; the output is the list of texts printed, each with its descriptor.
  Paths are the bytes of a C string without the terminating NUL.
\<close>

subsection \<open>The program\<close>

record ls_calls =
  call_open :: "uchar list \<Rightarrow> int"
  call_fstat :: "int \<Rightarrow> stat option"
  call_reads :: "int \<Rightarrow> uchar list list"
  call_stat :: "uchar list \<Rightarrow> stat option"

definition fmtname :: "uchar list \<Rightarrow> uchar list" where
  "fmtname path =
     (let p = rev (takeWhile (\<lambda>c. c \<noteq> ch_slash) (rev path)) in
      if length p \<ge> DIRSIZ then p else p @ replicate (DIRSIZ - length p) 32)"

definition entry_path :: "uchar list \<Rightarrow> uchar list \<Rightarrow> uchar list" where
  "entry_path path de = path @ [ch_slash] @ cname (de_name de)"

text \<open>The size is an argument of 64 bits where the format takes an \<open>int\<close>, which is its lower half.\<close>

primrec ls_entries :: "(uchar list \<Rightarrow> stat option) \<Rightarrow> uchar list \<Rightarrow> uchar list list \<Rightarrow> (int \<times> uchar list) list" where
  "ls_entries st path [] = []"
| "ls_entries st path (de # des) =
     (if length de \<noteq> DESIZE then []
      else if de_inum de = 0 then ls_entries st path des
      else let buf = entry_path path de in
        (1, case st buf of
              None \<Rightarrow> the (printf (bytes ''ls: cannot stat %s'' @ [10]) [AStr (Some buf)])
            | Some s \<Rightarrow> the (printf (bytes ''%s %d %d %d'' @ [10])
                [AStr (Some (fmtname buf)), AInt (scast (st_type s)), AInt (st_ino s), AInt (ucast (st_size s))]))
        # ls_entries st path des)"

definition ls :: "ls_calls \<Rightarrow> uchar list \<Rightarrow> (int \<times> uchar list) list" where
  "ls sys path =
     (let fd = call_open sys path in
      if fd < 0 then [(2, the (printf (bytes ''ls: cannot open %s'' @ [10]) [AStr (Some path)]))]
      else case call_fstat sys fd of
        None \<Rightarrow> [(2, the (printf (bytes ''ls: cannot stat %s'' @ [10]) [AStr (Some path)]))]
      | Some s \<Rightarrow>
          if st_type s = T_DEVICE \<or> st_type s = T_FILE then
            [(1, the (printf (bytes ''%s %d %d %l'' @ [10])
               [AStr (Some (fmtname path)), AInt (scast (st_type s)), AInt (st_ino s), AU64 (st_size s)]))]
          else if st_type s = T_DIR then
            if length path + 1 + DIRSIZ + 1 > 512 then [(1, the (printf (bytes ''ls: path too long'' @ [10]) []))]
            else ls_entries (call_stat sys) path (call_reads sys fd)
          else [])"

definition ls_main :: "ls_calls \<Rightarrow> uchar list list \<Rightarrow> (int \<times> uchar list) list" where
  "ls_main sys args = (if args = [] then ls sys (bytes ''.'') else concat (map (ls sys) args))"

subsection \<open>Properties\<close>

text \<open>The path of an entry fits the buffer of 512 bytes with its NUL.\<close>

lemma entry_path_fits: "length path + 1 + DIRSIZ + 1 \<le> 512 \<Longrightarrow> length (entry_path path de) + 1 \<le> 512"
  using cname_length [of "de_name de"] by (simp add: entry_path_def)

lemma cname_no_slash: "plain_name n \<Longrightarrow> ch_slash \<notin> set (cname n)"
  using set_takeWhileD [of ch_slash _ "take DIRSIZ n"] by (auto simp: plain_name_def cname_def dest: in_set_takeD)

lemma plain_dirent: "plain_name n \<Longrightarrow> mk_dirent n inum = to_le 2 inum @ cname n @ replicate (DIRSIZ - length (cname n)) 0"
  by (rule mk_dirent_eq) (simp add: plain_name_def DIRSIZ_def)

text \<open>An entry that the kernel wrote is shown with the name it was written for, padded with blanks.\<close>

lemma fmtname_entry:
  assumes "plain_name n"
  shows "fmtname (entry_path path (mk_dirent n inum)) = cname n @ replicate (DIRSIZ - length (cname n)) 32"
proof -
  have d: "de_name (mk_dirent n inum) = cname n @ replicate (DIRSIZ - length (cname n)) 0" using assms by (simp add: de_name_def plain_dirent)
  have "takeWhile (\<lambda>c. c \<noteq> ch_slash) (rev (entry_path path (mk_dirent n inum))) = rev (cname n)"
    unfolding entry_path_def d cname_cname by (simp, subst takeWhile_append2) (use cname_no_slash [OF assms] in auto)
  then show ?thesis using cname_length [of n] by (simp add: fmtname_def Let_def)
qed

text \<open>A directory is listed with one line for each entry in use, in its order.\<close>

definition ls_row :: "uchar list \<Rightarrow> stat \<Rightarrow> uchar list" where
  "ls_row n s = cname n @ replicate (DIRSIZ - length (cname n)) 32 @ [32] @ printint user_digits (scast (st_type s)) 10 True @ [32] @
     printint user_digits (st_ino s) 10 True @ [32] @ printint user_digits (ucast (st_size s)) 10 True @ [10]"

lemma ls_format:
  "printf (bytes ''%s %d %d %d'' @ [10]) [AStr (Some nm), AInt a, AInt b, AInt c] =
     Some (nm @ [32] @ printint user_digits a 10 True @ [32] @ printint user_digits b 10 True @ [32] @ printint user_digits c 10 True @ [10])"
  by (simp add: printf_def bytes_def str_arg_def)

lemma ls_entries_rows:
  assumes "\<And>n i. (n, i) \<in> set es \<Longrightarrow> plain_name n \<and> st (path @ [ch_slash] @ cname n) = Some (f n)"
  shows "ls_entries st path (map (\<lambda>(n, i). mk_dirent n i) es) = map (\<lambda>(n, i). (1, ls_row n (f n))) (filter (\<lambda>(n, i). i \<noteq> 0) es)"
  using assms
proof (induction es)
  case (Cons a es)
  obtain n i where a: "a = (n, i)" by (cases a)
  have s: "plain_name n" "st (path @ [ch_slash] @ cname n) = Some (f n)" using Cons.prems [of n i] a by simp_all
  have l: "length (mk_dirent n i) = DESIZE" using cname_length [of n] s(1) by (simp add: plain_dirent DESIZE_def DIRSIZ_def)
  have u: "de_inum (mk_dirent n i) = i" using s(1) by (simp add: de_inum_def plain_dirent get16_to_le)
  have p: "entry_path path (mk_dirent n i) = path @ [ch_slash] @ cname n"
    using s(1) by (simp add: entry_path_def de_name_def plain_dirent cname_cname)
  have "ls_entries st path (map (\<lambda>(n, i). mk_dirent n i) es) = map (\<lambda>(n, i). (1, ls_row n (f n))) (filter (\<lambda>(n, i). i \<noteq> 0) es)"
    by (intro Cons.IH Cons.prems list.set_intros(2))
  then show ?case
    using a s fmtname_entry [OF s(1), of path i] by (simp add: l u p ls_format ls_row_def del: append.simps append_assoc)
qed simp

end
