(* ===== verification/Mkfs.thy ===== *)
theory Mkfs
  imports Dir
begin

text \<open>
  The builder of the first file system (\<^verbatim>\<open>mkfs/mkfs.c\<close>).  The image is its blocks; a run that ends in \<^verbatim>\<open>die\<close> or in a failed assertion is \<open>None\<close>.
  The structures on disk are those of \<open>Fs\<close>, so that the lemmas speak of what the kernel reads.  The host is little-endian.
\<close>

subsection \<open>The code\<close>

definition NINODES :: nat where "NINODES = 200"
definition FSSIZE :: nat where "FSSIZE = 2000"
definition nbitmap :: nat where "nbitmap = FSSIZE div (BSIZE * 8) + 1"
definition ninodeblocks :: nat where "ninodeblocks = NINODES div IPB + 1"
definition nmeta :: nat where "nmeta = 2 + LOGSIZE + ninodeblocks + nbitmap"

record mk =
  img :: "uint \<Rightarrow> uchar list"
  freeinode :: uint
  freeblock :: uint

text \<open>The value whose bytes in memory are those of \<open>x\<close> from the lowest up.\<close>

definition xshort :: "ushort \<Rightarrow> ushort" where
  "xshort x = of_le [ucast x, ucast (drop_bit 8 x)]"

definition xint :: "uint \<Rightarrow> uint" where
  "xint x = of_le [ucast x, ucast (drop_bit 8 x), ucast (drop_bit 16 x), ucast (drop_bit 24 x)]"

definition mk_sb :: superblock where
  "mk_sb = \<lparr>s_magic = FSMAGIC, s_size = xint (of_nat FSSIZE), s_nblocks = xint (of_nat (FSSIZE - nmeta)), s_ninodes = xint (of_nat NINODES),
     s_nlog = xint (of_nat LOGSIZE), s_logstart = xint 2, s_inodestart = xint (of_nat (2 + LOGSIZE)),
     s_bmapstart = xint (of_nat (2 + LOGSIZE + ninodeblocks))\<rparr>"

definition encode_sb :: "superblock \<Rightarrow> uchar list" where
  "encode_sb b = concat (map (to_le 4) [s_magic b, s_size b, s_nblocks b, s_ninodes b, s_nlog b, s_logstart b, s_inodestart b, s_bmapstart b])"

definition wsect :: "uint \<Rightarrow> uchar list \<Rightarrow> mk \<Rightarrow> mk" where
  "wsect sec buf st = st\<lparr>img := (img st)(sec := buf)\<rparr>"

text \<open>A read past the end of the image is short, and ends the program.  Every write follows a read of the same sector or has a constant one, so that
  the image keeps its size.\<close>

definition rsect :: "uint \<Rightarrow> mk \<Rightarrow> uchar list option" where
  "rsect sec st = (if unat sec < FSSIZE then Some (img st sec) else None)"

definition winode :: "uint \<Rightarrow> inode \<Rightarrow> mk \<Rightarrow> mk option" where
  "winode inum ip st =
     (let bn = IBLOCK inum mk_sb in
      case rsect bn st of
        None \<Rightarrow> None
      | Some buf \<Rightarrow> Some (wsect bn (splice buf (dinode_off inum) (encode_dinode ip)) st))"

definition zero_inode :: inode where
  "zero_inode = \<lparr>i_dev = 0, i_inum = 0, i_ref = 0, i_valid = False, i_type = 0, i_major = 0, i_minor = 0, i_nlink = 0, i_size = 0,
     i_addrs = replicate (NDIRECT + 1) 0\<rparr>"

definition rinode :: "uint \<Rightarrow> mk \<Rightarrow> inode option" where
  "rinode inum st =
     (case rsect (IBLOCK inum mk_sb) st of
        None \<Rightarrow> None
      | Some buf \<Rightarrow> Some (load_dinode buf (dinode_off inum) zero_inode))"

definition mk_ialloc :: "ushort \<Rightarrow> mk \<Rightarrow> (uint \<times> mk) option" where
  "mk_ialloc type st =
     (let inum = freeinode st; st = st\<lparr>freeinode := freeinode st + 1\<rparr>;
          din = zero_inode\<lparr>i_type := xshort type, i_nlink := xshort 1, i_size := xint 0\<rparr>
      in map_option (\<lambda>st. (inum, st)) (winode inum din st))"

definition bitmap :: "nat \<Rightarrow> uchar list" where
  "bitmap used = fold (\<lambda>i buf. bm_set buf i) [0..<used] (replicate BSIZE 0)"

definition mk_balloc :: "nat \<Rightarrow> mk \<Rightarrow> mk option" where
  "mk_balloc used st = (if used < BSIZE * 8 then Some (wsect (s_bmapstart mk_sb) (bitmap used) st) else None)"

text \<open>The block of the file that \<open>iappend\<close> writes next, allocated if there is none.\<close>

definition new_block :: "mk \<Rightarrow> uint \<times> mk" where
  "new_block st = (freeblock st, st\<lparr>freeblock := freeblock st + 1\<rparr>)"

definition file_block :: "nat \<Rightarrow> inode \<Rightarrow> mk \<Rightarrow> (uint \<times> inode \<times> mk) option" where
  "file_block fbn din st =
     (if fbn < NDIRECT then
        (let (a, st) = (if xint (i_addrs din ! fbn) = 0 then new_block st else (xint (i_addrs din ! fbn), st));
             din = din\<lparr>i_addrs := (i_addrs din)[fbn := xint a]\<rparr>
         in Some (xint (i_addrs din ! fbn), din, st))
      else
        (let (a, st) = (if xint (i_addrs din ! NDIRECT) = 0 then new_block st else (xint (i_addrs din ! NDIRECT), st));
             din = din\<lparr>i_addrs := (i_addrs din)[NDIRECT := xint a]\<rparr>
         in case rsect (xint (i_addrs din ! NDIRECT)) st of
              None \<Rightarrow> None
            | Some ind \<Rightarrow>
                let off = 4 * (fbn - NDIRECT) in
                if get32 ind off = 0
                then let (x, st) = new_block st; ind = put32 ind off (xint x)
                     in Some (xint (get32 ind off), din, wsect (xint (i_addrs din ! NDIRECT)) ind st)
                else Some (xint (get32 ind off), din, st)))"

function iappend_loop :: "inode \<Rightarrow> nat \<Rightarrow> uchar list \<Rightarrow> mk \<Rightarrow> (inode \<times> nat \<times> mk) option" where
  "iappend_loop din off p st =
     (if p = [] then Some (din, off, st)
      else let fbn = off div BSIZE in
        if fbn \<ge> MAXFILE then None
        else case file_block fbn din st of
            None \<Rightarrow> None
          | Some (x, din, st) \<Rightarrow>
              let n1 = min (length p) ((fbn + 1) * BSIZE - off) in
              case rsect x st of
                None \<Rightarrow> None
              | Some buf \<Rightarrow> iappend_loop din (off + n1) (drop n1 p) (wsect x (splice buf (off - fbn * BSIZE) (take n1 p)) st))"
  by pat_completeness auto
termination
proof (relation "measure (\<lambda>(din, off, p, st). length p)", goal_cases)
  case (2 din off p st fbn)
  have "off < (off div BSIZE + 1) * BSIZE" by (simp add: BSIZE_def)
  then show ?case using 2 by auto
qed simp

declare iappend_loop.simps [simp del]

definition iappend :: "uint \<Rightarrow> uchar list \<Rightarrow> mk \<Rightarrow> mk option" where
  "iappend inum p st =
     (case rinode inum st of
        None \<Rightarrow> None
      | Some din \<Rightarrow>
          (case iappend_loop din (unat (xint (i_size din))) p st of
             None \<Rightarrow> None
           | Some (din, off, st) \<Rightarrow> winode inum (din\<lparr>i_size := xint (of_nat off)\<rparr>) st))"

text \<open>A file of the command line: its path, and the blocks that \<^verbatim>\<open>read\<close> returned for it.\<close>

definition short_name :: "uchar list \<Rightarrow> uchar list option" where
  "short_name path =
     (let s = (if take 5 path = bytes ''user/'' then drop 5 path else path) in
      if (47 :: uchar) \<in> set s then None else Some (if take 1 s = [95] then drop 1 s else s))"

primrec append_all :: "uchar list list \<Rightarrow> uint \<Rightarrow> mk \<Rightarrow> mk option" where
  "append_all [] inum st = Some st"
| "append_all (b # bs) inum st = Option.bind (iappend inum b st) (append_all bs inum)"

definition dirent_bytes :: "ushort \<Rightarrow> uchar list \<Rightarrow> uchar list" where
  "dirent_bytes inum name = to_le 2 (xshort inum) @ take DIRSIZ (name @ replicate DIRSIZ 0)"

definition add_file :: "uint \<Rightarrow> uchar list \<times> uchar list list \<Rightarrow> mk \<Rightarrow> mk option" where
  "add_file rootino f st =
     Option.bind (short_name (fst f)) (\<lambda>name.
     Option.bind (mk_ialloc T_FILE st) (\<lambda>(inum, st).
     Option.bind (iappend rootino (dirent_bytes (ucast inum) name) st)
       (append_all (snd f) inum)))"

primrec add_files :: "uint \<Rightarrow> (uchar list \<times> uchar list list) list \<Rightarrow> mk \<Rightarrow> mk option" where
  "add_files rootino [] st = Some st"
| "add_files rootino (f # fs) st = Option.bind (add_file rootino f st) (add_files rootino fs)"

definition fix_root :: "uint \<Rightarrow> mk \<Rightarrow> mk option" where
  "fix_root rootino st =
     Option.bind (rinode rootino st) (\<lambda>din.
     let off = xint (i_size din); off = (off div of_nat BSIZE + 1) * of_nat BSIZE
     in winode rootino (din\<lparr>i_size := xint off\<rparr>) st)"

definition mkfs_start :: mk where
  "mkfs_start = wsect 1 (splice (replicate BSIZE 0) 0 (encode_sb mk_sb))
     \<lparr>img = (\<lambda>_. replicate BSIZE 0), freeinode = 1, freeblock = of_nat nmeta\<rparr>"

definition mkfs_main :: "(uchar list \<times> uchar list list) list \<Rightarrow> mk option" where
  "mkfs_main files =
     Option.bind (mk_ialloc T_DIR mkfs_start) (\<lambda>(rootino, st).
     if rootino \<noteq> ROOTINO then None
     else Option.bind (iappend rootino (dirent_bytes (ucast rootino) (bytes ''.'')) st) (\<lambda>st.
          Option.bind (iappend rootino (dirent_bytes (ucast rootino) (bytes ''..'')) st) (\<lambda>st.
          Option.bind (add_files rootino files st) (\<lambda>st.
          Option.bind (fix_root rootino st) (\<lambda>st.
          mk_balloc (unat (freeblock st)) st)))))"

subsection \<open>Properties\<close>

lemma xint_eq [simp]: "xint x = x"
proof -
  have "[ucast x, ucast (drop_bit 8 x), ucast (drop_bit 16 x), ucast (drop_bit 24 x)] = to_le 4 x" by (simp add: numeral_eq_Suc)
  then show ?thesis by (simp add: xint_def)
qed

lemma xshort_eq [simp]: "xshort x = x"
proof -
  have "[ucast x, ucast (drop_bit 8 x)] = to_le 2 x" by (simp add: numeral_eq_Suc)
  then show ?thesis by (simp add: xshort_def)
qed

lemma length_splice [simp]: "off + length bs \<le> length d \<Longrightarrow> length (splice d off bs) = length d"
  by (simp add: splice_def)

lemma get32_splice_other:
  assumes "off + length bs \<le> length d" "k + 4 \<le> off \<or> off + length bs \<le> k"
  shows "get32 (splice d off bs) k = get32 d k"
  using assms(2)
proof
  assume "k + 4 \<le> off"
  then have "4 \<le> off - k" "k \<le> off" by simp_all
  then show ?thesis using assms(1) by (simp add: get32_def splice_def drop_take min_def)
next
  assume k: "off + length bs \<le> k"
  then have "drop k (splice d off bs) = drop k d" using assms(1) by (simp add: splice_def)
  then show ?thesis by (simp add: get32_def)
qed

lemma get32_splice_in: "off \<le> length d \<Longrightarrow> k + 4 \<le> length bs \<Longrightarrow> get32 (splice d off bs) (off + k) = get32 bs k"
  by (rule get_splice(2))

text \<open>The regions of the image.\<close>

lemma mk_sizes: "nmeta = 46" "s_bmapstart mk_sb = 45" "s_inodestart mk_sb = 32" "s_logstart mk_sb = 2" "unat (freeblock mkfs_start) = 46"
  by (simp_all add: mkfs_start_def wsect_def nmeta_def ninodeblocks_def nbitmap_def NINODES_def FSSIZE_def IPB_def LOGSIZE_def BSIZE_def mk_sb_def)

lemma iblock_unat:
  assumes "unat inum < 208"
  shows "unat (IBLOCK inum mk_sb) = unat inum div 16 + 32"
proof -
  have "unat (inum div 16) = unat inum div 16" by (simp add: unat_div_distrib)
  moreover have "unat inum div 16 < 13" using assms by simp
  ultimately show ?thesis using mk_sizes(3) by (simp add: IBLOCK_def IPB_def BSIZE_def unat_word_ariths)
qed

lemma dinode_off_eq: "dinode_off inum = unat inum mod 16 * 64"
  by (simp add: dinode_off_def IPB_def BSIZE_def)

text \<open>Address \<open>k\<close> of inode \<open>inum\<close> on the image; an address that is none or that of a data block.\<close>

definition addr_of :: "mk \<Rightarrow> uint \<Rightarrow> nat \<Rightarrow> uint" where
  "addr_of st inum k = get32 (img st (IBLOCK inum mk_sb)) (dinode_off inum + 12 + 4 * k)"

definition good :: "uint set \<Rightarrow> mk \<Rightarrow> uint \<Rightarrow> bool" where
  "good I st v \<longleftrightarrow> v = 0 \<or> (nmeta \<le> unat v \<and> unat v < unat (freeblock st) \<and> v \<notin> I)"

definition addrs_good :: "uint set \<Rightarrow> mk \<Rightarrow> (nat \<Rightarrow> uint) \<Rightarrow> bool" where
  "addrs_good I st a \<longleftrightarrow> (\<forall>k<NDIRECT. good I st (a k)) \<and> (a NDIRECT = 0 \<or> a NDIRECT \<in> I)"

text \<open>The image under construction, \<open>I\<close> being its indirect blocks: addresses lead to data blocks that are allocated, and an indirect block
  is not a data block; blocks not yet allocated are zero, and the superblock and the log stay as they were written.\<close>

definition mk_ok :: "uint set \<Rightarrow> mk \<Rightarrow> bool" where
  "mk_ok I st \<longleftrightarrow>
     nmeta \<le> unat (freeblock st) \<and> unat (freeblock st) \<le> FSSIZE \<and> (\<forall>b. length (img st b) = BSIZE) \<and>
     (\<forall>b\<in>I. nmeta \<le> unat b \<and> unat b < unat (freeblock st)) \<and>
     (\<forall>b. unat (freeblock st) \<le> unat b \<longrightarrow> img st b = replicate BSIZE 0) \<and>
     (\<forall>inum. unat inum < 208 \<longrightarrow> addrs_good I st (addr_of st inum)) \<and>
     (\<forall>b\<in>I. \<forall>j<NINDIRECT. good I st (get32 (img st b) (4 * j))) \<and>
     img st 1 = img mkfs_start 1 \<and> (\<forall>b. 2 \<le> unat b \<and> unat b < 32 \<longrightarrow> img st b = replicate BSIZE 0)"

lemma mk_okD:
  assumes "mk_ok I st"
  shows "nmeta \<le> unat (freeblock st)" "unat (freeblock st) \<le> FSSIZE" "length (img st b) = BSIZE" "b \<in> I \<Longrightarrow> nmeta \<le> unat b \<and> unat b < unat (freeblock st)"
    "unat (freeblock st) \<le> unat b \<Longrightarrow> img st b = replicate BSIZE 0" "unat inum < 208 \<Longrightarrow> addrs_good I st (addr_of st inum)"
    "b \<in> I \<Longrightarrow> j < NINDIRECT \<Longrightarrow> good I st (get32 (img st b) (4 * j))" "img st 1 = img mkfs_start 1" "2 \<le> unat b \<Longrightarrow> unat b < 32 \<Longrightarrow> img st b = replicate BSIZE 0"
  using assms unfolding mk_ok_def by blast+

text \<open>A write to a data block.\<close>

lemma wsect_data:
  assumes "mk_ok I st" "nmeta \<le> unat x" "unat x < unat (freeblock st)" "x \<notin> I" "length buf = BSIZE"
  shows "mk_ok I (wsect x buf st)"
proof -
  have f: "freeblock (wsect x buf st) = freeblock st" "good I (wsect x buf st) = good I st" by (auto simp: wsect_def good_def fun_eq_iff)
  have i: "img (wsect x buf st) b = img st b" if "b \<noteq> x" for b using that by (simp add: wsect_def)
  have x: "IBLOCK inum mk_sb \<noteq> x" if "unat inum < 208" for inum
    using iblock_unat [OF that] that assms(2) mk_sizes(1) by auto
  have a: "addr_of (wsect x buf st) inum = addr_of st inum" if "unat inum < 208" for inum
    using i [OF x [OF that]] by (simp add: addr_of_def fun_eq_iff)
  have ag: "addrs_good I (wsect x buf st) = addrs_good I st" by (simp add: addrs_good_def fun_eq_iff f)
  have l: "length (img (wsect x buf st) b) = BSIZE" for b using mk_okD(3) [OF assms(1)] assms(5) by (simp add: wsect_def)
  have n: "unat x \<noteq> 1" "\<not> unat x < 32" using assms(2) mk_sizes(1) by auto
  have "b \<noteq> x" if "unat (freeblock st) \<le> unat b \<or> b \<in> I \<or> b = 1 \<or> (2 \<le> unat b \<and> unat b < 32)" for b using that assms(3,4) n by auto
  then show ?thesis using assms(1) i a l unfolding mk_ok_def f ag by auto
qed

lemma get32_put32:
  assumes "off + 4 \<le> length d"
  shows "get32 (put32 d off v) off = v" "k + 4 \<le> off \<or> off + 4 \<le> k \<Longrightarrow> get32 (put32 d off v) k = get32 d k" "length (put32 d off v) = length d"
  using assms get32_splice_in [of off d 0 "to_le 4 v"] get32_splice_other [of off "to_le 4 v" d k] by (simp_all add: put32_def) (simp add: get32_def)

lemma wsect_ind:
  assumes ok: "mk_ok I st" and b: "b \<in> I" and v: "good I st v" and j: "j < NINDIRECT"
  shows "mk_ok I (wsect b (put32 (img st b) (4 * j) v) st)"
proof -
  let ?st = "wsect b (put32 (img st b) (4 * j) v) st"
  have f: "freeblock ?st = freeblock st" "good I ?st = good I st" by (auto simp: wsect_def good_def fun_eq_iff)
  have i: "img ?st c = img st c" if "c \<noteq> b" for c using that by (simp add: wsect_def)
  have bb: "nmeta \<le> unat b" "unat b < unat (freeblock st)" using mk_okD(4) [OF ok b] by auto
  have x: "IBLOCK inum mk_sb \<noteq> b" if "unat inum < 208" for inum using iblock_unat [OF that] that bb(1) mk_sizes(1) by auto
  have a: "addr_of ?st inum = addr_of st inum" if "unat inum < 208" for inum using i [OF x [OF that]] by (simp add: addr_of_def fun_eq_iff)
  have ag: "addrs_good I ?st = addrs_good I st" by (simp add: addrs_good_def fun_eq_iff f)
  have off: "4 * j + 4 \<le> length (img st b)" using j mk_okD(3) [OF ok, of b] by (simp add: NINDIRECT_def BSIZE_def)
  have l: "length (img ?st c) = BSIZE" for c using mk_okD(3) [OF ok] get32_put32(3) [OF off, of v] by (simp add: wsect_def)
  have e: "good I st (get32 (img ?st c) (4 * m))" if "c \<in> I" "m < NINDIRECT" for c m
  proof (cases "c = b")
    case True
    have "m = j \<or> 4 * m + 4 \<le> 4 * j \<or> 4 * j + 4 \<le> 4 * m" by linarith
    then show ?thesis using get32_put32(1) [OF off, of v] get32_put32(2) [OF off, of "4 * m" v] v mk_okD(7) [OF ok that] True by (auto simp: wsect_def)
  qed (use i mk_okD(7) [OF ok that] in simp)
  have "c \<noteq> b" if "unat (freeblock st) \<le> unat c \<or> c = 1 \<or> (2 \<le> unat c \<and> unat c < 32)" for c using that bb mk_sizes(1) by auto
  then show ?thesis using ok i a l e unfolding mk_ok_def f ag by auto
qed

lemma of_le_zeros: "of_le (replicate n 0) = 0"
  by (induction n) simp_all

lemma get32_zeros [simp]: "get32 (replicate n 0) k = 0"
  by (simp add: get32_def of_le_zeros)

text \<open>A new block, used for data or as an indirect block.\<close>

lemma new_ok:
  assumes ok: "mk_ok I st" and nb: "new_block st = (a, st')" "unat a < FSSIZE"
  shows "mk_ok I st'" "mk_ok (insert a I) st'" "nmeta \<le> unat a" "unat a < unat (freeblock st')" "a \<notin> I" "img st' = img st"
    "good I st v \<Longrightarrow> good I st' v \<and> good (insert a I) st' v"
proof -
  have a: "a = freeblock st" "st' = st\<lparr>freeblock := freeblock st + 1\<rparr>" using nb(1) by (auto simp: new_block_def)
  have f: "unat (freeblock st') = unat a + 1" using nb(2) by (simp add: a unat_word_ariths FSSIZE_def)
  show "nmeta \<le> unat a" "unat a < unat (freeblock st')" "a \<notin> I" "img st' = img st" using mk_okD(1,4) [OF ok] f a by auto
  have g: "good I st' v" "good (insert a I) st' v" if "good I st v" for v using that f a by (auto simp: good_def)
  show "good I st v \<Longrightarrow> good I st' v \<and> good (insert a I) st' v" using g by blast
  have at: "addr_of st' = addr_of st" by (simp add: addr_of_def fun_eq_iff a)
  have ag: "addrs_good I st' w \<and> addrs_good (insert a I) st' w" if "addrs_good I st w" for w using that g by (auto simp: addrs_good_def)
  have fr: "img st b = replicate BSIZE 0" if "unat (freeblock st') \<le> unat b" for b using mk_okD(5) [OF ok, of b] that f a by simp
  have ia: "img st a = replicate BSIZE 0" using mk_okD(5) [OF ok, of a] a by simp
  have I: "nmeta \<le> unat b \<and> unat b < unat (freeblock st')" if "b \<in> insert a I" for b using that mk_okD(4) [OF ok, of b] mk_okD(1) [OF ok] f a by auto
  have e: "good I st' (get32 (img st b) (4 * j)) \<and> good (insert a I) st' (get32 (img st b) (4 * j))" if "b \<in> I" "j < NINDIRECT" for b j
    using mk_okD(7) [OF ok that] g by blast
  have s: "nmeta \<le> unat (freeblock st')" "unat (freeblock st') \<le> FSSIZE" using mk_okD(1) [OF ok] nb(2) f a by auto
  show "mk_ok I st'" using ok s fr ag I e unfolding mk_ok_def at \<open>img st' = img st\<close> by auto
  show "mk_ok (insert a I) st'" using ok s fr ag I e get32_zeros ia unfolding mk_ok_def at \<open>img st' = img st\<close> by (auto simp: good_def)
qed

lemma addrs_upd:
  assumes "addrs_good I st ((!) as)" "length as = NDIRECT + 1"
  shows "k < NDIRECT \<Longrightarrow> good I st v \<Longrightarrow> addrs_good I st ((!) (as[k := v]))" "v \<in> I \<Longrightarrow> addrs_good I st ((!) (as[NDIRECT := v]))"
  using assms by (auto simp: addrs_good_def nth_list_update)

lemma addrs_new:
  assumes "mk_ok I st" "new_block st = (a, st')" "unat a < FSSIZE" "addrs_good I st w"
  shows "addrs_good I st' w" "addrs_good (insert a I) st' w"
  using new_ok(7) [OF assms(1-3)] assms(4) by (auto simp: addrs_good_def)

abbreviation din_ok :: "uint set \<Rightarrow> mk \<Rightarrow> inode \<Rightarrow> bool" where
  "din_ok I st din \<equiv> addrs_good I st ((!) (i_addrs din)) \<and> length (i_addrs din) = NDIRECT + 1"

abbreviation data_block :: "uint set \<Rightarrow> mk \<Rightarrow> uint \<Rightarrow> bool" where
  "data_block I st x \<equiv> nmeta \<le> unat x \<and> unat x < unat (freeblock st) \<and> x \<notin> I"

lemma direct_ok:
  assumes ok: "mk_ok I st" "din_ok I st din" and k: "fbn < NDIRECT" and fb: "file_block fbn din st = Some (x, din', st')" "unat x < FSSIZE"
  shows "mk_ok I st' \<and> din_ok I st' din' \<and> data_block I st' x"
proof (cases "i_addrs din ! fbn = 0")
  case True
  obtain a st1 where n: "new_block st = (a, st1)" by fastforce
  then have e: "x = a" "st' = st1" "din' = din\<lparr>i_addrs := (i_addrs din)[fbn := a]\<rparr>" using fb k True ok(2) by (auto simp: file_block_def NDIRECT_def)
  note N = new_ok [OF ok(1) n fb(2) [unfolded e(1)]]
  have "good I st1 a" using N(3-5) by (simp add: good_def)
  then show ?thesis using N addrs_upd(1) [OF addrs_new(1) [OF ok(1) n fb(2) [unfolded e(1)]] _ k] ok(2) e by simp
next
  case False
  then have e: "x = i_addrs din ! fbn" "st' = st" "din' = din" using fb k ok(2) by (auto simp: file_block_def Let_def NDIRECT_def)
  then show ?thesis using ok False k by (auto simp: addrs_good_def good_def)
qed

text \<open>An entry of an indirect block \<open>b\<close>.\<close>

lemma entry_ok:
  assumes ok: "mk_ok I st" and b: "b \<in> I" and j: "j < NINDIRECT" and x: "unat x < FSSIZE"
    and e: "(x, st') = (if get32 (img st b) (4 * j) = 0
      then (freeblock st, wsect b (put32 (img st b) (4 * j) (freeblock st)) (st\<lparr>freeblock := freeblock st + 1\<rparr>))
      else (get32 (img st b) (4 * j), st))"
  shows "mk_ok I st' \<and> data_block I st' x \<and> (\<forall>w. addrs_good I st w \<longrightarrow> addrs_good I st' w)"
proof (cases "get32 (img st b) (4 * j) = 0")
  case True
  let ?s = "st\<lparr>freeblock := freeblock st + 1\<rparr>"
  have n: "new_block st = (x, ?s)" and s: "st' = wsect b (put32 (img ?s b) (4 * j) x) ?s" using e True by (simp_all add: new_block_def)
  note N = new_ok [OF ok n x]
  have g: "good I ?s x" using N(3-5) by (simp add: good_def)
  have w: "good I st' = good I ?s" unfolding s by (simp add: good_def wsect_def fun_eq_iff)
  have "addrs_good I st' v" if "addrs_good I st v" for v using addrs_new(1) [OF ok n x that] by (simp add: addrs_good_def w)
  then show ?thesis using wsect_ind [OF N(1) b g j] N(3-5) s by (simp add: wsect_def)
next
  case False
  then show ?thesis using e ok mk_okD(7) [OF ok b j] by (auto simp: good_def)
qed

lemma file_block_indirect:
  assumes "file_block fbn din st = Some (x, din', st')" "NDIRECT \<le> fbn" "length (i_addrs din) = NDIRECT + 1"
    "(b, st1) = (if i_addrs din ! NDIRECT = 0 then new_block st else (i_addrs din ! NDIRECT, st))"
    "4 * (fbn - NDIRECT) + 4 \<le> length (img st1 b)"
  shows "unat b < FSSIZE" "din' = din\<lparr>i_addrs := (i_addrs din)[NDIRECT := b]\<rparr>"
    "(x, st') = (if get32 (img st1 b) (4 * (fbn - NDIRECT)) = 0
      then (freeblock st1, wsect b (put32 (img st1 b) (4 * (fbn - NDIRECT)) (freeblock st1)) (st1\<lparr>freeblock := freeblock st1 + 1\<rparr>))
      else (get32 (img st1 b) (4 * (fbn - NDIRECT)), st1))"
  using assms get32_put32(1) [OF assms(5)]
  by (auto simp: file_block_def rsect_def new_block_def Let_def split: if_splits)

lemma indirect_ok:
  assumes ok: "mk_ok I st" "din_ok I st din" and k: "NDIRECT \<le> fbn" "fbn < MAXFILE" and fb: "file_block fbn din st = Some (x, din', st')" "unat x < FSSIZE"
  shows "\<exists>J. mk_ok J st' \<and> din_ok J st' din' \<and> data_block J st' x"
proof -
  define j where "j = fbn - NDIRECT"
  have j: "j < NINDIRECT" using k by (simp add: j_def MAXFILE_def)
  obtain b st1 where b: "(b, st1) = (if i_addrs din ! NDIRECT = 0 then new_block st else (i_addrs din ! NDIRECT, st))" by (metis surj_pair)
  let ?din = "din\<lparr>i_addrs := (i_addrs din)[NDIRECT := b]\<rparr>"
  have "img st1 = img st" using b by (auto simp: new_block_def split: if_splits)
  then have len: "4 * (fbn - NDIRECT) + 4 \<le> length (img st1 b)" using mk_okD(3) [OF ok(1)] j by (simp add: j_def NINDIRECT_def BSIZE_def)
  have bs: "unat b < FSSIZE" and d: "din' = ?din" and e: "(x, st') = (if get32 (img st1 b) (4 * j) = 0
      then (freeblock st1, wsect b (put32 (img st1 b) (4 * j) (freeblock st1)) (st1\<lparr>freeblock := freeblock st1 + 1\<rparr>))
      else (get32 (img st1 b) (4 * j), st1))"
    unfolding j_def using file_block_indirect [OF fb(1) k(1) _ b] ok(2) len by blast+
  have "\<exists>J. mk_ok J st1 \<and> din_ok J st1 ?din \<and> b \<in> J"
  proof (cases "i_addrs din ! NDIRECT = 0")
    case True
    then have n: "new_block st = (b, st1)" using b by simp
    show ?thesis using new_ok(2) [OF ok(1) n bs] addrs_upd(2) [OF addrs_new(2) [OF ok(1) n bs], of "i_addrs din" b] ok(2)
      by (intro exI [where x = "insert b I"]) simp
  next
    case False
    then have "b = i_addrs din ! NDIRECT" "st1 = st" using b by simp_all
    then show ?thesis using ok False by (intro exI [where x = I]) (auto simp: addrs_good_def)
  qed
  then obtain J where J: "mk_ok J st1" "din_ok J st1 ?din" "b \<in> J" by blast
  then show ?thesis using entry_ok [OF J(1,3) j fb(2) e] d by blast
qed

lemma file_block_ok:
  assumes "mk_ok I st" "din_ok I st din" "fbn < MAXFILE" "file_block fbn din st = Some (x, din', st')" "unat x < FSSIZE"
  shows "\<exists>J. mk_ok J st' \<and> din_ok J st' din' \<and> data_block J st' x \<and> freeinode st' = freeinode st"
proof -
  have f: "freeinode st' = freeinode st"
    using assms(4) by (auto simp: file_block_def new_block_def wsect_def Let_def split: if_splits option.splits)
  show ?thesis
  proof (cases "fbn < NDIRECT")
    case True
    then show ?thesis using direct_ok [OF assms(1,2) True assms(4,5)] f by blast
  next
    case False
    then show ?thesis using indirect_ok [OF assms(1,2) _ assms(3-5)] f by auto
  qed
qed

lemma iappend_loop_ok:
  assumes "mk_ok I st" "din_ok I st din" "iappend_loop din off p st = Some (din', off', st')"
  shows "\<exists>J. mk_ok J st' \<and> din_ok J st' din' \<and> freeinode st' = freeinode st"
  using assms
proof (induction "length p" arbitrary: din off p st I rule: less_induct)
  case less
  show ?case
  proof (cases "p = []")
    case True
    then show ?thesis using less.prems by (auto simp: iappend_loop.simps [of din])
  next
    case False
    let ?fbn = "off div BSIZE"
    let ?n = "min (length p) ((?fbn + 1) * BSIZE - off)"
    obtain x d1 st1 where s: "?fbn < MAXFILE" "file_block ?fbn din st = Some (x, d1, st1)" "unat x < FSSIZE"
        "iappend_loop d1 (off + ?n) (drop ?n p) (wsect x (splice (img st1 x) (off - ?fbn * BSIZE) (take ?n p)) st1) = Some (din', off', st')"
      using less.prems(3) False by (auto simp: iappend_loop.simps [of din] Let_def rsect_def split: if_splits option.splits)
    obtain J where J: "mk_ok J st1" "din_ok J st1 d1" "data_block J st1 x" "freeinode st1 = freeinode st"
      using file_block_ok [OF less.prems(1,2) s(1-3)] by blast
    have o: "off < (?fbn + 1) * BSIZE" "?fbn * BSIZE \<le> off" by (simp_all add: BSIZE_def)
    let ?buf = "splice (img st1 x) (off - ?fbn * BSIZE) (take ?n p)"
    have "off - ?fbn * BSIZE + length (take ?n p) \<le> length (img st1 x)" using mk_okD(3) [OF J(1), of x] o by auto
    then have "length ?buf = BSIZE" using mk_okD(3) [OF J(1), of x] by simp
    then have "mk_ok J (wsect x ?buf st1)" using J(1,3) by (intro wsect_data) auto
    moreover have "good J (wsect x ?buf st1) = good J st1" by (simp add: good_def wsect_def fun_eq_iff)
    then have "din_ok J (wsect x ?buf st1) d1" using J(2) by (simp add: addrs_good_def)
    moreover have "length (drop ?n p) < length p" using False o(1) by auto
    ultimately obtain K where "mk_ok K st'" "din_ok K st' din'" "freeinode st' = freeinode (wsect x ?buf st1)"
      using less.hyps [OF _ _ _ s(4)] by blast
    then show ?thesis using J(4) by (auto simp: wsect_def)
  qed
qed

lemma addrs_good_cong: "(\<And>k. k \<le> NDIRECT \<Longrightarrow> a k = b k) \<Longrightarrow> addrs_good I st a = addrs_good I st b"
  by (simp add: addrs_good_def)

lemma addr_splice:
  assumes "length d = BSIZE" "length bs = 64" "k \<le> NDIRECT"
  shows "get32 (splice d (unat i mod 16 * 64) bs) (unat i mod 16 * 64 + 12 + 4 * k) = get32 bs (12 + 4 * k)"
    "unat j mod 16 \<noteq> unat i mod 16 \<Longrightarrow> get32 (splice d (unat i mod 16 * 64) bs) (unat j mod 16 * 64 + 12 + 4 * k) = get32 d (unat j mod 16 * 64 + 12 + 4 * k)"
proof -
  have m: "unat i mod 16 \<le> 15" "unat j mod 16 \<le> 15" by simp_all
  then have o: "unat i mod 16 * 64 + length bs \<le> length d" using assms(1,2) by (simp add: BSIZE_def)
  show "get32 (splice d (unat i mod 16 * 64) bs) (unat i mod 16 * 64 + 12 + 4 * k) = get32 bs (12 + 4 * k)"
    using get32_splice_in [of "unat i mod 16 * 64" d "12 + 4 * k" bs] o assms(2,3) by (simp add: add.assoc NDIRECT_def)
  assume "unat j mod 16 \<noteq> unat i mod 16"
  then have "unat j mod 16 + 1 \<le> unat i mod 16 \<or> unat i mod 16 + 1 \<le> unat j mod 16" by linarith
  then have "unat j mod 16 * 64 + 64 \<le> unat i mod 16 * 64 \<or> unat i mod 16 * 64 + 64 \<le> unat j mod 16 * 64" by linarith
  then show "get32 (splice d (unat i mod 16 * 64) bs) (unat j mod 16 * 64 + 12 + 4 * k) = get32 d (unat j mod 16 * 64 + 12 + 4 * k)"
    using assms(2,3) by (intro get32_splice_other [OF o]) (auto simp: NDIRECT_def)
qed

lemma winode_ok:
  assumes ok: "mk_ok I st" and d: "din_ok I st din" and i: "unat inum < 208" and w: "winode inum din st = Some st'"
  shows "mk_ok I st' \<and> freeinode st' = freeinode st"
proof -
  let ?bn = "IBLOCK inum mk_sb"
  let ?buf = "splice (img st ?bn) (dinode_off inum) (encode_dinode din)"
  have s: "st' = wsect ?bn ?buf st" using w by (auto simp: winode_def rsect_def Let_def split: if_splits)
  have e: "length (encode_dinode din) = 64" using d by (simp add: length_encode_dinode NDIRECT_def)
  have bn: "unat ?bn = unat inum div 16 + 32" "unat ?bn < 45" using iblock_unat [OF i] i by auto
  have len: "length (img st ?bn) = BSIZE" by (rule mk_okD(3) [OF ok])
  have l: "length ?buf = BSIZE" using len e by (subst length_splice) (auto simp: dinode_off_eq BSIZE_def)
  have f: "freeblock st' = freeblock st" "good I st' = good I st" unfolding s by (auto simp: wsect_def good_def fun_eq_iff)
  have im: "img st' b = img st b" if "b \<noteq> ?bn" for b using that by (simp add: s wsect_def)
  have ag: "addrs_good I st' = addrs_good I st" by (simp add: addrs_good_def fun_eq_iff f)
  have a: "addrs_good I st (addr_of st' j)" if j: "unat j < 208" for j
  proof (cases "j = inum")
    case True
    have "addr_of st' inum k = i_addrs din ! k" if "k \<le> NDIRECT" for k
      using addr_splice(1) [OF len e that, of inum] get_encode(6) [of k din] d that by (simp add: addr_of_def s wsect_def dinode_off_eq)
    then show ?thesis using d True addrs_good_cong [of "addr_of st' inum" "(!) (i_addrs din)"] by auto
  next
    case False
    have "addr_of st' j k = addr_of st j k" if "k \<le> NDIRECT" for k
    proof (cases "IBLOCK j mk_sb = ?bn")
      case True
      then have "unat j div 16 = unat inum div 16" using bn(1) iblock_unat [OF j] by simp
      then have "unat j mod 16 \<noteq> unat inum mod 16" using False by (metis div_mult_mod_eq unsigned_word_eqI)
      then show ?thesis using addr_splice(2) [OF len e that] True by (simp add: addr_of_def s wsect_def dinode_off_eq)
    qed (simp add: addr_of_def im)
    then show ?thesis using mk_okD(6) [OF ok j] addrs_good_cong [of "addr_of st' j" "addr_of st j"] by auto
  qed
  have ne: "b \<noteq> ?bn" if "unat (freeblock st) \<le> unat b \<or> b \<in> I \<or> b = 1 \<or> (2 \<le> unat b \<and> unat b < 32)" for b
    using that mk_okD(1) [OF ok] mk_okD(4) [OF ok, of b] bn mk_sizes(1) by auto
  have "length (img st' b) = BSIZE" for b using mk_okD(3) [OF ok] l by (simp add: s wsect_def)
  then show ?thesis using ok im a ne unfolding mk_ok_def f ag by (auto simp: s wsect_def)
qed

lemma rinode_ok:
  assumes "mk_ok I st" "unat inum < 208" "rinode inum st = Some din"
  shows "din_ok I st din"
proof -
  have d: "din = load_dinode (img st (IBLOCK inum mk_sb)) (dinode_off inum) zero_inode" using assms(3) by (auto simp: rinode_def rsect_def split: if_splits)
  have "addrs_good I st ((!) (i_addrs din)) = addrs_good I st (addr_of st inum)"
    by (rule addrs_good_cong) (simp add: d load_dinode_def addr_of_def del: upt_Suc)
  then show ?thesis using mk_okD(6) [OF assms(1,2)] by (simp add: d load_dinode_def)
qed

lemma iappend_ok:
  assumes "mk_ok I st" "unat inum < 208" "iappend inum p st = Some st'"
  shows "\<exists>J. mk_ok J st' \<and> freeinode st' = freeinode st"
proof -
  obtain din d off s where s: "rinode inum st = Some din" "iappend_loop din (unat (xint (i_size din))) p st = Some (d, off, s)"
      "winode inum (d\<lparr>i_size := xint (of_nat off)\<rparr>) s = Some st'"
    using assms(3) by (auto simp: iappend_def split: option.splits)
  obtain J where J: "mk_ok J s" "din_ok J s d" "freeinode s = freeinode st"
    using iappend_loop_ok [OF assms(1) rinode_ok [OF assms(1,2) s(1)] s(2)] by blast
  have "din_ok J s (d\<lparr>i_size := xint (of_nat off)\<rparr>)" using J(2) by simp
  from winode_ok [OF J(1) this assms(2) s(3)] show ?thesis using J(3) by auto
qed

lemma mk_ialloc_ok:
  assumes "mk_ok I st" "unat (freeinode st) < 208" "mk_ialloc type st = Some (inum, st')"
  shows "inum = freeinode st \<and> mk_ok I st' \<and> freeinode st' = freeinode st + 1"
proof -
  let ?st = "st\<lparr>freeinode := freeinode st + 1\<rparr>" and ?din = "zero_inode\<lparr>i_type := type, i_nlink := 1, i_size := 0\<rparr>"
  have w: "winode inum ?din ?st = Some st'" "inum = freeinode st" using assms(3) by (auto simp: mk_ialloc_def Let_def)
  have "mk_ok I ?st" using assms(1) by (simp add: mk_ok_def addrs_good_def good_def addr_of_def)
  moreover have "din_ok I ?st ?din" by (simp add: zero_inode_def addrs_good_def good_def del: replicate_Suc)
  ultimately show ?thesis using winode_ok [OF _ _ _ w(1)] assms(2) w(2) by auto
qed

lemma append_all_ok:
  assumes "mk_ok I st" "unat inum < 208" "append_all bs inum st = Some st'"
  shows "\<exists>J. mk_ok J st' \<and> freeinode st' = freeinode st"
  using assms
proof (induction bs arbitrary: I st)
  case (Cons b bs)
  then obtain s where s: "iappend inum b st = Some s" "append_all bs inum s = Some st'" by (auto simp: bind_eq_Some_conv)
  obtain J where J: "mk_ok J s" "freeinode s = freeinode st" using iappend_ok [OF Cons.prems(1,2) s(1)] by blast
  then show ?case using Cons.IH [OF J(1) Cons.prems(2) s(2)] by simp
qed auto

lemma add_files_ok:
  assumes "mk_ok I st" "unat root < 208" "unat (freeinode st) + length fs \<le> 208" "add_files root fs st = Some st'"
  shows "\<exists>J. mk_ok J st'"
  using assms
proof (induction fs arbitrary: I st)
  case (Cons f fs)
  obtain s where s: "add_file root f st = Some s" "add_files root fs s = Some st'" using Cons.prems(4) by (auto simp: bind_eq_Some_conv)
  obtain name inum s1 s2 where a: "mk_ialloc T_FILE st = Some (inum, s1)" "iappend root (dirent_bytes (ucast inum) name) s1 = Some s2" "append_all (snd f) inum s2 = Some s"
    using s(1) by (auto simp: add_file_def bind_eq_Some_conv)
  have i: "inum = freeinode st" "mk_ok I s1" "freeinode s1 = freeinode st + 1" using mk_ialloc_ok [OF Cons.prems(1) _ a(1)] Cons.prems(3) by auto
  obtain J where J: "mk_ok J s2" "freeinode s2 = freeinode s1" using iappend_ok [OF i(2) Cons.prems(2) a(2)] by blast
  have "unat inum < 208" using i(1) Cons.prems(3) by simp
  from append_all_ok [OF J(1) this a(3)] obtain K where K: "mk_ok K s" "freeinode s = freeinode st + 1" using J(2) i(3) by auto
  have "unat (freeinode s) = unat (freeinode st) + 1" using K(2) Cons.prems(3) by (simp add: unat_word_ariths)
  then show ?case using Cons.IH [OF K(1) Cons.prems(2) _ s(2)] Cons.prems(3) by simp
qed auto

lemma fix_root_ok:
  assumes "mk_ok I st" "unat root < 208" "fix_root root st = Some st'"
  shows "mk_ok I st'"
proof -
  obtain din v where d: "rinode root st = Some din" "winode root (din\<lparr>i_size := v\<rparr>) st = Some st'"
    using assms(3) by (auto simp: fix_root_def bind_eq_Some_conv Let_def)
  have "din_ok I st (din\<lparr>i_size := v\<rparr>)" using rinode_ok [OF assms(1,2) d(1)] by simp
  then show ?thesis using winode_ok [OF assms(1) _ assms(2) d(2)] by simp
qed

lemma start_ok: "mk_ok {} mkfs_start"
proof -
  have e: "length (encode_sb mk_sb) = 32" by (simp add: encode_sb_def)
  have l: "length (splice (replicate BSIZE 0) 0 (encode_sb mk_sb)) = BSIZE" using e by (subst length_splice) (simp_all add: BSIZE_def)
  have i: "img mkfs_start b = replicate BSIZE 0" if "b \<noteq> 1" for b using that by (simp add: mkfs_start_def wsect_def)
  have n: "IBLOCK inum mk_sb \<noteq> 1" if "unat inum < 208" for inum using iblock_unat [OF that] by auto
  have a: "addr_of mkfs_start inum k = 0" if "unat inum < 208" for inum k using i [OF n [OF that]] by (simp add: addr_of_def)
  have "length (img mkfs_start b) = BSIZE" for b using l i [of b] by (cases "b = 1") (simp_all add: mkfs_start_def wsect_def)
  moreover have "img mkfs_start b = replicate BSIZE 0" if "2 \<le> unat b" for b using that by (intro i) auto
  ultimately show ?thesis using a mk_sizes(1,5) by (auto simp: mk_ok_def addrs_good_def good_def FSSIZE_def)
qed

text \<open>The bitmap.\<close>

lemma bm_set_free:
  assumes "bi div 8 < length d"
  shows "bm_free (bm_set d bi) bj \<longleftrightarrow> bj \<noteq> bi \<and> bm_free d bj"
proof -
  have "bj = bi \<longleftrightarrow> bj div 8 = bi div 8 \<and> bj mod 8 = bi mod 8" by (metis div_mult_mod_eq)
  then show ?thesis using assms by (auto simp: bm_free_bit bm_set_def nth_list_update bit_or_iff bm_mask_bit)
qed

lemma bitmap_free:
  assumes "used \<le> BPB" "bi < BPB"
  shows "length (bitmap used) = BSIZE \<and> (bm_free (bitmap used) bi \<longleftrightarrow> used \<le> bi)"
  using assms(1)
proof (induction used)
  case 0
  have "bm_free (replicate BSIZE 0) bi" using assms(2) by (simp add: bm_free_bit BPB_def BSIZE_def)
  then show ?case by (simp add: bitmap_def)
next
  case (Suc n)
  have "bitmap (Suc n) = bm_set (bitmap n) n" by (simp add: bitmap_def)
  moreover have "n div 8 < length (bitmap n)" using Suc by (simp add: BPB_def BSIZE_def)
  ultimately show ?case using bm_set_free [of n "bitmap n" bi] Suc by (auto simp: bm_set_def)
qed

lemma find_first: "n < m \<Longrightarrow> (\<And>i. i < m \<Longrightarrow> P i \<longleftrightarrow> n \<le> i) \<Longrightarrow> find P [0..<m] = Some n"
  by (auto simp: find_Some_iff intro!: exI [where x = n])

lemma sb_roundtrip: "decode_sb (img mkfs_start 1) = mk_sb"
proof -
  let ?l = "[s_magic mk_sb, s_size mk_sb, s_nblocks mk_sb, s_ninodes mk_sb, s_nlog mk_sb, s_logstart mk_sb, s_inodestart mk_sb, s_bmapstart mk_sb]"
  have g: "get32 (img mkfs_start 1) (4 * k) = ?l ! k" if "k < length ?l" for k
    using that get32_concat [OF that, of "[]"] get32_splice_in [of 0 "replicate BSIZE 0" "4 * k" "encode_sb mk_sb"]
    by (simp add: mkfs_start_def wsect_def encode_sb_def)
  show ?thesis using g [of 0] g [of 1] g [of 2] g [of 3] g [of 4] g [of 5] g [of 6] g [of 7] by (simp add: decode_sb_def)
qed

lemma mkfs_main_ok:
  assumes "length files \<le> 200" "mkfs_main files = Some st"
  shows "\<exists>I s. mk_ok I s \<and> unat (freeblock s) < BPB \<and> st = wsect 45 (bitmap (unat (freeblock s))) s"
proof -
  obtain root a b c e f where s: "mk_ialloc T_DIR mkfs_start = Some (root, a)" "root = ROOTINO" "iappend root (dirent_bytes (ucast root) (bytes ''.'')) a = Some b"
      "iappend root (dirent_bytes (ucast root) (bytes ''..'')) b = Some c" "add_files root files c = Some e" "fix_root root e = Some f" "mk_balloc (unat (freeblock f)) f = Some st"
    using assms(2) by (auto simp: mkfs_main_def bind_eq_Some_conv split: if_splits)
  have root: "unat root < 208" using s(2) by (simp add: ROOTINO_def)
  have fi: "freeinode mkfs_start = 1" by (simp add: mkfs_start_def wsect_def)
  have a: "mk_ok {} a" "freeinode a = 2" using mk_ialloc_ok [OF start_ok _ s(1)] by (simp_all add: fi)
  obtain B where B: "mk_ok B b" "freeinode b = 2" using iappend_ok [OF a(1) root s(3)] a(2) by auto
  obtain C where C: "mk_ok C c" "freeinode c = 2" using iappend_ok [OF B(1) root s(4)] B(2) by auto
  have "unat (freeinode c) + length files \<le> 208" using C(2) assms(1) by simp
  from add_files_ok [OF C(1) root this s(5)] obtain E where E: "mk_ok E e" by blast
  have "mk_ok E f" by (rule fix_root_ok [OF E root s(6)])
  then show ?thesis using s(7) mk_sizes(2) by (auto simp: mk_balloc_def BPB_def split: if_splits)
qed

lemma addr_used:
  assumes "mk_ok I s" "unat inum < 208" "k \<le> NDIRECT"
  shows "addr_of s inum k = 0 \<or> nmeta \<le> unat (addr_of s inum k) \<and> unat (addr_of s inum k) < unat (freeblock s)"
  using mk_okD(6) [OF assms(1,2)] mk_okD(4) [OF assms(1), of "addr_of s inum k"] assms(3) unfolding addrs_good_def good_def by (metis le_neq_implies_less)

lemma entry_used:
  assumes "mk_ok I s" "unat inum < 208" "addr_of s inum NDIRECT \<noteq> 0" "j < NINDIRECT"
  shows "get32 (img s (addr_of s inum NDIRECT)) (4 * j) = 0 \<or>
    nmeta \<le> unat (get32 (img s (addr_of s inum NDIRECT)) (4 * j)) \<and> unat (get32 (img s (addr_of s inum NDIRECT)) (4 * j)) < unat (freeblock s)"
proof -
  have "addr_of s inum NDIRECT \<in> I" using mk_okD(6) [OF assms(1,2)] assms(3) by (simp add: addrs_good_def)
  then show ?thesis using mk_okD(7) [OF assms(1) _ assms(4)] by (auto simp: good_def)
qed

text \<open>C16: an image that \<open>mkfs\<close> completes, with at most 200 files, is one the kernel can mount.  The superblock the kernel decodes is the one meant and the log is empty; the bitmap marks exactly
  the blocks below \<open>freeblock\<close>, the first that \<open>mkfs\<close> has not used, as in use, so that the kernel's allocator starts there; and every block that an inode points to, directly or by an entry of its
  indirect block, is a data block below \<open>freeblock\<close>.\<close>

theorem mkfs_image:
  assumes "length files \<le> 200" "mkfs_main files = Some st"
  shows "decode_sb (img st 1) = mk_sb \<and>
    (\<forall>b. 2 \<le> unat b \<and> unat b < 2 + LOGSIZE \<longrightarrow> img st b = replicate BSIZE 0) \<and>
    nmeta \<le> unat (freeblock st) \<and> unat (freeblock st) \<le> FSSIZE \<and>
    (\<forall>bi<BPB. bm_free (img st (BBLOCK 0 mk_sb)) bi \<longleftrightarrow> unat (freeblock st) \<le> bi) \<and>
    (unat (freeblock st) < FSSIZE \<longrightarrow>
      find (bm_free (img st (BBLOCK 0 mk_sb))) [0..<min BPB (unat (s_size mk_sb))] = Some (unat (freeblock st))) \<and>
    (\<forall>inum k. unat inum < 208 \<longrightarrow> k \<le> NDIRECT \<longrightarrow>
      addr_of st inum k = 0 \<or> nmeta \<le> unat (addr_of st inum k) \<and> unat (addr_of st inum k) < unat (freeblock st)) \<and>
    (\<forall>inum j. unat inum < 208 \<longrightarrow> addr_of st inum NDIRECT \<noteq> 0 \<longrightarrow> j < NINDIRECT \<longrightarrow>
      get32 (img st (addr_of st inum NDIRECT)) (4 * j) = 0 \<or>
      nmeta \<le> unat (get32 (img st (addr_of st inum NDIRECT)) (4 * j)) \<and> unat (get32 (img st (addr_of st inum NDIRECT)) (4 * j)) < unat (freeblock st))"
proof -
  obtain I s where s: "mk_ok I s" "unat (freeblock s) < BPB" "st = wsect 45 (bitmap (unat (freeblock s))) s" using mkfs_main_ok [OF assms] by blast
  let ?u = "unat (freeblock s)"
  have bb: "BBLOCK 0 mk_sb = 45" "img st 45 = bitmap ?u" "unat (s_size mk_sb) = FSSIZE" "freeblock st = freeblock s"
    using mk_sizes(2) by (simp_all add: BBLOCK_def s(3) wsect_def mk_sb_def FSSIZE_def)
  have free: "bm_free (bitmap ?u) bi \<longleftrightarrow> ?u \<le> bi" if "bi < BPB" for bi using bitmap_free [of ?u bi] s(2) that by simp
  have im: "img st b = img s b" if "unat b \<noteq> 45" for b using that by (auto simp: s(3) wsect_def)
  have f: "find (bm_free (bitmap ?u)) [0..<min BPB FSSIZE] = Some ?u" if "?u < FSSIZE" using that s(2) free by (intro find_first) auto
  have e: "addr_of st inum k = addr_of s inum k" if i: "unat inum < 208" for inum k
  proof -
    have "unat (IBLOCK inum mk_sb) \<noteq> 45" using iblock_unat [OF i] i by auto
    then show ?thesis using im by (simp add: addr_of_def)
  qed
  have d: "img st (addr_of s inum NDIRECT) = img s (addr_of s inum NDIRECT)" if i: "unat inum < 208" "addr_of s inum NDIRECT \<noteq> 0" for inum
    using addr_used [OF s(1) i(1), of NDIRECT] i(2) mk_sizes(1) by (intro im) auto
  have "decode_sb (img st 1) = mk_sb" "\<And>b. 2 \<le> unat b \<Longrightarrow> unat b < 32 \<Longrightarrow> img st b = replicate BSIZE 0"
    using im [of 1] mk_okD(8) [OF s(1)] sb_roundtrip im mk_okD(9) [OF s(1)] by simp_all
  then show ?thesis using mk_okD(1,2) [OF s(1)] f free addr_used [OF s(1)] entry_used [OF s(1)] e d unfolding bb by (simp add: LOGSIZE_def)
qed

text \<open>A run that completes: the image without files.\<close>

lemma winode_some: "unat inum < 208 \<Longrightarrow> winode inum din st = Some (wsect (IBLOCK inum mk_sb) (splice (img st (IBLOCK inum mk_sb)) (dinode_off inum) (encode_dinode din)) st)"
  using iblock_unat [of inum] by (auto simp: winode_def rsect_def FSSIZE_def Let_def)

lemma rinode_winode:
  assumes "unat inum < 208" "length (img st (IBLOCK inum mk_sb)) = BSIZE" "winode inum din st = Some st'"
  shows "\<exists>d. rinode inum st' = Some d \<and> i_size d = i_size din \<and> freeblock st' = freeblock st"
proof -
  have "dinode_off inum \<le> length (img st (IBLOCK inum mk_sb))" using assms(2) by (simp add: dinode_off_eq BSIZE_def)
  then have "get32 (splice (img st (IBLOCK inum mk_sb)) (dinode_off inum) (encode_dinode din)) (dinode_off inum + 8) = i_size din"
    using get32_splice_in [of "dinode_off inum" _ 8 "encode_dinode din"] by (simp add: length_encode_dinode get_encode)
  then show ?thesis using assms(1,3) winode_some [of inum din st] iblock_unat [of inum]
    by (auto simp: rinode_def rsect_def wsect_def load_dinode_def FSSIZE_def)
qed

lemma iappend_small:
  assumes ok: "mk_ok I st" and i: "unat inum < 208" and d: "rinode inum st = Some din" and p: "p \<noteq> []" "unat (i_size din) + length p \<le> BSIZE"
    and f: "unat (freeblock st) < FSSIZE"
  shows "\<exists>st' d. iappend inum p st = Some st' \<and> rinode inum st' = Some d \<and> unat (i_size d) = unat (i_size din) + length p \<and> unat (freeblock st') \<le> unat (freeblock st) + 1"
proof -
  let ?off = "unat (i_size din)"
  have "0 < length p" using p(1) by simp
  then have "?off < BSIZE" using p(2) by linarith
  then have z: "?off div BSIZE = 0" "0 < MAXFILE" "0 < NDIRECT" by (auto simp: MAXFILE_def NDIRECT_def)
  obtain x d1 s1 where fb: "file_block 0 din st = Some (x, d1, s1)" "unat (freeblock s1) \<le> unat (freeblock st) + 1" "unat x < FSSIZE" "length (img s1 b) = BSIZE" for b
  proof -
    have g: "good I st (i_addrs din ! 0)" "length (i_addrs din) = NDIRECT + 1" using rinode_ok [OF ok i d] z(3) by (auto simp: addrs_good_def)
    have u: "unat (freeblock st + 1) = unat (freeblock st) + 1" using f by (simp add: unat_word_ariths FSSIZE_def)
    show ?thesis
    proof (cases "i_addrs din ! 0 = 0")
      case True
      then show ?thesis using that [of "freeblock st" "din\<lparr>i_addrs := (i_addrs din)[0 := freeblock st]\<rparr>" "st\<lparr>freeblock := freeblock st + 1\<rparr>"] g(2) f u mk_okD(3) [OF ok]
        by (simp add: file_block_def new_block_def NDIRECT_def)
    next
      case False
      then show ?thesis using that [of "i_addrs din ! 0" din st] g mk_okD(2,3) [OF ok] by (simp add: file_block_def NDIRECT_def good_def)
    qed
  qed
  let ?s = "wsect x (splice (img s1 x) ?off p) s1"
  have "iappend_loop din ?off p st = Some (d1, ?off + length p, ?s)"
    using fb(1,3) z p by (simp add: iappend_loop.simps [of din] iappend_loop.simps [of d1] Let_def rsect_def min_def)
  then have a: "iappend inum p st = winode inum (d1\<lparr>i_size := of_nat (?off + length p)\<rparr>) ?s" using d by (simp add: iappend_def)
  obtain st' where w: "winode inum (d1\<lparr>i_size := of_nat (?off + length p)\<rparr>) ?s = Some st'" using winode_some [OF i] by blast
  have l: "length (img ?s (IBLOCK inum mk_sb)) = BSIZE" using fb(4) p(2) by (simp add: wsect_def)
  have "unat (of_nat (?off + length p) :: uint) = ?off + length p" using p(2) by (simp add: unsigned_of_nat take_bit_nat_eq_self BSIZE_def del: of_nat_add)
  then show ?thesis using rinode_winode [OF i l w] a w fb(2) by (auto simp: wsect_def simp del: of_nat_add)
qed

lemma mkfs_empty: "\<exists>st. mkfs_main [] = Some st"
proof -
  have r: "unat (1 :: uint) < 208" by simp
  let ?din = "zero_inode\<lparr>i_type := T_DIR, i_nlink := 1, i_size := 0\<rparr>" and ?st = "mkfs_start\<lparr>freeinode := 2\<rparr>"
  have fi: "freeinode mkfs_start = 1" by (simp add: mkfs_start_def wsect_def)
  obtain a where a: "winode 1 ?din ?st = Some a" using winode_some [OF r] by blast
  have ia: "mk_ialloc T_DIR mkfs_start = Some (1, a)" using a by (simp add: mk_ialloc_def Let_def fi)
  have oa: "mk_ok {} a" using mk_ialloc_ok [OF start_ok _ ia] by (simp add: fi)
  have "length (img ?st (IBLOCK 1 mk_sb)) = BSIZE" using mk_okD(3) [OF start_ok] by simp
  from rinode_winode [OF r this a] obtain d where d: "rinode 1 a = Some d" "unat (i_size d) = 0" "unat (freeblock a) = 46" using mk_sizes(5) by auto
  have l: "length (dirent_bytes 1 n) = 16" for n by (simp add: dirent_bytes_def DIRSIZ_def)
  then have ne: "dirent_bytes 1 n \<noteq> []" for n by (metis length_0_conv zero_neq_numeral)
  obtain b e where b: "iappend 1 (dirent_bytes 1 (bytes ''.'')) a = Some b" "rinode 1 b = Some e" "unat (i_size e) = 16" "unat (freeblock b) \<le> 47"
    using iappend_small [OF oa r d(1) ne [of "bytes ''.''"]] d l by (auto simp: BSIZE_def FSSIZE_def)
  obtain J where J: "mk_ok J b" using iappend_ok [OF oa r b(1)] by blast
  obtain c g where c: "iappend 1 (dirent_bytes 1 (bytes ''..'')) b = Some c" "rinode 1 c = Some g" "unat (freeblock c) \<le> 48"
    using iappend_small [OF J r b(2) ne [of "bytes ''..''"]] b l by (auto simp: BSIZE_def FSSIZE_def)
  define v where "v = (i_size g div of_nat BSIZE + 1) * of_nat BSIZE"
  obtain h where h: "winode 1 (g\<lparr>i_size := v\<rparr>) c = Some h" "freeblock h = freeblock c" using winode_some [OF r] by (auto simp: wsect_def)
  have "fix_root 1 c = Some h" using c(2) h(1) by (simp add: fix_root_def Let_def v_def)
  moreover have "unat (freeblock h) < BSIZE * 8" using h(2) c(3) by (simp add: BSIZE_def)
  ultimately show ?thesis using ia b(1) c(1) by (simp add: mkfs_main_def ROOTINO_def mk_balloc_def)
qed

theorem mkfs_image_witness:
  "\<exists>st. mkfs_main [] = Some st \<and> decode_sb (img st 1) = mk_sb \<and> img st 2 = replicate BSIZE 0 \<and> nmeta \<le> unat (freeblock st) \<and>
    bm_free (img st (BBLOCK 0 mk_sb)) 1999 = (unat (freeblock st) \<le> 1999)"
proof -
  obtain st where "mkfs_main [] = Some st" using mkfs_empty by blast
  moreover have "1999 < BPB" by (simp add: BPB_def BSIZE_def)
  ultimately show ?thesis using mkfs_image [of "[]" st] by (intro exI [where x = st]) (simp add: LOGSIZE_def)
qed

end
