(* ===== verification/Spec2Isabelle.thy ===== *)
theory Spec2Isabelle
  imports Spinlock VmDemo CrashDemo Grep Dsort LazyRW Umalloc Uprog Ulib Ls Mkfs
begin

text \<open>
  A verification development for an xv6 kernel with copy-on-write fork (\<^verbatim>\<open>src/initial-xv6/src\<close>).

  \<^bold>\<open>Shape.\<close>  A kernel function is a state transformer (theory \<open>Kmonad\<close>) that returns, panics, or gives up
  the CPU in \<^verbatim>\<open>sleep\<close>.  The kernel state is a record that each component extends: the locks held,
  physical memory and the page allocator (\<open>Kmem\<close>), the kernel page table (\<open>Vm\<close>), the process table
  (\<open>Proc\<close>), pipes (\<open>Pipe\<close>), the serial port and the console (\<open>Uart\<close>), sleep locks, buffers and the disk (\<open>Bio\<close>), the log
  (\<open>Log\<close>), inodes (\<open>Fs\<close>), open files (\<open>File\<close>), the disk driver (\<open>Virtio\<close>) and the registers of the hart (\<open>Trap\<close>).  An operation
  of a component is polymorphic in what the later ones add.  Memory is byte addressed and page tables live in it,
  as in the code; machine integers keep their width, with the exceptions listed under Integers.  Kernel objects that the code reaches through pointers
  are indices into tables, as the code allocates them; buffers on the kernel stack are byte lists.

  \<^bold>\<open>Parts.\<close>
  \<^item> \<open>Prelude\<close>, \<open>Riscv\<close>: C integer types, little-endian memory, page arithmetic and page-table entry
    layout (\<^verbatim>\<open>kernel/types.h\<close>, \<^verbatim>\<open>kernel/riscv.h\<close>, \<^verbatim>\<open>kernel/memlayout.h\<close>).
  \<^item> \<open>Str\<close>: \<^verbatim>\<open>kernel/string.c\<close>.
  \<^item> \<open>Spinlock\<close>: \<^verbatim>\<open>kernel/spinlock.c\<close> on any number of harts, as an interleaving of the steps of \<open>acquire\<close> and
    \<open>release\<close>: mutual exclusion, interrupts off while a lock is held, and the only ways to panic.  This is what the set of held
    locks in \<open>Kmonad\<close> stands on.
  \<^item> \<open>Pool\<close>, \<open>Kmem\<close>: \<^verbatim>\<open>kernel/kalloc.c\<close>, the free list and the reference counts of pages.  The free list is
    a chain through memory; its interface is a locale interpreted on the kernel's operations.
  \<^item> \<open>Vm\<close>, \<open>PageTable\<close>: \<^verbatim>\<open>kernel/vm.c\<close>.  \<open>PageTable\<close> gives every page a role (free, page-table node at a path
    of a root, user page, kernel page) and shows that walking, linking, allocating and freeing keep
    the roles consistent, so that a three-level table behaves like a map from pages to entries.
  \<^item> \<open>Cow\<close>, \<open>Fork\<close>, \<open>UserCopy\<close>: \<^verbatim>\<open>cowalloc\<close>, \<^verbatim>\<open>uvmcopy\<close> and \<^verbatim>\<open>copyout\<close>.  The invariant \<open>vm_inv\<close> says that the count
    of a page is the number of entries that map it and that a writable entry is the only one.
    The theorems say what each address space sees before and after, on every path.
  \<^item> \<open>VmDemo\<close>, \<open>Demo\<close>: a concrete memory with two address spaces, and a concrete state of the whole kernel, on
    which theorems are applied.
  \<^item> \<open>Proc\<close>, \<open>Proc2\<close>: \<^verbatim>\<open>kernel/proc.c\<close>: allocation, sleeping, waking, killing, a round of the scheduler over the whole table and the accounting of
    run time; then \<^verbatim>\<open>fork\<close>, \<^verbatim>\<open>exit\<close>, \<^verbatim>\<open>wait\<close>, \<^verbatim>\<open>waitx\<close> and the first process, which use the file layer.
  \<^item> \<open>Ring\<close>, \<open>Pipe\<close>: \<^verbatim>\<open>kernel/pipe.c\<close>; a ring buffer with free-running counters is a queue.
  \<^item> \<open>Uart\<close>: \<^verbatim>\<open>kernel/uart.c\<close>, \<^verbatim>\<open>kernel/console.c\<close> and \<^verbatim>\<open>procdump\<close>.  Text printed by the kernel is appended to the bytes sent.
  \<^item> \<open>Print\<close>: the formatting of \<^verbatim>\<open>kernel/printf.c\<close> and \<^verbatim>\<open>user/printf.c\<close>, and \<^verbatim>\<open>atoi\<close>; what is printed reads back, and
    it fits the buffer.
  \<^item> \<open>Bio\<close>, \<open>Log\<close>, \<open>Bcache\<close>, \<open>Fs\<close>, \<open>Dir\<close>, \<open>File\<close>: \<^verbatim>\<open>kernel/sleeplock.c\<close>, \<^verbatim>\<open>kernel/bio.c\<close>, \<^verbatim>\<open>kernel/log.c\<close>, \<^verbatim>\<open>kernel/fs.c\<close> and
    \<^verbatim>\<open>kernel/file.c\<close>.  \<open>Bio\<close> takes the disk driver by its contract, a request done when the call returns (\<open>disk_rw\<close>); \<open>Virtio\<close> has the
    driver.  Lemmas: the cache shows every block as the kernel last left it (\<open>Bcache\<close>), the reservation of log space, the bitmap, inodes and directory entries on disk (names pass through the \<open>strncpy\<close> and \<open>strncmp\<close> of \<open>Str\<close>), path elements,
    references to files.
  \<^item> \<open>LogIo\<close>, \<open>Crash\<close>, \<open>CrashDemo\<close>: the order in which \<^verbatim>\<open>commit\<close> and \<^verbatim>\<open>recover_from_log\<close> write the disk, and what a crash after any of these
    writes leaves behind: recovery finds the whole transaction or nothing of it.
  \<^item> \<open>Syscall\<close>, \<open>Exec\<close>, \<open>Fcntl\<close>, \<open>Sysfile\<close>: \<^verbatim>\<open>kernel/syscall.c\<close>, \<^verbatim>\<open>kernel/sysproc.c\<close>, \<^verbatim>\<open>kernel/exec.c\<close>, \<^verbatim>\<open>kernel/sysfile.c\<close>.
  \<^item> \<open>Virtio\<close>, \<open>Trap\<close>: \<^verbatim>\<open>kernel/virtio_disk.c\<close>, \<^verbatim>\<open>kernel/plic.c\<close>, \<^verbatim>\<open>kernel/trap.c\<close>, \<^verbatim>\<open>forkret\<close> and \<^verbatim>\<open>kernel/main.c\<close>; an interrupt
    in the kernel gives back the registers it found, also across a yield.
  \<^item> \<open>Sh\<close>: the parser of \<^verbatim>\<open>user/sh.c\<close>, total with fuel linear in the length of the line.
  \<^item> \<open>Uprog\<close>: \<^verbatim>\<open>runcmd\<close> and the main loop of the shell, and the programs \<^verbatim>\<open>echo\<close>, \<^verbatim>\<open>kill\<close>, \<^verbatim>\<open>ln\<close>, \<^verbatim>\<open>mkdir\<close>, \<^verbatim>\<open>rm\<close> and \<^verbatim>\<open>zombie\<close>, as trees of
    the system calls they make; which descriptors a program started by the shell has.
  \<^item> \<open>Umalloc\<close>: \<^verbatim>\<open>user/umalloc.c\<close>; the free list is a ring in order of address whose blocks are disjoint from those handed out;
    \<open>malloc\<close> gives up only when no block fits and the kernel refuses memory, and \<open>free\<close> puts back exactly the memory of its block.
  \<^item> \<open>Ulib\<close>: string routines of \<^verbatim>\<open>user/ulib.c\<close>, and the loops of \<^verbatim>\<open>user/wc.c\<close> and \<^verbatim>\<open>user/cat.c\<close> against the bytes of their input.
  \<^item> \<open>Ls\<close>: \<^verbatim>\<open>user/ls.c\<close>; it shows the entries that the kernel wrote to a directory.
  \<^item> \<open>Mkfs\<close>: \<^verbatim>\<open>mkfs/mkfs.c\<close>; the image it writes, in terms of the decoders and the bitmap search of the kernel (\<open>Fs\<close>).
  \<^item> \<open>Grep\<close>: \<^verbatim>\<open>user/grep.c\<close>; the recursive matcher against the language of a pattern, and the line loop
    against the list of matching lines.
  \<^item> \<open>Dsort\<close>: \<^verbatim>\<open>concurrency/Distributed-Sorting/finaltry.c\<close>, a file sorter; the merge sort sorts.
  \<^item> \<open>LazyRW\<close>: \<^verbatim>\<open>concurrency/Lazy-Read-Write/finaltry.c\<close>, threads that read, write and delete files as interleaved steps of
    \<^verbatim>\<open>handle_request\<close>; the limits on who works on a file hold in every reachable state, and the requests are started in order.  The clock is left open: a waiting request
    may give up at any time.

  \<^bold>\<open>Bounds.\<close>  Loops over page tables recurse on the level or the slot, loops over addresses on the
  distance to \<open>MAXVA\<close>, loops over tables on the number of entries left, loops over bytes or blocks on the number left; all are total.
  The parser of the shell has fuel \<open>4 * length + 4\<close>, shown to be enough; the loop that frees a chain of disk descriptors
  has fuel for each of the 8 descriptors.  The loops of \<open>grep\<close>, \<open>wc\<close> and \<open>cat\<close> run until
  their input ends, and the search of the user allocator runs round its ring; these are partial functions, shown to return.

  \<^bold>\<open>Integers.\<close>  Some counters of type \<open>int\<close> are integers without wrap-around: the nesting depth \<open>noff\<close> of \<open>Spinlock\<close>, where staying below \<open>2 ^ 31\<close> is a
  hypothesis where the depth is arbitrary, and in the lock code is the number of locks held; the reference count of an open file, which is at most \<open>NPROC * NOFILE\<close> and the calls in progress; and \<open>nextpid\<close>, on which
  no theorem depends.  \<open>read_head\<close> takes a negative number of blocks on disk as 0, for which the loops of the code do nothing either.

  \<^bold>\<open>Concurrency.\<close>  Each function is run from one call to the next point where it gives up the CPU, with
  the locks it needs free.  What other processes do in between enters as the state in which
  it is resumed: a definition whose name ends in \<open>_resume\<close> is what follows the sleep.  A sleep inside a nested call ends the run
  of the outer one in that state.  In the scheduler, what happens between the switch to a process and the switch back is a parameter.

  \<^bold>\<open>Not modelled.\<close>  Assembly (\<^verbatim>\<open>swtch.S\<close>, \<^verbatim>\<open>trampoline.S\<close>, \<^verbatim>\<open>entry.S\<close>, \<^verbatim>\<open>kernelvec.S\<close>) and \<^verbatim>\<open>start.c\<close>, which are instructions and
  register set-up below the C kernel; the disk and the terminal themselves; the lock of \<^verbatim>\<open>printf\<close>; the message of \<^verbatim>\<open>uvmcopy\<close> when
  a page cannot be mapped, since the console is built on top of \<open>Vm\<close>; the text that the parser of the shell prints before its panic on left-over input, and its failing allocations; the opening of the
  console and the reading of lines in the shell, \<^verbatim>\<open>init\<close>, and the main functions of the programs that read files, which open them; the clock and the messages of the two pthread programs; test programs, which
  add no operation of their own.
\<close>

end
